(* ===== verification/Fengnet_Prelude.thy ===== *)
theory Fengnet_Prelude
  imports Main "HOL-Library.Word" "HOL-Library.Monad_Syntax"
begin

text \<open>
  Shared vocabulary of the development.

  \<^item> The machine integers of the program: \<open>byte\<close>, \<open>u16\<close>, \<open>u32\<close>, \<open>u64\<close> are words of
    their width; a C \<open>int\<close> that the code uses as a (possibly negative) size or return code
    is an \<open>int\<close>.
  \<^item> Checked memory. A C buffer is a list, a pointer into it an offset. \<open>load\<close>,
    \<open>store\<close>, \<open>load_n\<close> and \<open>store_n\<close> return \<open>None\<close> when an access leaves the
    buffer, so \<open>None\<close> stands for undefined behaviour or a failed \<open>assert\<close> throughout, and
    a theorem that a function returns \<open>Some\<close> is a memory-safety statement.
  \<^item> \<open>for_each\<close>: a C \<open>for\<close> loop whose body can fault.
  \<^item> The little-endian and big-endian byte readers and writers the wire formats use, with
    their round trips.
\<close>

unbundle bit_operations_syntax

named_theorems mem_simps \<open>rewriting of checked memory accesses\<close>
named_theorems codec_simps \<open>round trips of the byte readers and writers\<close>

type_synonym byte = "8 word"
type_synonym u16 = "16 word"
type_synonym u32 = "32 word"
type_synonym u64 = "64 word"
type_synonym bytes = "byte list"

text \<open>Signed arithmetic: a result outside \<open>int\<close> is undefined behaviour. \<open>c_rem\<close> is the C remainder.\<close>

definition c_int :: "int \<Rightarrow> int option" where
  "c_int x = (if - (2 ^ 31) \<le> x \<and> x < 2 ^ 31 then Some x else None)"

definition c_rem :: "int \<Rightarrow> int \<Rightarrow> int" where
  "c_rem a b = sgn a * (\<bar>a\<bar> mod \<bar>b\<bar>)"

section \<open>Checked memory\<close>

definition load :: "'a list \<Rightarrow> nat \<Rightarrow> 'a option" where
  "load m p = (if p < length m then Some (m ! p) else None)"

definition store :: "'a list \<Rightarrow> nat \<Rightarrow> 'a \<Rightarrow> 'a list option" where
  "store m p v = (if p < length m then Some (m[p := v]) else None)"

definition load_n :: "'a list \<Rightarrow> nat \<Rightarrow> nat \<Rightarrow> 'a list option" where
  "load_n m p n = (if p + n \<le> length m then Some (take n (drop p m)) else None)"

definition store_n :: "'a list \<Rightarrow> nat \<Rightarrow> 'a list \<Rightarrow> 'a list option" where
  "store_n m p vs =
     (if p + length vs \<le> length m
      then Some (take p m @ vs @ drop (p + length vs) m) else None)"

lemma load_Some [mem_simps]: "p < length m \<Longrightarrow> load m p = Some (m ! p)"
  by (simp add: load_def)

lemma load_eq_Some_iff: "load m p = Some v \<longleftrightarrow> p < length m \<and> m ! p = v"
  by (auto simp: load_def)

lemma load_eq_None_iff: "load m p = None \<longleftrightarrow> length m \<le> p"
  by (auto simp: load_def)

lemma store_Some [mem_simps]: "p < length m \<Longrightarrow> store m p v = Some (m[p := v])"
  by (simp add: store_def)

lemma store_eq_Some_iff: "store m p v = Some m' \<longleftrightarrow> p < length m \<and> m' = m[p := v]"
  by (auto simp: store_def)

lemma load_n_Some [mem_simps]:
  "p + n \<le> length m \<Longrightarrow> load_n m p n = Some (take n (drop p m))"
  by (simp add: load_n_def)

lemma load_n_eq_Some_iff:
  "load_n m p n = Some vs \<longleftrightarrow> p + n \<le> length m \<and> vs = take n (drop p m)"
  by (auto simp: load_n_def)

lemma length_load_n: "load_n m p n = Some vs \<Longrightarrow> length vs = n"
  by (auto simp: load_n_def split: if_splits)

lemma store_n_Some [mem_simps]:
  "p + length vs \<le> length m \<Longrightarrow>
   store_n m p vs = Some (take p m @ vs @ drop (p + length vs) m)"
  by (simp add: store_n_def)

lemma store_n_eq_Some_iff:
  "store_n m p vs = Some m' \<longleftrightarrow>
   p + length vs \<le> length m \<and> m' = take p m @ vs @ drop (p + length vs) m"
  by (auto simp: store_n_def)

lemma length_store_n: "store_n m p vs = Some m' \<Longrightarrow> length m' = length m"
  by (auto simp: store_n_def split: if_splits)

text \<open>A C \<open>for\<close> loop over the values \<open>xs\<close> of its counter, whose body may fault.\<close>

primrec for_each :: "('a \<Rightarrow> 's \<Rightarrow> 's option) \<Rightarrow> 'a list \<Rightarrow> 's \<Rightarrow> 's option" where
  "for_each f [] s = Some s"
| "for_each f (x # xs) s = do { s' \<leftarrow> f x s; for_each f xs s' }"

lemma for_each_append:
  "for_each f (xs @ ys) s = do { s' \<leftarrow> for_each f xs s; for_each f ys s' }"
  by (induction xs arbitrary: s) (auto split: Option.bind_splits)

lemma for_each_total:
  assumes "\<And>x s. x \<in> set xs \<Longrightarrow> P s \<Longrightarrow> \<exists>s'. f x s = Some s' \<and> P s'" and "P s"
  shows "\<exists>s'. for_each f xs s = Some s' \<and> P s'"
  using assms by (induction xs arbitrary: s) fastforce+

text \<open>
  Functions that may also return early: the outer option is undefined behaviour, the inner one
  the early return (a null result). \<open>bind_ret\<close> continues after a call that did not return
  null, \<open>for_ret\<close> is a \<open>for\<close> loop whose body can return from the function.
\<close>

definition bind_ret :: "'a option option \<Rightarrow> ('a \<Rightarrow> 'b option option) \<Rightarrow> 'b option option" where
  "bind_ret r f = do { x \<leftarrow> r; case x of None \<Rightarrow> Some None | Some y \<Rightarrow> f y }"

primrec for_ret :: "('a \<Rightarrow> 's \<Rightarrow> 's option option) \<Rightarrow> 'a list \<Rightarrow> 's \<Rightarrow> 's option option" where
  "for_ret f [] s = Some (Some s)"
| "for_ret f (x # xs) s = bind_ret (f x s) (for_ret f xs)"

lemma bind_ret_simps [simp]:
  "bind_ret None f = None" "bind_ret (Some None) f = Some None" "bind_ret (Some (Some x)) f = f x"
  by (simp_all add: bind_ret_def)

lemma bind_ret_eq_Some_Some:
  "bind_ret r f = Some (Some y) \<longleftrightarrow> (\<exists>x. r = Some (Some x) \<and> f x = Some (Some y))"
  by (auto simp: bind_ret_def split: Option.bind_splits option.splits)

lemma for_ret_append: "for_ret f (xs @ ys) s = bind_ret (for_ret f xs s) (for_ret f ys)"
  by (induction xs arbitrary: s)
    (auto simp: bind_ret_def split: Option.bind_splits option.splits)

text \<open>A loop that keeps an invariant does not fault; and every result satisfies it.\<close>

lemma for_ret_total:
  assumes "\<And>x s. x \<in> set xs \<Longrightarrow> P s \<Longrightarrow> \<exists>r. f x s = Some r \<and> (\<forall>s'. r = Some s' \<longrightarrow> P s')" and "P s"
  shows "\<exists>r. for_ret f xs s = Some r \<and> (\<forall>s'. r = Some s' \<longrightarrow> P s')"
  using assms
proof (induction xs arbitrary: s)
  case Nil
  then show ?case by simp
next
  case (Cons x xs)
  obtain r where "f x s = Some r" "\<And>s'. r = Some s' \<Longrightarrow> P s'"
    using Cons.prems(1) [of x s] Cons.prems(2) by auto
  with Cons.IH Cons.prems(1) show ?case by (cases r) auto
qed

lemma for_ret_inv:
  assumes "for_ret f xs s = Some (Some s')"
    and "\<And>ys x zs s s'. xs = ys @ x # zs \<Longrightarrow> P ys s \<Longrightarrow> f x s = Some (Some s') \<Longrightarrow> P (ys @ [x]) s'"
    and "P [] s"
  shows "P xs s'"
proof -
  have "for_ret f zs s = Some (Some s') \<Longrightarrow> xs = ys @ zs \<Longrightarrow> P ys s \<Longrightarrow> P xs s'" for ys zs s
  proof (induction zs arbitrary: ys s)
    case Nil
    then show ?case by simp
  next
    case (Cons z zs)
    then obtain s1 where "f z s = Some (Some s1)" "for_ret f zs s1 = Some (Some s')"
      by (auto simp: bind_ret_eq_Some_Some)
    with Cons.IH [of s1 "ys @ [z]"] assms(2) Cons.prems show ?case by simp
  qed
  from this [of xs s "[]"] assms show ?thesis by simp
qed

text \<open>
  Loops with an exit: \<open>for_exit\<close> is a \<open>for\<close> loop whose body can leave with a value (\<open>Inl\<close>),
  \<open>repeat_step\<close> a \<open>for (;;)\<close> or \<open>while\<close> loop whose body either goes on with a new state
  (\<open>Inl\<close>) or leaves with a result (\<open>Inr\<close>). A \<open>repeat_step\<close> that never leaves is \<open>None\<close>;
  \<open>repeat_step_total\<close> proves that one does leave, by a measure.
\<close>

primrec for_exit :: "('a \<Rightarrow> 's \<Rightarrow> ('r + 's) option) \<Rightarrow> 'a list \<Rightarrow> 's \<Rightarrow> ('r + 's) option" where
  "for_exit f [] s = Some (Inr s)"
| "for_exit f (x # xs) s = do {
     r \<leftarrow> f x s;
     case r of Inl e \<Rightarrow> Some (Inl e) | Inr s' \<Rightarrow> for_exit f xs s'
   }"

partial_function (option) repeat_step :: "('s \<Rightarrow> ('s + 'r) option) \<Rightarrow> 's \<Rightarrow> 'r option" where
  "repeat_step f s = (case f s of
     None \<Rightarrow> None
   | Some r \<Rightarrow> (case r of Inl s' \<Rightarrow> repeat_step f s' | Inr x \<Rightarrow> Some x))"

declare repeat_step.simps [code]

lemma repeat_step_Inl: "f s = Some (Inl s') \<Longrightarrow> repeat_step f s = repeat_step f s'"
  by (subst repeat_step.simps) simp

lemma repeat_step_Inr: "f s = Some (Inr r) \<Longrightarrow> repeat_step f s = Some r"
  by (subst repeat_step.simps) simp

lemma repeat_step_total:
  fixes m :: "'s \<Rightarrow> nat"
  assumes step: "\<And>s. P s \<Longrightarrow> (\<exists>s'. f s = Some (Inl s') \<and> P s' \<and> m s' < m s) \<or> (\<exists>r. f s = Some (Inr r) \<and> Q r)"
    and "P s"
  shows "\<exists>r. repeat_step f s = Some r \<and> Q r"
  using assms(2)
proof (induction s rule: measure_induct_rule [where f = m])
  case (less s)
  from step [OF less.prems] show ?case
  proof
    assume "\<exists>s'. f s = Some (Inl s') \<and> P s' \<and> m s' < m s"
    then show ?thesis using less.IH repeat_step_Inl [of f s] by force
  qed (auto simp: repeat_step_Inr)
qed

lemma for_exit_total:
  assumes "\<And>x s. x \<in> set xs \<Longrightarrow> P s \<Longrightarrow>
      \<exists>r. f x s = Some r \<and> (case r of Inl e \<Rightarrow> Q e | Inr s' \<Rightarrow> P s')" and "P s"
  shows "\<exists>r. for_exit f xs s = Some r \<and> (case r of Inl e \<Rightarrow> Q e | Inr s' \<Rightarrow> P s')"
  using assms
proof (induction xs arbitrary: s)
  case Nil
  then show ?case by simp
next
  case (Cons x xs)
  obtain r where "f x s = Some r" "case r of Inl e \<Rightarrow> Q e | Inr s' \<Rightarrow> P s'"
    using Cons.prems(1) [of x s] Cons.prems(2) by auto
  with Cons.IH Cons.prems(1) show ?case by (cases r) auto
qed

lemma for_exit_prefix:
  assumes "\<And>ys x zs s. xs = ys @ x # zs \<Longrightarrow> P ys s \<Longrightarrow>
      \<exists>r. f x s = Some r \<and> (case r of Inl e \<Rightarrow> Q e | Inr s' \<Rightarrow> P (ys @ [x]) s')"
    and "P [] s"
  shows "\<exists>r. for_exit f xs s = Some r \<and> (case r of Inl e \<Rightarrow> Q e | Inr s' \<Rightarrow> P xs s')"
proof -
  have "xs = ys @ zs \<Longrightarrow> P ys s \<Longrightarrow>
      \<exists>r. for_exit f zs s = Some r \<and> (case r of Inl e \<Rightarrow> Q e | Inr s' \<Rightarrow> P xs s')" for ys zs s
  proof (induction zs arbitrary: ys s)
    case Nil
    then show ?case by simp
  next
    case (Cons z zs)
    obtain r where "f z s = Some r" "case r of Inl e \<Rightarrow> Q e | Inr s' \<Rightarrow> P (ys @ [z]) s'"
      using assms(1) [OF Cons.prems] by blast
    with Cons.IH [of "ys @ [z]"] Cons.prems(1) show ?case by (cases r) auto
  qed
  from this [of "[]" xs s] assms(2) show ?thesis by simp
qed

lemma store_n_total: "p + length vs \<le> length m \<Longrightarrow> \<exists>m'. store_n m p vs = Some m' \<and> length m' = length m"
  by (simp add: store_n_def)

section \<open>Lists\<close>

lemma take_list_update_beyond: "n \<le> i \<Longrightarrow> take n (xs[i := v]) = take n xs"
  by simp

lemma drop_list_update_before: "i < n \<Longrightarrow> drop n (xs[i := v]) = drop n xs"
  by simp

lemma take_Suc_list_update:
  "i < length xs \<Longrightarrow> take (Suc i) (xs[i := v]) = take i xs @ [v]"
  by (simp add: take_Suc_conv_app_nth)

section \<open>Linked lists\<close>

text \<open>The nodes \<open>ks\<close> of the array \<open>ns\<close>, in the order in which the link \<open>nxt\<close> visits them from \<open>p\<close>.\<close>

fun linked :: "('n \<Rightarrow> nat option) \<Rightarrow> 'n list \<Rightarrow> nat option \<Rightarrow> nat list \<Rightarrow> bool" where
  "linked nxt ns p [] \<longleftrightarrow> p = None"
| "linked nxt ns p (k # ks) \<longleftrightarrow> p = Some k \<and> k < length ns \<and> linked nxt ns (nxt (ns ! k)) ks"

lemma linked_upd: "k \<notin> set ks \<Longrightarrow> linked nxt (ns[k := n]) p ks = linked nxt ns p ks"
  by (induction ks arbitrary: p) auto

lemma linked_cong:
  "linked nxt ns p ks \<Longrightarrow> length ns \<le> length ns' \<Longrightarrow> (\<And>k. k \<in> set ks \<Longrightarrow> ns' ! k = ns ! k) \<Longrightarrow>
   linked nxt ns' p ks"
  by (induction ks arbitrary: p) auto

lemma linked_lengths: "linked nxt ns p ks \<Longrightarrow> k \<in> set ks \<Longrightarrow> k < length ns"
  by (induction ks arbitrary: p) auto

lemma linked_snoc:
  "linked nxt ns p (ks @ [t]) \<Longrightarrow> distinct (ks @ [t]) \<Longrightarrow> nxt n = Some k \<Longrightarrow> k \<notin> set (ks @ [t]) \<Longrightarrow>
   k < length ns \<Longrightarrow> nxt (ns ! k) = None \<Longrightarrow> linked nxt (ns[t := n]) p (ks @ [t, k])"
  by (induction ks arbitrary: p) auto

section \<open>Byte order\<close>

text \<open>The 16-, 32- and 64-bit readers and writers, least significant byte first.\<close>

definition le16_get :: "byte \<Rightarrow> byte \<Rightarrow> u16" where
  "le16_get b0 b1 = ucast b0 OR push_bit 8 (ucast b1)"

definition le32_get :: "byte \<Rightarrow> byte \<Rightarrow> byte \<Rightarrow> byte \<Rightarrow> u32" where
  "le32_get b0 b1 b2 b3 =
     ucast b0 OR push_bit 8 (ucast b1) OR push_bit 16 (ucast b2) OR push_bit 24 (ucast b3)"

definition byte_of :: "nat \<Rightarrow> 'a::len word \<Rightarrow> byte" where
  "byte_of i w = ucast (drop_bit (8 * i) w AND 0xff)"

definition le16_put :: "u16 \<Rightarrow> bytes" where
  "le16_put w = [byte_of 0 w, byte_of 1 w]"

definition le32_put :: "u32 \<Rightarrow> bytes" where
  "le32_put w = [byte_of 0 w, byte_of 1 w, byte_of 2 w, byte_of 3 w]"

definition le64_get :: "bytes \<Rightarrow> u64" where
  "le64_get bs = ucast (le32_get (bs ! 0) (bs ! 1) (bs ! 2) (bs ! 3)) OR
     push_bit 32 (ucast (le32_get (bs ! 4) (bs ! 5) (bs ! 6) (bs ! 7)))"

definition le64_put :: "u64 \<Rightarrow> bytes" where
  "le64_put w = [byte_of 0 w, byte_of 1 w, byte_of 2 w, byte_of 3 w,
     byte_of 4 w, byte_of 5 w, byte_of 6 w, byte_of 7 w]"

lemma length_le64_put [simp]: "length (le64_put w) = 8"
  by (simp add: le64_put_def)

lemma length_le16_put [simp]: "length (le16_put w) = 2"
  by (simp add: le16_put_def)

lemma length_le32_put [simp]: "length (le32_put w) = 4"
  by (simp add: le32_put_def)

lemma bit_byte_of [simp]:
  "bit (byte_of i w) n \<longleftrightarrow> n < 8 \<and> bit w (8 * i + n)"
proof -
  have "n < 8 \<Longrightarrow> bit (0xff :: 'a word) n \<longleftrightarrow> n < LENGTH('a)"
    using bit_mask_iff [where 'a = "'a word", of 8 n] by (auto simp: mask_eq_exp_minus_1)
  moreover have "bit w (8 * i + n) \<Longrightarrow> n < LENGTH('a)"
    using bit_imp_le_length [of w "8 * i + n"] by simp
  ultimately show ?thesis
    by (auto simp: byte_of_def bit_simps)
qed

lemma le16_get_put [codec_simps]: "le16_get (byte_of 0 w) (byte_of 1 w) = w"
  by (rule bit_word_eqI) (auto simp: le16_get_def bit_simps)

lemma le32_get_put [codec_simps]:
  "le32_get (byte_of 0 w) (byte_of 1 w) (byte_of 2 w) (byte_of 3 w) = w"
proof (rule bit_word_eqI)
  fix n assume "n < LENGTH(32)"
  then consider "n < 8" | "8 \<le> n" "n < 16" | "16 \<le> n" "n < 24" | "24 \<le> n" "n < 32"
    by fastforce
  then show "bit (le32_get (byte_of 0 w) (byte_of 1 w) (byte_of 2 w) (byte_of 3 w)) n = bit w n"
    by cases (auto simp: le32_get_def bit_simps)
qed

end
