(* ===== verification/Sproto_Unpack.thy ===== *)
theory Sproto_Unpack
  imports Sproto_Pack
begin

text \<open>
  Correctness of \<open>sproto_unpack\<close> (defined in \<^verbatim>\<open>Sproto_Pack\<close> beside the compressor): it is
  memory safe on every input, also a malformed one, reports the size the caller needs, and
  undoes \<open>sproto_pack\<close> up to the zero padding of the last segment. The properties of both
  functions are at the end.
\<close>

section \<open>The decompressor\<close>

subsection \<open>Memory safety on any input\<close>



lemma load_drop_Cons:
  "drop p m = x # xs \<Longrightarrow> load m p = Some x" "drop p m = x # y # xs \<Longrightarrow> load m (Suc p) = Some y"
proof -
  show "load m p = Some x" if "drop p m = x # xs" for x xs
    using that by (metis load_def nth_via_drop drop_eq_Nil leI list.distinct(1))
  from this [of y xs] show "drop p m = x # y # xs \<Longrightarrow> load m (Suc p) = Some y"
    by (metis load_def nth_via_drop drop_eq_Nil leI list.distinct(1) drop_Suc list.sel(3) tl_drop)
qed


lemma unpack_body_ff:
  assumes "load src (up_src s) = Some 0xff" "load src (up_src s + 1) = Some c"
  shows "unpack_body src s = (let n = (uint c + 1) * 8 in
     if up_srcsz s \<le> 1 \<or> up_srcsz s < n + 2 then Some (Inl (up_mem s))
     else do {
       m \<leftarrow> (if up_bufsz s \<ge> n then do {
               d \<leftarrow> load_n src (up_src s + 2) (nat n);
               store_n (up_mem s) (up_buffer s) d
             } else Some (up_mem s));
       Some (Inr (s\<lparr>up_srcsz := up_srcsz s - 1 - (n + 1), up_mem := m, up_bufsz := up_bufsz s - n,
                    up_buffer := up_buffer s + nat n, up_src := up_src s + 2 + nat n,
                    up_size := up_size s + n\<rparr>))
     })"
  using assms by (simp add: unpack_body_def Let_def add.commute)



subsection \<open>Undoing the compressor\<close>

text \<open>
  \<open>unpack_at src B L rest out s\<close>: the loop has produced \<open>out\<close> and the source still holds
  \<open>rest\<close>; as long as \<open>out\<close> fits into the \<open>B\<close> bytes of the destination it is there.
\<close>

definition unpack_at ::
  "bytes \<Rightarrow> int \<Rightarrow> nat \<Rightarrow> bytes \<Rightarrow> bytes \<Rightarrow> unpack_state \<Rightarrow> bool" where
  "unpack_at src B L rest out s \<longleftrightarrow>
     drop (up_src s) src = rest \<and> up_srcsz s = int (length rest) \<and>
     up_size s = int (length out) \<and> length (up_mem s) = L \<and>
     (if int (length out) \<le> B
      then up_buffer s = length out \<and> up_bufsz s = B - int (length out) \<and>
        take (length out) (up_mem s) = out
      else up_bufsz s \<le> 0)"

lemma unpack_at_put_byte:
  assumes "unpack_at src B L rest out s" "B \<le> int L"
  shows "\<exists>s'. put_byte v s = Some s' \<and> up_src s' = up_src s \<and> up_srcsz s' = up_srcsz s \<and>
    unpack_at src B L rest (out @ [v]) (s'\<lparr>up_size := up_size s + 1\<rparr>)"
proof (cases "int (length out) < B")
  case True
  with assms show ?thesis
    by (auto simp: put_byte_def unpack_at_def store_def take_Suc_conv_app_nth)
next
  case False
  then have "\<not> 0 < up_bufsz s" using assms by (auto simp: unpack_at_def split: if_splits)
  with False assms show ?thesis
    by (auto simp: put_byte_def unpack_at_def split: if_splits)
qed

lemma drop_bit_seg_mask:
  "drop_bit i (seg_mask seg) AND 1 \<noteq> 0 \<longleftrightarrow> i < 8 \<and> i < length seg \<and> seg ! i \<noteq> 0"
proof -
  have "drop_bit i (seg_mask seg) AND 1 \<noteq> 0 \<longleftrightarrow> bit (seg_mask seg) i"
    by (simp add: and_one_eq bit_iff_odd_drop_bit odd_iff_mod_2_eq_one)
  then show ?thesis by (simp add: bit_seg_mask)
qed

lemma unpack_bits_seg:
  assumes "length seg = 8" "B \<le> int L" "i \<le> 8"
    "unpack_at src B L (filter (\<lambda>b. b \<noteq> 0) (drop i seg) @ rest) out s"
  shows "\<exists>s'. unpack_bits src (seg_mask seg) [i..<8] s = Some (Inr s') \<and>
    unpack_at src B L rest (out @ drop i seg) s'"
  using assms(3,4)
proof (induction "8 - i" arbitrary: i out s)
  case 0
  with assms(1) show ?case by simp
next
  case (Suc k)
  then have i: "i < 8" by simp
  then have upt: "[i..<8] = i # [Suc i..<8]" by (simp add: upt_conv_Cons)
  have dr: "drop i seg = seg ! i # drop (Suc i) seg" using i assms(1) by (simp add: Cons_nth_drop_Suc)
  note at = Suc.prems(2)
  obtain s1 where s1: "put_byte (seg ! i) s = Some s1" "up_src s1 = up_src s" "up_srcsz s1 = up_srcsz s"
    "unpack_at src B L (filter (\<lambda>b. b \<noteq> 0) (drop i seg) @ rest) (out @ [seg ! i])
       (s1\<lparr>up_size := up_size s + 1\<rparr>)"
    using unpack_at_put_byte [OF at assms(2)] by blast
  define s2 where "s2 = (if seg ! i \<noteq> 0
    then s1\<lparr>up_src := up_src s + 1, up_srcsz := up_srcsz s - 1, up_size := up_size s + 1\<rparr>
    else s1\<lparr>up_size := up_size s + 1\<rparr>)"
  have at2: "unpack_at src B L (filter (\<lambda>b. b \<noteq> 0) (drop (Suc i) seg) @ rest) (out @ [seg ! i]) s2"
  proof (cases "seg ! i = 0")
    case False
    then have "drop (up_src s) src = seg ! i # filter (\<lambda>b. b \<noteq> 0) (drop (Suc i) seg) @ rest"
      using at dr by (simp add: unpack_at_def)
    then have "drop (Suc (up_src s)) src = filter (\<lambda>b. b \<noteq> 0) (drop (Suc i) seg) @ rest"
      by (metis drop_Suc list.sel(3) tl_drop)
    with False s1 dr at show ?thesis by (auto simp: unpack_at_def s2_def split: if_splits)
  qed (use s1 dr in \<open>auto simp: unpack_at_def s2_def split: if_splits\<close>)
  have ld: "load src (up_src s) = Some (seg ! i)" "0 < up_srcsz s" if "seg ! i \<noteq> 0"
  proof -
    have "drop (up_src s) src = seg ! i # filter (\<lambda>b. b \<noteq> 0) (drop (Suc i) seg) @ rest"
      using that at dr by (simp add: unpack_at_def)
    then show "load src (up_src s) = Some (seg ! i)"
      by (metis load_def length_drop list.size(3) nth_via_drop drop_eq_Nil leI list.distinct(1))
    show "0 < up_srcsz s" using that at dr by (simp add: unpack_at_def)
  qed
  have "unpack_bits src (seg_mask seg) [i..<8] s = unpack_bits src (seg_mask seg) [Suc i..<8] s2"
    using ld s1(1) i assms(1)
    by (cases "seg ! i = 0") (simp_all add: upt drop_bit_seg_mask s2_def del: upt_Suc)
  with Suc.hyps(1) [OF _ _ at2] Suc.hyps(2) i dr show ?case by (auto simp del: upt_Suc)
qed

lemma bit_ff: "bit (0xff :: byte) i \<longleftrightarrow> i < 8"
  using bit_mask_iff [where 'a = byte, of 8 i] by (auto simp: mask_eq_exp_minus_1)

lemma nz_full: "nz seg = length seg \<longleftrightarrow> (\<forall>i < length seg. seg ! i \<noteq> 0)"
proof
  assume "nz seg = length seg"
  then have "filter (\<lambda>b. b \<noteq> 0) seg = seg"
    by (metis filter_True length_filter_less nz_def less_irrefl)
  then show "\<forall>i < length seg. seg ! i \<noteq> 0"
    by (metis (mono_tags, lifting) filter_id_conv nth_mem)
next
  assume "\<forall>i < length seg. seg ! i \<noteq> 0"
  then have "\<forall>b \<in> set seg. b \<noteq> 0" by (metis in_set_conv_nth)
  then show "nz seg = length seg" by (simp add: nz_def)
qed

lemma seg_mask_full: "length seg = 8 \<Longrightarrow> seg_mask seg = 0xff \<longleftrightarrow> nz seg = 8"
proof -
  assume len: "length seg = 8"
  have "seg_mask seg = 0xff \<longleftrightarrow> (\<forall>i < 8. seg ! i \<noteq> 0)"
  proof
    assume "seg_mask seg = 0xff"
    then have "bit (seg_mask seg) i \<longleftrightarrow> i < 8" for i using bit_ff by metis
    then show "\<forall>i < 8. seg ! i \<noteq> 0" by (simp add: bit_seg_mask) blast
  next
    assume "\<forall>i < 8. seg ! i \<noteq> 0"
    then show "seg_mask seg = 0xff"
      by (intro bit_word_eqI) (simp only: bit_ff bit_seg_mask len, simp)
  qed
  with nz_full [of seg] len show ?thesis by simp
qed

lemma unpack_body_literal:
  assumes "length seg = 8" "nz seg \<noteq> 8" "B \<le> int L"
    "unpack_at src B L (lit_seg seg @ rest) out s"
  shows "\<exists>s'. unpack_body src s = Some (Inr s') \<and> unpack_at src B L rest (out @ seg) s'"
proof -
  let ?s = "s\<lparr>up_srcsz := up_srcsz s - 1, up_src := up_src s + 1\<rparr>"
  have d: "drop (up_src s) src = seg_mask seg # filter (\<lambda>b. b \<noteq> 0) seg @ rest"
    using assms(4) by (simp add: unpack_at_def lit_seg_def)
  then have h: "load src (up_src s) = Some (seg_mask seg)"
    by (metis load_def nth_via_drop drop_eq_Nil leI list.distinct(1))
  have "drop (Suc (up_src s)) src = filter (\<lambda>b. b \<noteq> 0) seg @ rest"
    using d by (metis drop_Suc list.sel(3) tl_drop)
  then have at: "unpack_at src B L (filter (\<lambda>b. b \<noteq> 0) (drop 0 seg) @ rest) out ?s"
    using assms(4) by (simp add: unpack_at_def lit_seg_def)
  have "unpack_body src s = unpack_bits src (seg_mask seg) [0..<8] ?s"
    using h assms(1,2) by (simp add: unpack_body_def Let_def seg_mask_full del: upt_Suc)
  then show ?thesis using unpack_bits_seg [OF assms(1,3) _ at] by simp
qed

lemma length_concat_8: "(\<And>g. g \<in> set gs \<Longrightarrow> length g = 8) \<Longrightarrow> length (concat gs) = 8 * length gs"
  by (induction gs) auto

lemma unpack_body_run:
  assumes "\<And>g. g \<in> set run \<Longrightarrow> length g = 8" "0 < length run" "length run \<le> 256" "B \<le> int L"
    "unpack_at src B L (ff_run run @ rest) out s"
  shows "\<exists>s'. unpack_body src s = Some (Inr s') \<and> unpack_at src B L rest (out @ concat run) s'"
proof -
  let ?c = "word_of_int (int (length run) - 1) :: byte" and ?p = "up_src s"
  define d where "d = concat run"
  have ld: "length d = 8 * length run"
    using assms(1) by (simp add: d_def length_concat_8)
  have "(int (length run) - 1) mod 2 ^ LENGTH(8) = int (length run) - 1"
    using assms(2,3) by (intro mod_pos_pos_trivial) auto
  then have n: "(uint ?c + 1) * 8 = 8 * int (length run)"
    unfolding uint_word_of_int by simp
  have dr: "drop ?p src = 0xff # ?c # d @ rest"
    using assms(5) by (simp add: unpack_at_def ff_run_def d_def)
  then have h: "load src ?p = Some 0xff" "load src (?p + 1) = Some ?c"
    by (auto simp: load_drop_Cons)
  have dr2: "drop (?p + 2) src = d @ rest"
    using dr by (metis add.commute drop_drop drop_Suc_Cons drop0 numeral_2_eq_2)
  have sz: "up_srcsz s = 2 + 8 * int (length run) + int (length rest)"
    using assms(5) ld by (simp add: unpack_at_def ff_run_def flip: d_def)
  have lns: "?p + 2 + length d \<le> length src"
    using arg_cong [OF dr2, of length] assms(2) ld by (simp del: length_greater_0_conv)
  have dr3: "drop (Suc (Suc (?p + 8 * length run))) src = rest" "nat (8 * int (length run)) = 8 * length run"
    using arg_cong [OF dr2, of "drop (length d)"] ld by (simp_all add: drop_drop add.commute)
  show ?thesis
  proof (cases "int (length out) + int (length d) \<le> B")
    case True
    then have s: "up_buffer s = length out" "up_bufsz s = B - int (length out)"
      "take (length out) (up_mem s) = out" "length (up_mem s) = L" "up_size s = int (length out)"
      using assms(5) by (auto simp: unpack_at_def split: if_splits)
    show ?thesis
      unfolding unpack_body_ff [OF h] Let_def n dr3(2) d_def [symmetric]
      using True s sz ld lns dr2 dr3(1) assms(2,4)
      by (auto simp: load_n_def store_n_def unpack_at_def add.commute drop_drop)
  next
    case False
    then have s: "up_bufsz s < int (length d)" "length (up_mem s) = L" "up_size s = int (length out)"
      using assms(2,5) ld
      by (auto simp: unpack_at_def simp del: length_greater_0_conv split: if_splits)
    show ?thesis
      unfolding unpack_body_ff [OF h] Let_def n dr3(2) d_def [symmetric]
      using False s sz ld lns dr2 dr3(1) assms(2)
      by (auto simp: unpack_at_def add.commute drop_drop)
  qed
qed

lemma run_of_prefix: "run_of ss @ drop (length (run_of ss)) ss = ss" "length (run_of ss) \<le> 255"
proof -
  have "take n (takeWhile P xs) @ drop (length (take n (takeWhile P xs))) xs = xs"
    for n P and xs :: "bytes list"
  proof -
    have "take n (takeWhile P xs) = take (length (take n (takeWhile P xs))) xs"
      by (metis append_eq_conv_conj append_take_drop_id append.assoc takeWhile_dropWhile_id)
    then show ?thesis by (metis append_take_drop_id)
  qed
  then show "run_of ss @ drop (length (run_of ss)) ss = ss" by (simp add: run_of_def)
  show "length (run_of ss) \<le> 255" by (simp add: run_of_def)
qed

lemma unpack_loop_encode:
  assumes "\<And>g. g \<in> set segs \<Longrightarrow> length g = 8" "B \<le> int L"
    "unpack_at src B L (encode_segs segs) out s"
  shows "\<exists>m. unpack_loop src s = Some (int (length out + 8 * length segs), m) \<and> length m = L \<and>
    (int (length out + 8 * length segs) \<le> B \<longrightarrow>
      take (length out + 8 * length segs) m = out @ concat segs)"
  using assms(1,3)
proof (induction segs arbitrary: out s rule: encode_segs.induct)
  case 1
  then show ?case
    by (subst unpack_loop.simps) (auto simp: unpack_at_def split: if_splits)
next
  case (2 g gs)
  have pos: "0 < up_srcsz s" using "2.prems"(2)
    by (auto simp: unpack_at_def ff_run_def lit_seg_def split: if_splits)
  have step: "unpack_loop src s = unpack_loop src s'" if "unpack_body src s = Some (Inr s')" for s'
    using that pos by (subst unpack_loop.simps) simp
  show ?case
  proof (cases "nz g = 8")
    case True
    let ?r = "run_of gs" and ?rest = "drop (length (run_of gs)) gs"
    have sub: "set ?r \<subseteq> set gs" "set ?rest \<subseteq> set gs"
      using run_of_prefix(1) [of gs] by (metis Un_upper1 set_append, simp add: set_drop_subset)
    have "unpack_at src B L (ff_run (g # ?r) @ encode_segs ?rest) out s"
      using "2.prems"(2) True by simp
    then obtain s' where s': "unpack_body src s = Some (Inr s')"
      "unpack_at src B L (encode_segs ?rest) (out @ concat (g # ?r)) s'"
      using unpack_body_run [of "g # ?r" B L src "encode_segs ?rest" out s] "2.prems"(1) sub
        run_of_prefix(2) [of gs] assms(2) by auto
    have len: "length (concat (g # ?r)) = 8 * (1 + length ?r)"
      using "2.prems"(1) sub length_concat_8 [of "g # ?r"] by auto
    have tot: "length ?r + length ?rest = length gs"
      by (metis length_append run_of_prefix(1))
    have cc: "concat ?r @ concat ?rest = concat gs"
      by (metis concat_append run_of_prefix(1))
    have ih: "\<exists>m. unpack_loop src s' =
        Some (int (length (out @ concat (g # ?r)) + 8 * length ?rest), m) \<and> length m = L \<and>
        (int (length (out @ concat (g # ?r)) + 8 * length ?rest) \<le> B \<longrightarrow>
          take (length (out @ concat (g # ?r)) + 8 * length ?rest) m =
            (out @ concat (g # ?r)) @ concat ?rest)"
      using "2.IH"(1) [OF True _ s'(2)] "2.prems"(1) sub by auto
    have l: "length (out @ concat (g # ?r)) + 8 * length ?rest = length out + 8 * length (g # gs)"
      using len tot by simp
    have c: "(out @ concat (g # ?r)) @ concat ?rest = out @ concat (g # gs)"
      using cc by simp
    show ?thesis unfolding step [OF s'(1)] l [symmetric] c [symmetric] by (fact ih)
  next
    case False
    then have "unpack_at src B L (lit_seg g @ encode_segs gs) out s"
      using "2.prems"(2) by simp
    then obtain s' where s': "unpack_body src s = Some (Inr s')"
      "unpack_at src B L (encode_segs gs) (out @ g) s'"
      using unpack_body_literal [OF _ False assms(2)] "2.prems"(1) by (meson list.set_intros(1))
    show ?thesis
      using "2.IH"(2) [OF False _ s'(2)] "2.prems"(1) step [OF s'(1)] by (auto simp: add_ac)
  qed
qed

lemma sproto_unpack_packed:
  assumes "B \<le> int (length buf)"
  shows "\<exists>buf'. sproto_unpack (packed src) (int (length (packed src))) buf B =
      Some (int (8 * length (segments src)), buf') \<and> length buf' = length buf \<and>
    (int (8 * length (segments src)) \<le> B \<longrightarrow>
      take (8 * length (segments src)) buf' = concat (segments src))"
proof -
  have "unpack_at (packed src) B (length buf) (encode_segs (segments src)) []
      \<lparr>up_srcsz = int (length (packed src)), up_src = 0, up_buffer = 0, up_bufsz = B, up_size = 0,
        up_mem = buf\<rparr>"
    by (simp add: unpack_at_def packed_def)
  moreover have "length g = 8" if "g \<in> set (segments src)" for g
    using that by (auto simp: segments_def)
  ultimately show ?thesis
    using unpack_loop_encode [of "segments src" B "length buf" "packed src" "[]"] assms
    by (simp add: sproto_unpack_def)
qed

lemma concat_segments:
  "concat (segments src) = src @ replicate (8 * length (segments src) - length src) 0"
  "length src \<le> 8 * length (segments src)" "8 * length (segments src) < length src + 8"
proof -
  let ?m = "(length src + 7) div 8"
  show le: "length src \<le> 8 * length (segments src)" "8 * length (segments src) < length src + 8"
    by (simp_all add: segments_def)
  have "concat (segments src) = map (byte_at src) [0..<8 * ?m]"
    using concat_seg_at [of src 0 ?m] by (simp add: segments_def)
  also have "[0..<8 * ?m] = [0..<length src] @ [length src..<length src + (8 * ?m - length src)]"
    using le(1) upt_add_eq_append [of 0 "length src" "8 * ?m - length src"]
    by (simp add: segments_def)
  also have "map (byte_at src) \<dots> = src @ replicate (8 * ?m - length src) 0"
    unfolding map_append map_byte_at_beyond [OF order.refl]
    by (auto simp: byte_at_def intro!: nth_equalityI)
  finally show "concat (segments src) = src @ replicate (8 * length (segments src) - length src) 0"
    by (simp add: segments_def)
qed

section \<open>Properties\<close>

text \<open>
  C4. \<open>sproto_pack\<close> never reads or writes outside the buffers it is given, returns the size
  of the packed message whatever the room in the destination is, and when that size fits leaves
  exactly the packed format there.
\<close>

theorem sproto_pack_computes_format:
  assumes "bufsz \<le> int (length buf)"
  shows "\<exists>buf'. sproto_pack src (int (length src)) buf bufsz =
      Some (int (length (packed src)), buf') \<and> length buf' = length buf \<and>
    (int (length (packed src)) \<le> bufsz \<longrightarrow> take (length (packed src)) buf' = packed src)"
  using assms by (rule sproto_pack_correct)

theorem sproto_pack_computes_format_witness:
  "packed [1, 0, 2] = [5, 1, 2] \<and> (\<exists>buf'. sproto_pack [1, 0, 2] 3 (replicate 16 0) 16 = Some (3, buf') \<and>
     length buf' = 16 \<and> take 3 buf' = [5, 1, 2])"
proof -
  have p: "packed [1, 0, 2] = [5, 1, 2]" by code_simp
  show ?thesis
    using sproto_pack_computes_format [of 16 "replicate 16 0" "[1, 0, 2]"] by (auto simp: p numeral_3_eq_3)
qed



text \<open>
  C6. Unpacking what \<open>sproto_pack\<close> produced, into a destination that is large enough, gives
  the source back, followed by fewer than eight zero bytes.
\<close>

theorem pack_unpack_roundtrip:
  assumes pk: "sproto_pack src (int (length src)) buf (int (length buf)) = Some (n, buf')"
    and fits: "n \<le> int (length buf)" and room: "length src + 7 \<le> length dst"
  shows "\<exists>k dst'. sproto_unpack (take (nat n) buf') n dst (int (length dst)) =
      Some (int (length src + k), dst') \<and> k < 8 \<and>
    take (length src + k) dst' = src @ replicate k 0"
proof -
  have n: "n = int (length (packed src))" "take (nat n) buf' = packed src"
    using sproto_pack_correct [of "int (length buf)" buf src] pk fits by auto
  note C = concat_segments [of src]
  obtain k where k: "8 * length (segments src) = length src + k" "k < 8"
    using C(2,3) by (metis add_less_cancel_left le_iff_add)
  have "int (8 * length (segments src)) \<le> int (length dst)" using k room by linarith
  with sproto_unpack_packed [of "int (length dst)" dst src] obtain dst' where
    "sproto_unpack (packed src) n dst (int (length dst)) = Some (int (8 * length (segments src)), dst')"
    "take (8 * length (segments src)) dst' = concat (segments src)"
    unfolding n(1) by blast
  then show ?thesis using k(2) by (auto simp: n(2) C(1) k(1))
qed

theorem pack_unpack_roundtrip_witness:
  "\<exists>k dst'. sproto_unpack [5, 1, 2] 3 (replicate 10 0) 10 = Some (int (3 + k), dst') \<and> k < 8 \<and>
     take (3 + k) dst' = [1, 0, 2] @ replicate k 0"
proof -
  have "sproto_pack [1, 0, 2] (int (length [1, 0, 2 :: byte])) [0, 0, 0, 0] (int (length [0, 0, 0, 0 :: byte])) =
      Some (3, [5, 1, 2, 0])"
    by code_simp
  from pack_unpack_roundtrip [OF this, of "replicate 10 0"] show ?thesis
    by (simp add: numeral_3_eq_3)
qed

end
