(* ===== verification/Sproto_Schema.thy ===== *)
theory Sproto_Schema
  imports Fengnet_Prelude
begin

text \<open>
  The schema half of \<^verbatim>\<open>lualib-src/sproto/sproto.c\<close>: the pool allocator, the importer that turns
  a schema bundle into the table of types and protocols (\<open>sproto_create\<close>), and the queries on
  that table.

  The bundle is a byte list and a stream pointer an offset into it. A pointer to a type is its
  index in \<open>s->type\<close>. A C string is the list of the bytes that were copied, without the final
  zero. \<open>None\<close> is undefined behaviour (an access outside the bundle, a write through a null
  pointer, signed overflow) or a loop that does not end; \<open>Some None\<close> is the code's
  \<open>return NULL\<close>.
\<close>

section \<open>Data\<close>

record field =
  f_tag :: int
  f_type :: int
  f_name :: "bytes option"
  f_st :: "nat option"
  f_key :: int
  f_map :: int
  f_extra :: int

record sproto_type =
  t_name :: "bytes option"
  t_n :: int
  t_base :: int
  t_maxn :: int
  t_f :: "field list"

record protocol =
  pr_name :: "bytes option"
  pr_tag :: int
  pr_confirm :: int
  pr_request :: "nat option"
  pr_response :: "nat option"

text \<open>The chunks of a pool, the newest first, by size; a chunk is named by its age.\<close>

record pool =
  p_chunks :: "nat list"
  p_current :: "nat option"
  p_used :: nat

record sproto =
  s_memory :: pool
  s_type_n :: int
  s_protocol_n :: int
  s_type :: "sproto_type list"
  s_proto :: "protocol list"

definition CHUNK_SIZE :: nat where "CHUNK_SIZE = 1000"
definition SIZEOF_LENGTH :: nat where "SIZEOF_LENGTH = 4"
definition SIZEOF_HEADER :: nat where "SIZEOF_HEADER = 2"
definition SIZEOF_FIELD :: nat where "SIZEOF_FIELD = 2"
definition SPROTO_TINTEGER :: int where "SPROTO_TINTEGER = 0"
definition SPROTO_TBOOLEAN :: int where "SPROTO_TBOOLEAN = 1"
definition SPROTO_TSTRING :: int where "SPROTO_TSTRING = 2"
definition SPROTO_TDOUBLE :: int where "SPROTO_TDOUBLE = 3"
definition SPROTO_TSTRUCT :: int where "SPROTO_TSTRUCT = 4"
definition SPROTO_TARRAY :: int where "SPROTO_TARRAY = 0x80"

lemmas sproto_consts = SIZEOF_LENGTH_def SIZEOF_HEADER_def SIZEOF_FIELD_def SPROTO_TINTEGER_def
  SPROTO_TBOOLEAN_def SPROTO_TSTRING_def SPROTO_TDOUBLE_def SPROTO_TSTRUCT_def SPROTO_TARRAY_def

text \<open>The sizes of the C structures on a 64-bit machine.\<close>

definition sizeof_field :: nat where "sizeof_field = 40"
definition sizeof_sproto_type :: nat where "sizeof_sproto_type = 32"
definition sizeof_protocol :: nat where "sizeof_protocol = 32"
definition sizeof_sproto :: nat where "sizeof_sproto = 48"

section \<open>The pool\<close>

text \<open>
  \<open>mal k sz\<close> says whether the allocation of \<open>sz\<close> bytes by \<open>malloc\<close> succeeds when \<open>k\<close> chunks
  are allocated. A pointer is a chunk and an offset into it.
\<close>

type_synonym malloc = "nat \<Rightarrow> nat \<Rightarrow> bool"
type_synonym pool_ptr = "nat \<times> nat"

definition pool_init :: pool where
  "pool_init = \<lparr>p_chunks = [], p_current = None, p_used = 0\<rparr>"

definition pool_release :: "pool \<Rightarrow> pool" where
  "pool_release p = p\<lparr>p_chunks := []\<rparr>"

definition pool_newchunk :: "malloc \<Rightarrow> pool \<Rightarrow> nat \<Rightarrow> pool_ptr option \<times> pool" where
  "pool_newchunk mal p sz =
     (if mal (length (p_chunks p)) sz
      then (Some (length (p_chunks p), 0), p\<lparr>p_chunks := sz # p_chunks p\<rparr>)
      else (None, p))"

definition pool_alloc_current :: "malloc \<Rightarrow> pool \<Rightarrow> nat \<Rightarrow> pool_ptr option \<times> pool" where
  "pool_alloc_current mal p sz =
     (case p_current p of
        None \<Rightarrow> (None, p)
      | Some c \<Rightarrow>
          if sz + p_used p \<le> CHUNK_SIZE then (Some (c, p_used p), p\<lparr>p_used := p_used p + sz\<rparr>)
          else if sz \<ge> p_used p then pool_newchunk mal p sz
          else (let (ret, p1) = pool_newchunk mal p CHUNK_SIZE;
                    hdr = length (p_chunks p1) - 1
                in (ret, p1\<lparr>p_current := Some hdr, p_used := sz\<rparr>)))"

definition pool_alloc :: "malloc \<Rightarrow> pool \<Rightarrow> nat \<Rightarrow> pool_ptr option \<times> pool" where
  "pool_alloc mal p sz =
     (let sz = (sz + 7) div 8 * 8 in
      if sz \<ge> CHUNK_SIZE then pool_newchunk mal p sz
      else if p_current p = None then
        (case pool_newchunk mal p CHUNK_SIZE of
           (None, p1) \<Rightarrow> (None, p1)
         | (Some ptr, p1) \<Rightarrow> pool_alloc_current mal (p1\<lparr>p_current := Some (length (p_chunks p1) - 1)\<rparr>) sz)
      else pool_alloc_current mal p sz)"

section \<open>Reading the bundle\<close>

definition toword :: "bytes \<Rightarrow> nat \<Rightarrow> int option" where
  "toword m p = do { b0 \<leftarrow> load m p; b1 \<leftarrow> load m (p + 1); Some (uint (le16_get b0 b1)) }"

definition todword :: "bytes \<Rightarrow> nat \<Rightarrow> u32 option" where
  "todword m p = do {
     b0 \<leftarrow> load m p; b1 \<leftarrow> load m (p + 1); b2 \<leftarrow> load m (p + 2); b3 \<leftarrow> load m (p + 3);
     Some (le32_get b0 b1 b2 b3)
   }"

text \<open>The loop need not end: \<open>nsz += SIZEOF_LENGTH\<close> wraps to 0 for an element of size 0xfffffffc.\<close>

partial_function (option) count_array_loop :: "bytes \<Rightarrow> nat \<Rightarrow> u32 \<Rightarrow> int \<Rightarrow> int option" where
  "count_array_loop m stream len n =
     (if len = 0 then Some n
      else if len < 4 then Some (-1)
      else do {
        nsz \<leftarrow> todword m stream;
        if nsz + 4 > len then Some (-1)
        else count_array_loop m (stream + unat (nsz + 4)) (len - (nsz + 4)) (n + 1)
      })"

declare count_array_loop.simps [code]

definition count_array :: "bytes \<Rightarrow> nat \<Rightarrow> int option" where
  "count_array m stream = do {
     len \<leftarrow> todword m stream;
     count_array_loop m (stream + SIZEOF_LENGTH) len 0
   }"

text \<open>
  The loop body of \<open>struct_field\<close> on the stream pointer and the \<open>size_t\<close> left;
  \<open>SIZEOF_LENGTH + dsz\<close> is computed in 32 bits.
\<close>

definition struct_field_body ::
  "bytes \<Rightarrow> nat \<Rightarrow> nat \<Rightarrow> nat \<times> nat \<Rightarrow> (nat \<times> nat) option option" where
  "struct_field_body m fld i s = (case s of (stream, sz) \<Rightarrow> do {
     value \<leftarrow> toword m (fld + i * SIZEOF_FIELD);
     if value \<noteq> 0 then Some (Some (stream, sz))
     else if sz < SIZEOF_LENGTH then Some None
     else do {
       dsz \<leftarrow> todword m stream;
       let step = unat (4 + dsz);
       if sz < step then Some None else Some (Some (stream + step, sz - step))
     }
   })"

definition struct_field :: "bytes \<Rightarrow> nat \<Rightarrow> nat \<Rightarrow> int option" where
  "struct_field m stream sz =
     (if sz < SIZEOF_LENGTH then Some (-1)
      else do {
        fn \<leftarrow> toword m stream;
        let header = SIZEOF_HEADER + SIZEOF_FIELD * nat fn;
        if sz < header then Some (-1)
        else do {
          r \<leftarrow> for_ret (struct_field_body m (stream + SIZEOF_HEADER)) [0..<nat fn]
                 (stream + header, sz - header);
          case r of None \<Rightarrow> Some (-1) | Some _ \<Rightarrow> Some fn
        }
      })"

section \<open>The importer\<close>

text \<open>\<open>sz + 1\<close> is computed in 32 bits: the copy overflows the block when it wraps to 0.\<close>

definition import_string :: "malloc \<Rightarrow> sproto \<Rightarrow> bytes \<Rightarrow> nat \<Rightarrow> (bytes \<times> sproto) option" where
  "import_string mal s m stream = do {
     sz \<leftarrow> todword m stream;
     (case pool_alloc mal (s_memory s) (unat (sz + 1)) of
        (None, _) \<Rightarrow> None
      | (Some _, mem) \<Rightarrow> do {
          buffer \<leftarrow> load_n m (stream + SIZEOF_LENGTH) (unat sz);
          if sz + 1 = 0 then None else Some (buffer, s\<lparr>s_memory := mem\<rparr>)
        })
   }"

fun calc_pow :: "int \<Rightarrow> nat \<Rightarrow> int option" where
  "calc_pow base n =
     (if n = 0 then Some 1
      else do {
        b \<leftarrow> c_int (base * base);
        r \<leftarrow> calc_pow b (n div 2);
        if odd n then c_int (r * base) else Some r
      })"

declare calc_pow.simps [simp del]

definition empty_field :: field where
  "empty_field = \<lparr>f_tag = -1, f_type = -1, f_name = None, f_st = None, f_key = -1, f_map = -1,
     f_extra = 0\<rparr>"

text \<open>The \<open>switch\<close> of \<open>import_field\<close>, on the field and the \<open>array\<close> flag.\<close>

definition import_field_case ::
  "sproto \<Rightarrow> int \<Rightarrow> int \<Rightarrow> field \<times> int \<Rightarrow> (field \<times> int) option option" where
  "import_field_case s tag value fa = (case fa of (f, arr) \<Rightarrow>
     if tag = 1 then
       if value \<ge> SPROTO_TSTRUCT then Some None else Some (Some (f\<lparr>f_type := value\<rparr>, arr))
     else if tag = 2 then
       if f_type f = SPROTO_TINTEGER then do {
         e \<leftarrow> calc_pow 10 (nat value); Some (Some (f\<lparr>f_extra := e\<rparr>, arr))
       }
       else if f_type f = SPROTO_TSTRING then Some (Some (f\<lparr>f_extra := value\<rparr>, arr))
       else if value \<ge> s_type_n s then Some None
       else if f_type f \<ge> 0 then Some None
       else Some (Some (f\<lparr>f_type := SPROTO_TSTRUCT, f_st := Some (nat value)\<rparr>, arr))
     else if tag = 3 then Some (Some (f\<lparr>f_tag := value\<rparr>, arr))
     else if tag = 4 then Some (Some (f, if value \<noteq> 0 then SPROTO_TARRAY else arr))
     else if tag = 5 then Some (Some (f\<lparr>f_key := value\<rparr>, arr))
     else if tag = 6 then Some (Some (if value \<noteq> 0 then f\<lparr>f_map := 1\<rparr> else f, arr))
     else Some None)"

definition import_field_body ::
  "malloc \<Rightarrow> bytes \<Rightarrow> nat \<Rightarrow> nat \<Rightarrow> nat \<Rightarrow> (field \<times> int) \<times> int \<times> sproto
   \<Rightarrow> ((field \<times> int) \<times> int \<times> sproto) option option" where
  "import_field_body mal m stream fn i st = (case st of ((f, arr), tag, s) \<Rightarrow> do {
     let tag = tag + 1;
     value \<leftarrow> toword m (stream + SIZEOF_FIELD * i);
     if odd value then Some (Some ((f, arr), tag + value div 2, s))
     else if tag = 0 then
       if value \<noteq> 0 then Some None
       else do {
         (str, s1) \<leftarrow> import_string mal s m (stream + fn * SIZEOF_FIELD);
         Some (Some ((f\<lparr>f_name := Some str\<rparr>, arr), tag, s1))
       }
     else if value = 0 then Some None
     else bind_ret (import_field_case s tag (value div 2 - 1) (f, arr))
       (\<lambda>fa. Some (Some (fa, tag, s)))
   })"

text \<open>The result is the stream after the field, the field and the pool.\<close>

definition import_field ::
  "malloc \<Rightarrow> sproto \<Rightarrow> bytes \<Rightarrow> nat \<Rightarrow> (nat \<times> field \<times> sproto) option option" where
  "import_field mal s m stream = do {
     sz \<leftarrow> todword m stream;
     let stream = stream + SIZEOF_LENGTH;
     let result = stream + unat sz;
     fn \<leftarrow> struct_field m stream (unat sz);
     if fn < 0 then Some None
     else do {
       let stream = stream + SIZEOF_HEADER;
       bind_ret (for_ret (import_field_body mal m stream (nat fn)) [0..<nat fn]
                   ((empty_field, 0), -1, s))
         (\<lambda>((f, arr), _, s1).
            if f_tag f < 0 \<or> f_type f < 0 \<or> f_name f = None then Some None
            else Some (Some (result, f\<lparr>f_type := f_type f OR arr\<rparr>, s1)))
     }
   }"

definition empty_type :: sproto_type where
  "empty_type = \<lparr>t_name = None, t_n = 0, t_base = 0, t_maxn = 0, t_f = []\<rparr>"

text \<open>The loop over the fields of a type: \<open>stream\<close>, the fields so far, \<open>maxn\<close>, \<open>last\<close>, the pool.\<close>

type_synonym fields_state = "nat \<times> field list \<times> int \<times> int \<times> sproto"

definition import_fields_body ::
  "malloc \<Rightarrow> bytes \<Rightarrow> nat \<Rightarrow> fields_state \<Rightarrow> fields_state option option" where
  "import_fields_body mal m i st = (case st of (stream, fs, maxn, lst, s) \<Rightarrow>
     bind_ret (import_field mal s m stream) (\<lambda>(stream1, f, s1).
       if f_tag f \<le> lst then Some None
       else Some (Some (stream1, fs @ [f], if f_tag f > lst + 1 then maxn + 1 else maxn, f_tag f, s1))))"

definition type_base :: "int \<Rightarrow> field \<Rightarrow> field \<Rightarrow> int" where
  "type_base n f0 fl = (if f_tag fl - f_tag f0 + 1 \<noteq> n then -1 else f_tag f0)"

definition import_type_fields ::
  "malloc \<Rightarrow> sproto \<Rightarrow> sproto_type \<Rightarrow> bytes \<Rightarrow> nat \<Rightarrow> (sproto_type \<times> sproto) option option" where
  "import_type_fields mal s t m stream = do {
     n \<leftarrow> count_array m stream;
     if n < 0 then Some None
     else do {
       let (ptr, mem) = pool_alloc mal (s_memory s) (sizeof_field * nat n);
       if ptr = None then None
       else bind_ret (for_ret (import_fields_body mal m) [0..<nat n]
                        (stream + SIZEOF_LENGTH, [], n, -1, s\<lparr>s_memory := mem\<rparr>))
         (\<lambda>(_, fs, maxn, _, s1). do {
            f0 \<leftarrow> load fs 0;
            fl \<leftarrow> load fs (nat n - 1);
            Some (Some (t\<lparr>t_n := n, t_f := fs, t_maxn := maxn, t_base := type_base n f0 fl\<rparr>, s1))
          })
     }
   }"

definition import_type ::
  "malloc \<Rightarrow> sproto \<Rightarrow> bytes \<Rightarrow> nat \<Rightarrow> (nat \<times> sproto_type \<times> sproto) option option" where
  "import_type mal s m stream = do {
     sz \<leftarrow> todword m stream;
     let stream = stream + SIZEOF_LENGTH;
     let result = stream + unat sz;
     fn \<leftarrow> struct_field m stream (unat sz);
     if fn \<le> 0 \<or> fn > 2 then Some None
     else bind_ret (for_ret (\<lambda>i u. do {
              v \<leftarrow> toword m (stream + SIZEOF_HEADER + i * SIZEOF_FIELD);
              if v \<noteq> 0 then Some None else Some (Some u)
            }) [0..<nat fn] ())
       (\<lambda>_. do {
          let stream = stream + (SIZEOF_HEADER + nat fn * SIZEOF_FIELD);
          (str, s1) \<leftarrow> import_string mal s m stream;
          let t = empty_type\<lparr>t_name := Some str\<rparr>;
          if fn = 1 then Some (Some (result, t, s1))
          else do {
            d \<leftarrow> todword m stream;
            bind_ret (import_type_fields mal s1 t m (stream + unat (d + 4)))
              (\<lambda>(t1, s2). Some (Some (result, t1, s2)))
          }
        })
   }"

definition empty_protocol :: protocol where
  "empty_protocol = \<lparr>pr_name = None, pr_tag = -1, pr_confirm = 0, pr_request = None,
     pr_response = None\<rparr>"

text \<open>The loop of \<open>import_protocol\<close> switches on the position \<open>i\<close>; its variable \<open>tag\<close> is never read.\<close>

definition import_protocol_body ::
  "malloc \<Rightarrow> bytes \<Rightarrow> nat \<Rightarrow> nat \<Rightarrow> nat \<Rightarrow> protocol \<times> sproto \<Rightarrow> (protocol \<times> sproto) option option" where
  "import_protocol_body mal m stream fn i ps = (case ps of (p, s) \<Rightarrow> do {
     value \<leftarrow> toword m (stream + SIZEOF_FIELD * i);
     if odd value then Some (Some (p, s))
     else do {
       let value = value div 2 - 1;
       if i = 0 then
         if value \<noteq> -1 then Some None
         else do {
           (str, s1) \<leftarrow> import_string mal s m (stream + SIZEOF_FIELD * fn);
           Some (Some (p\<lparr>pr_name := Some str\<rparr>, s1))
         }
       else if i = 1 then
         if value < 0 then Some None else Some (Some (p\<lparr>pr_tag := value\<rparr>, s))
       else if i = 2 then
         if value < 0 \<or> value \<ge> s_type_n s then Some None
         else Some (Some (p\<lparr>pr_request := Some (nat value)\<rparr>, s))
       else if i = 3 then
         if value < 0 \<or> value \<ge> s_type_n s then Some None
         else Some (Some (p\<lparr>pr_response := Some (nat value)\<rparr>, s))
       else if i = 4 then Some (Some (p\<lparr>pr_confirm := value\<rparr>, s))
       else Some None
     }
   })"

definition import_protocol ::
  "malloc \<Rightarrow> sproto \<Rightarrow> bytes \<Rightarrow> nat \<Rightarrow> (nat \<times> protocol \<times> sproto) option option" where
  "import_protocol mal s m stream = do {
     sz \<leftarrow> todword m stream;
     let stream = stream + SIZEOF_LENGTH;
     let result = stream + unat sz;
     fn \<leftarrow> struct_field m stream (unat sz);
     let stream = stream + SIZEOF_HEADER;
     bind_ret (for_ret (import_protocol_body mal m stream (nat fn)) [0..<nat fn] (empty_protocol, s))
       (\<lambda>(p, s1).
          if pr_name p = None \<or> pr_tag p < 0 then Some None else Some (Some (result, p, s1)))
   }"

text \<open>
  The two arrays of the bundle: \<open>content\<close>, \<open>typedata\<close>, \<open>protocoldata\<close> and the state. A failing
  \<open>pool_alloc\<close> leaves a null array, which the import loops then write through.
\<close>

definition bundle_body ::
  "malloc \<Rightarrow> bytes \<Rightarrow> nat \<Rightarrow> nat \<Rightarrow> nat \<times> nat \<times> nat \<times> sproto
   \<Rightarrow> (nat \<times> nat \<times> nat \<times> sproto) option option" where
  "bundle_body mal m stream i st = (case st of (content, typedata, protocoldata, s) \<Rightarrow> do {
     value \<leftarrow> toword m (stream + i * SIZEOF_FIELD);
     if value \<noteq> 0 then Some None
     else do {
       n \<leftarrow> count_array m content;
       if n < 0 then Some None
       else do {
         let (ptr, mem) = pool_alloc mal (s_memory s)
               (nat n * (if i = 0 then sizeof_sproto_type else sizeof_protocol));
         d \<leftarrow> todword m content;
         let content1 = content + unat (d + 4);
         if ptr = None \<and> n > 0 then None
         else if i = 0
         then Some (Some (content1, content + SIZEOF_LENGTH, protocoldata,
                s\<lparr>s_memory := mem, s_type_n := n\<rparr>))
         else Some (Some (content1, typedata, content + SIZEOF_LENGTH,
                s\<lparr>s_memory := mem, s_protocol_n := n\<rparr>))
       }
     }
   })"

definition create_from_bundle ::
  "malloc \<Rightarrow> sproto \<Rightarrow> bytes \<Rightarrow> nat \<Rightarrow> sproto option option" where
  "create_from_bundle mal s m sz = do {
     fn \<leftarrow> struct_field m 0 sz;
     if fn < 0 \<or> fn > 2 then Some None
     else bind_ret (for_ret (bundle_body mal m SIZEOF_HEADER) [0..<nat fn]
                      (SIZEOF_HEADER + nat fn * SIZEOF_FIELD, 0, 0, s))
       (\<lambda>(_, typedata, protocoldata, s1).
          bind_ret (for_ret (\<lambda>i (p, s). bind_ret (import_type mal s m p)
              (\<lambda>(p1, t, s1). Some (Some (p1, s1\<lparr>s_type := s_type s1 @ [t]\<rparr>))))
              [0..<nat (s_type_n s1)] (typedata, s1))
            (\<lambda>(_, s2).
               bind_ret (for_ret (\<lambda>i (p, s). bind_ret (import_protocol mal s m p)
                   (\<lambda>(p1, t, s1). Some (Some (p1, s1\<lparr>s_proto := s_proto s1 @ [t]\<rparr>))))
                   [0..<nat (s_protocol_n s2)] (protocoldata, s2))
                 (\<lambda>(_, s3). Some (Some s3))))
   }"

definition sproto_create :: "malloc \<Rightarrow> bytes \<Rightarrow> nat \<Rightarrow> sproto option option" where
  "sproto_create mal m sz =
     (case pool_alloc mal pool_init sizeof_sproto of
        (None, _) \<Rightarrow> Some None
      | (Some _, mem) \<Rightarrow>
          create_from_bundle mal
            \<lparr>s_memory = mem, s_type_n = 0, s_protocol_n = 0, s_type = [], s_proto = []\<rparr> m sz)"

definition sproto_release :: "sproto option \<Rightarrow> sproto option" where
  "sproto_release so = map_option (\<lambda>s. s\<lparr>s_memory := pool_release (s_memory s)\<rparr>) so"

end
