(* ===== verification/Sproto_Query.thy ===== *)
theory Sproto_Query
  imports Sproto_Schema
begin

text \<open>
  The queries of \<^verbatim>\<open>sproto.c\<close> on an imported schema (by name, by tag), the well-formedness of the
  types the importer builds, and that the two tag searches are right on them.
\<close>

section \<open>Operations\<close>

text \<open>\<open>strcmp(a, b) == 0\<close>: a stored string ends at its first zero byte.\<close>

definition c_streq :: "bytes \<Rightarrow> bytes \<Rightarrow> bool" where
  "c_streq a b \<longleftrightarrow> takeWhile (\<lambda>x. x \<noteq> 0) a = takeWhile (\<lambda>x. x \<noteq> 0) b"

text \<open>The linear search by name of \<open>sproto_prototag\<close> and \<open>sproto_type\<close>: the first index that matches.\<close>

fun name_search :: "bytes \<Rightarrow> bytes option list \<Rightarrow> nat \<Rightarrow> nat option option" where
  "name_search nm [] i = Some None"
| "name_search nm (None # xs) i = None"
| "name_search nm (Some x # xs) i =
     (if c_streq nm x then Some (Some i) else name_search nm xs (i + 1))"

definition sproto_prototag :: "sproto \<Rightarrow> bytes \<Rightarrow> int option" where
  "sproto_prototag sp nm = do {
     r \<leftarrow> name_search nm (map pr_name (take (nat (s_protocol_n sp)) (s_proto sp))) 0;
     case r of None \<Rightarrow> Some (-1) | Some i \<Rightarrow> map_option pr_tag (load (s_proto sp) i)
   }"

definition sproto_type_index :: "sproto \<Rightarrow> bytes \<Rightarrow> nat option option" where
  "sproto_type_index sp nm = name_search nm (map t_name (take (nat (s_type_n sp)) (s_type sp))) 0"

definition sproto_name :: "sproto_type \<Rightarrow> bytes option" where
  "sproto_name st = t_name st"

text \<open>The \<open>while (begin < end)\<close> loop that \<open>query_proto\<close> and \<open>findtag\<close> share.\<close>

function tag_search :: "(nat \<Rightarrow> int option) \<Rightarrow> int \<Rightarrow> nat \<Rightarrow> nat \<Rightarrow> nat option option" where
  "tag_search key tag b e =
     (if b < e then do {
        let mid = (b + e) div 2;
        t \<leftarrow> key mid;
        if t = tag then Some (Some mid)
        else if tag > t then tag_search key tag (mid + 1) e
        else tag_search key tag b mid
      } else Some None)"
  by pat_completeness auto
termination by (relation "measure (\<lambda>(_, _, b, e). e - b)") auto

declare tag_search.simps [simp del]

definition query_proto :: "sproto \<Rightarrow> int \<Rightarrow> protocol option option" where
  "query_proto sp tag = do {
     r \<leftarrow> tag_search (\<lambda>i. map_option pr_tag (load (s_proto sp) i)) tag 0 (nat (s_protocol_n sp));
     case r of None \<Rightarrow> Some None | Some i \<Rightarrow> map_option Some (load (s_proto sp) i)
   }"

definition sproto_protoquery :: "sproto \<Rightarrow> int \<Rightarrow> int \<Rightarrow> nat option option" where
  "sproto_protoquery sp proto what =
     (if what < 0 \<or> what > 1 then Some None
      else do {
        p \<leftarrow> query_proto sp proto;
        case p of
          None \<Rightarrow> Some None
        | Some p \<Rightarrow> Some (if what = 0 then pr_request p else pr_response p)
      })"

definition sproto_protoresponse :: "sproto \<Rightarrow> int \<Rightarrow> bool option" where
  "sproto_protoresponse sp proto = do {
     p \<leftarrow> query_proto sp proto;
     Some (case p of None \<Rightarrow> False | Some p \<Rightarrow> pr_response p \<noteq> None \<or> pr_confirm p \<noteq> 0)
   }"

definition sproto_protoname :: "sproto \<Rightarrow> int \<Rightarrow> bytes option option" where
  "sproto_protoname sp proto = do {
     p \<leftarrow> query_proto sp proto;
     Some (case p of None \<Rightarrow> None | Some p \<Rightarrow> pr_name p)
   }"

definition findtag :: "sproto_type \<Rightarrow> int \<Rightarrow> field option option" where
  "findtag st tag =
     (if t_base st \<ge> 0 then
        (let tag = tag - t_base st in
         if tag < 0 \<or> tag \<ge> t_n st then Some None else map_option Some (load (t_f st) (nat tag)))
      else do {
        r \<leftarrow> tag_search (\<lambda>i. map_option f_tag (load (t_f st) i)) tag 0 (nat (t_n st));
        case r of None \<Rightarrow> Some None | Some i \<Rightarrow> map_option Some (load (t_f st) i)
      })"

section \<open>Well-formed types\<close>

text \<open>
  What \<open>sproto_encode\<close> and \<open>findtag\<close> rely on: ascending tags, \<open>base\<close> set only for consecutive
  tags, and \<open>maxn\<close> with one more slot for every gap before a tag.
\<close>

fun tag_slots :: "int \<Rightarrow> field list \<Rightarrow> int" where
  "tag_slots lst [] = 0"
| "tag_slots lst (f # fs) = (if f_tag f > lst + 1 then 2 else 1) + tag_slots (f_tag f) fs"

fun tags_ok :: "int \<Rightarrow> field list \<Rightarrow> bool" where
  "tags_ok lst [] \<longleftrightarrow> True"
| "tags_ok lst (f # fs) \<longleftrightarrow> lst < f_tag f \<and> tags_ok (f_tag f) fs"

definition type_ok :: "sproto_type \<Rightarrow> bool" where
  "type_ok t \<longleftrightarrow> t_n t = int (length (t_f t)) \<and> tags_ok (-1) (t_f t) \<and>
     t_maxn t = tag_slots (-1) (t_f t) \<and>
     (t_base t \<ge> 0 \<longrightarrow> (\<forall>i < length (t_f t). f_tag (t_f t ! i) = t_base t + int i))"

lemma tags_ok_append:
  "tags_ok lst (fs @ [f]) \<longleftrightarrow> tags_ok lst fs \<and> (if fs = [] then lst else f_tag (last fs)) < f_tag f"
  by (induction fs arbitrary: lst) auto

lemma tag_slots_append:
  "tag_slots lst (fs @ [f]) = tag_slots lst fs +
     (if f_tag f > (if fs = [] then lst else f_tag (last fs)) + 1 then 2 else 1)"
  by (induction fs arbitrary: lst) auto

lemma tags_ok_sorted: "tags_ok lst fs \<Longrightarrow> sorted_wrt (<) (map f_tag fs) \<and> (\<forall>f\<in>set fs. lst < f_tag f)"
proof (induction fs arbitrary: lst)
  case Nil
  then show ?case by simp
next
  case (Cons f fs)
  then have "sorted_wrt (<) (map f_tag fs)" "\<forall>g\<in>set fs. f_tag f < f_tag g" "lst < f_tag f" by auto
  then show ?case by fastforce
qed

text \<open>Ascending integers that span their number are consecutive.\<close>

lemma ascending_step: "sorted_wrt (<) (xs :: int list) \<Longrightarrow> i + d < length xs \<Longrightarrow> xs ! i + int d \<le> xs ! (i + d)"
proof (induction d)
  case 0
  then show ?case by simp
next
  case (Suc d)
  then have "xs ! i + int d \<le> xs ! (i + d)" by simp
  moreover have "xs ! (i + d) < xs ! (i + Suc d)"
    using sorted_wrt_nth_less [OF Suc.prems(1), of "i + d" "i + Suc d"] Suc.prems(2) by simp
  ultimately show ?case by simp
qed

lemma ascending_contiguous:
  assumes "sorted_wrt (<) (xs :: int list)" "xs ! (length xs - 1) - xs ! 0 + 1 = int (length xs)"
    "i < length xs"
  shows "xs ! i = xs ! 0 + int i"
proof -
  have "length xs - Suc 0 < length xs" using assms(3) by (cases xs) simp_all
  then show ?thesis
    using ascending_step [OF assms(1), of 0 i] ascending_step [OF assms(1), of i "length xs - 1 - i"]
      assms(2,3) by simp
qed

section \<open>The searches are right\<close>

lemma tag_search_range:
  assumes "\<And>i j. i < j \<Longrightarrow> j < length xs \<Longrightarrow> key (xs ! i) < key (xs ! j)" "e \<le> length xs"
  shows "\<exists>r. tag_search (\<lambda>i. map_option key (load xs i)) tag b e = Some r \<and>
    (case r of None \<Rightarrow> \<forall>i. b \<le> i \<and> i < e \<longrightarrow> key (xs ! i) \<noteq> tag
     | Some i \<Rightarrow> b \<le> i \<and> i < e \<and> key (xs ! i) = tag)"
  using assms(2)
proof (induction "e - b" arbitrary: b e rule: less_induct)
  case less
  show ?case
  proof (cases "b < e")
    case False
    then show ?thesis by (subst tag_search.simps) simp
  next
    case True
    let ?mid = "(b + e) div 2"
    have mid: "b \<le> ?mid" "?mid < e" "?mid < length xs" using True less.prems by simp_all
    note unf = tag_search.simps [of "\<lambda>i. map_option key (load xs i)" tag b e]
    consider "key (xs ! ?mid) = tag" | "tag > key (xs ! ?mid)" | "tag < key (xs ! ?mid)" by linarith
    then show ?thesis
    proof cases
      case 1
      then show ?thesis using True mid by (simp add: unf mem_simps)
    next
      case 2
      then have ne: "key (xs ! i) \<noteq> tag" if "i \<le> ?mid" for i
        using assms(1) [of i ?mid] that mid by (cases "i = ?mid") auto
      obtain r where r: "tag_search (\<lambda>i. map_option key (load xs i)) tag (?mid + 1) e = Some r"
        "case r of None \<Rightarrow> \<forall>i. ?mid + 1 \<le> i \<and> i < e \<longrightarrow> key (xs ! i) \<noteq> tag
         | Some i \<Rightarrow> ?mid + 1 \<le> i \<and> i < e \<and> key (xs ! i) = tag"
        using less.hyps [of e "?mid + 1", OF diff_less_mono2] less.prems True mid
        by (meson less_add_one order_le_less_trans order_less_le_trans)
      have "tag_search (\<lambda>i. map_option key (load xs i)) tag b e = Some r"
        using r(1) True mid 2 by (simp add: unf mem_simps)
      moreover have "case r of None \<Rightarrow> \<forall>i. b \<le> i \<and> i < e \<longrightarrow> key (xs ! i) \<noteq> tag
         | Some i \<Rightarrow> b \<le> i \<and> i < e \<and> key (xs ! i) = tag"
        using r(2) ne mid by (cases r) (simp_all, metis not_less_eq_eq)
      ultimately show ?thesis by blast
    next
      case 3
      then have ne: "key (xs ! i) \<noteq> tag" if "?mid \<le> i" "i < e" for i
        using assms(1) [of ?mid i] that less.prems by (cases "i = ?mid") auto
      obtain r where r: "tag_search (\<lambda>i. map_option key (load xs i)) tag b ?mid = Some r"
        "case r of None \<Rightarrow> \<forall>i. b \<le> i \<and> i < ?mid \<longrightarrow> key (xs ! i) \<noteq> tag
         | Some i \<Rightarrow> b \<le> i \<and> i < ?mid \<and> key (xs ! i) = tag"
        using less.hyps [of ?mid b] less.prems True mid
        by (meson diff_less_mono order_less_imp_le order_trans)
      have "tag_search (\<lambda>i. map_option key (load xs i)) tag b e = Some r"
        using r(1) True mid 3 by (simp add: unf mem_simps)
      moreover have "case r of None \<Rightarrow> \<forall>i. b \<le> i \<and> i < e \<longrightarrow> key (xs ! i) \<noteq> tag
         | Some i \<Rightarrow> b \<le> i \<and> i < e \<and> key (xs ! i) = tag"
        using r(2) ne mid by (cases r) (simp_all, metis not_less)
      ultimately show ?thesis by blast
    qed
  qed
qed

lemma tag_search_find:
  assumes "sorted_wrt (<) (map key xs)"
  shows "do { r \<leftarrow> tag_search (\<lambda>i. map_option key (load xs i)) tag 0 (length xs);
      case r of None \<Rightarrow> Some None | Some i \<Rightarrow> map_option Some (load xs i) } =
    Some (find (\<lambda>x. key x = tag) xs)"
proof -
  have less: "key (xs ! i) < key (xs ! j)" if "i < j" "j < length xs" for i j
    using sorted_wrt_nth_less [OF assms that(1)] that by simp
  obtain r where r: "tag_search (\<lambda>i. map_option key (load xs i)) tag 0 (length xs) = Some r"
    "case r of None \<Rightarrow> \<forall>i. 0 \<le> i \<and> i < length xs \<longrightarrow> key (xs ! i) \<noteq> tag
     | Some i \<Rightarrow> 0 \<le> i \<and> i < length xs \<and> key (xs ! i) = tag"
    using tag_search_range [of xs key "length xs" tag 0] less by blast
  show ?thesis
  proof (cases r)
    case None
    then show ?thesis using r by (auto simp: find_None_iff2 in_set_conv_nth)
  next
    case (Some i)
    have "find (\<lambda>x. key x = tag) xs = Some (xs ! i)"
      using Some r less by (auto simp: find_Some_iff intro!: exI [of _ i]) (metis less_irrefl)
    then show ?thesis using Some r by (simp add: mem_simps)
  qed
qed

lemma findtag_find:
  assumes "type_ok t"
  shows "findtag t tag = Some (find (\<lambda>f. f_tag f = tag) (t_f t))"
proof (cases "t_base t \<ge> 0")
  case False
  then show ?thesis
    using assms tag_search_find [of f_tag "t_f t" tag] tags_ok_sorted [of "-1" "t_f t"]
    by (auto simp: findtag_def type_ok_def)
next
  case True
  then have c: "f_tag (t_f t ! i) = t_base t + int i" if "i < length (t_f t)" for i
    using assms that by (simp add: type_ok_def)
  show ?thesis
  proof (cases "tag - t_base t < 0 \<or> tag - t_base t \<ge> t_n t")
    case out: True
    then have "find (\<lambda>f. f_tag f = tag) (t_f t) = None"
      using assms c by (auto simp: find_None_iff in_set_conv_nth type_ok_def)
    then show ?thesis using True out by (simp add: findtag_def Let_def)
  next
    case False
    let ?i = "nat (tag - t_base t)"
    have "t_n t = int (length (t_f t))" using assms by (simp add: type_ok_def)
    then have i: "?i < length (t_f t)" "tag = t_base t + int ?i" using False by arith+
    have ne: "f_tag (t_f t ! j) \<noteq> tag" if "j < ?i" for j using c [of j] that i by simp
    have "find (\<lambda>f. f_tag f = tag) (t_f t) = Some (t_f t ! ?i)"
      using i c [of ?i] ne unfolding find_Some_iff by (metis)
    then show ?thesis using True False i(1) by (simp add: findtag_def Let_def mem_simps)
  qed
qed

end
