(* ===== verification/Sproto_Codec.thy ===== *)
theory Sproto_Codec
  imports Sproto_Query
begin

text \<open>
  \<open>sproto_encode\<close> and \<open>sproto_decode\<close> of \<^verbatim>\<open>sproto.c\<close> and the functions they call.

  The output of the encoder is one byte list, the \<open>buffer\<close> of \<open>size\<close> bytes; pointers into it are
  offsets and every write is checked. The user's callback is a parameter. For the encoder it
  returns its C result, the bytes it wrote through \<open>args->value\<close> and the new user state (the
  value of an integer is written as the machine stores it, least significant byte first); for the
  decoder it receives the value: none, an integer, or the bytes that \<open>args->value\<close> and
  \<open>args->length\<close> designate, which must lie inside the message. When the encoder gives up (a
  result of -1, or 0 for a missing array) what it has written so far is not part of the result.
  The C variable \<open>size\<close>, the room left, is \<open>room\<close>.
\<close>

section \<open>Data\<close>

record sproto_arg =
  a_tagname :: "bytes option"
  a_tagid :: int
  a_type :: int
  a_subtype :: "nat option"
  a_length :: int
  a_index :: int
  a_mainindex :: int
  a_extra :: int
  a_ktagname :: "bytes option"
  a_vtagname :: "bytes option"

datatype cb_value = VNull | VInt u64 | VMem bytes

type_synonym 'u encode_cb = "sproto_arg \<Rightarrow> 'u \<Rightarrow> int \<times> bytes \<times> 'u"
type_synonym 'u decode_cb = "sproto_arg \<Rightarrow> cb_value \<Rightarrow> 'u \<Rightarrow> int \<times> 'u"

definition SPROTO_CB_ERROR :: int where "SPROTO_CB_ERROR = -1"
definition SPROTO_CB_NIL :: int where "SPROTO_CB_NIL = -2"
definition SPROTO_CB_NOARRAY :: int where "SPROTO_CB_NOARRAY = -3"

definition SIZEOF_INT32 :: nat where "SIZEOF_INT32 = 4"
definition SIZEOF_INT64 :: nat where "SIZEOF_INT64 = 8"

lemmas codec_consts = sproto_consts SPROTO_CB_ERROR_def SPROTO_CB_NIL_def SPROTO_CB_NOARRAY_def
  SIZEOF_INT32_def SIZEOF_INT64_def

text \<open>The members of the union the callback filled in.\<close>

definition u32_of :: "bytes \<Rightarrow> u32 option" where
  "u32_of w = todword w 0"

definition u64_of :: "bytes \<Rightarrow> u64 option" where
  "u64_of w = do { bs \<leftarrow> load_n w 0 8; Some (le64_get bs) }"

section \<open>Encoding\<close>

definition fill_size :: "bytes \<Rightarrow> nat \<Rightarrow> int \<Rightarrow> (int \<times> bytes) option" where
  "fill_size buf data sz = do {
     buf' \<leftarrow> store_n buf data (le32_put (word_of_int sz));
     Some (sz + int SIZEOF_LENGTH, buf')
   }"

text \<open>The bound is a \<open>size_t\<close>, so a negative \<open>size\<close> would pass the test.\<close>

definition encode_integer :: "u32 \<Rightarrow> bytes \<Rightarrow> nat \<Rightarrow> int \<Rightarrow> (int \<times> bytes) option" where
  "encode_integer v buf data room =
     (if 0 \<le> room \<and> room < 8 then Some (-1, buf)
      else do { buf1 \<leftarrow> store_n buf (data + 4) (le32_put v); fill_size buf1 data 4 })"

definition encode_uint64 :: "u64 \<Rightarrow> bytes \<Rightarrow> nat \<Rightarrow> int \<Rightarrow> (int \<times> bytes) option" where
  "encode_uint64 v buf data room =
     (if 0 \<le> room \<and> room < 12 then Some (-1, buf)
      else do { buf1 \<leftarrow> store_n buf (data + 4) (le64_put v); fill_size buf1 data 8 })"

definition encode_object ::
  "'u encode_cb \<Rightarrow> sproto_arg \<Rightarrow> bytes \<Rightarrow> nat \<Rightarrow> int \<Rightarrow> 'u \<Rightarrow> (int \<times> bytes \<times> 'u) option" where
  "encode_object cb args buf data room u =
     (if room < int SIZEOF_LENGTH then Some (-1, buf, u)
      else do {
        let (sz, w, u1) = cb (args\<lparr>a_length := room - int SIZEOF_LENGTH\<rparr>) u;
        buf1 \<leftarrow> store_n buf (data + SIZEOF_LENGTH) w;
        if sz < 0 then Some (if sz = SPROTO_CB_NIL then 0 else -1, buf1, u1)
        else if \<not> sz \<le> room - int SIZEOF_LENGTH then None
        else do { (r, buf2) \<leftarrow> fill_size buf1 data sz; Some (r, buf2, u1) }
      })"

definition uint32_to_uint64 :: "bool \<Rightarrow> bytes \<Rightarrow> nat \<Rightarrow> bytes option" where
  "uint32_to_uint64 negative buf p = store_n buf (p + 4) (replicate 4 (if negative then 0xff else 0))"

text \<open>
  One round of the loop of \<open>encode_integer_array\<close>, on \<open>buffer\<close>, \<open>size\<close>, \<open>intlen\<close>, \<open>index\<close> and
  the user state; \<open>hdr\<close> is the address of the length byte. The loop ends with the end of the
  data, \<open>intlen\<close> and \<open>noarray\<close>, or with null.
\<close>

record 'u ia_state =
  ia_buf :: bytes
  ia_ptr :: nat
  ia_size :: int
  ia_intlen :: nat
  ia_index :: nat
  ia_ud :: 'u

definition widen_one :: "nat \<Rightarrow> nat \<Rightarrow> bytes \<Rightarrow> bytes option" where
  "widen_one hdr i buf = do {
     x \<leftarrow> load_n buf (hdr + 1 + i * 4) 4;
     buf1 \<leftarrow> store_n buf (hdr + 1 + i * 8) x;
     b \<leftarrow> load buf1 (hdr + 1 + i * 8 + 3);
     uint32_to_uint64 (b AND 0x80 \<noteq> 0) buf1 (hdr + 1 + i * 8)
   }"

definition ia_put32 :: "u32 \<Rightarrow> 'u ia_state \<Rightarrow> 'u ia_state option" where
  "ia_put32 v s = do {
     buf1 \<leftarrow> store_n (ia_buf s) (ia_ptr s) (le32_put v);
     buf2 \<leftarrow> (if ia_intlen s = SIZEOF_INT64
              then uint32_to_uint64 (v AND 0x80000000 \<noteq> 0) buf1 (ia_ptr s) else Some buf1);
     Some (s\<lparr>ia_buf := buf2\<rparr>)
   }"

text \<open>The first 64-bit value widens the values written before it, from the last to the first.\<close>

definition ia_rearrange :: "nat \<Rightarrow> 'u ia_state \<Rightarrow> 'u ia_state option option" where
  "ia_rearrange hdr s =
     (if ia_intlen s = SIZEOF_INT32 then do {
        let room = ia_size s - int ((ia_index s - 1) * SIZEOF_INT32);
        if room < int SIZEOF_INT64 then Some None
        else do {
          buf \<leftarrow> for_each (widen_one hdr) (rev [0..<ia_index s - 1]) (ia_buf s);
          Some (Some (s\<lparr>ia_buf := buf, ia_ptr := ia_ptr s + (ia_index s - 1) * SIZEOF_INT32,
            ia_size := room, ia_intlen := SIZEOF_INT64\<rparr>))
        }
      } else Some (Some s))"

definition ia_put64 :: "u64 \<Rightarrow> 'u ia_state \<Rightarrow> 'u ia_state option" where
  "ia_put64 v s = do {
     buf \<leftarrow> store_n (ia_buf s) (ia_ptr s) (le64_put v);
     Some (s\<lparr>ia_buf := buf\<rparr>)
   }"

definition ia_advance :: "'u ia_state \<Rightarrow> 'u ia_state" where
  "ia_advance s = s\<lparr>ia_size := ia_size s - int (ia_intlen s), ia_ptr := ia_ptr s + ia_intlen s,
     ia_index := ia_index s + 1\<rparr>"

definition ia_step ::
  "'u encode_cb \<Rightarrow> sproto_arg \<Rightarrow> nat \<Rightarrow> 'u ia_state
   \<Rightarrow> ('u ia_state + ('u ia_state \<times> bool) option) option" where
  "ia_step cb args hdr s = do {
     let (sz, w, u) = cb (args\<lparr>a_length := 8, a_index := int (ia_index s)\<rparr>) (ia_ud s);
     let s = s\<lparr>ia_ud := u\<rparr>;
     if sz \<le> 0 then Some (Inr (
       if sz = SPROTO_CB_NIL then Some (s, False)
       else if sz = SPROTO_CB_NOARRAY then Some (s, True) else None))
     else if ia_size s < int SIZEOF_INT64 then Some (Inr None)
     else if sz = int SIZEOF_INT32 then do {
       v \<leftarrow> u32_of w;
       s1 \<leftarrow> ia_put32 v s;
       Some (Inl (ia_advance s1))
     }
     else if sz \<noteq> int SIZEOF_INT64 then Some (Inr None)
     else do {
       r \<leftarrow> ia_rearrange hdr s;
       case r of
         None \<Rightarrow> Some (Inr None)
       | Some s1 \<Rightarrow> do {
           v \<leftarrow> u64_of w;
           s2 \<leftarrow> ia_put64 v s1;
           Some (Inl (ia_advance s2))
         }
     }
   }"

text \<open>The results of the array encoders: the end of the data, \<open>noarray\<close>, the buffer, the user state.\<close>

definition encode_integer_array ::
  "'u encode_cb \<Rightarrow> sproto_arg \<Rightarrow> bytes \<Rightarrow> nat \<Rightarrow> int \<Rightarrow> 'u \<Rightarrow> (nat \<times> bool \<times> bytes \<times> 'u) option option" where
  "encode_integer_array cb args buf hdr room u =
     (if room < 1 then Some None
      else bind_ret (repeat_step (ia_step cb args hdr)
             \<lparr>ia_buf = buf, ia_ptr = hdr + 1, ia_size = room - 1, ia_intlen = SIZEOF_INT32, ia_index = 1,
              ia_ud = u\<rparr>)
        (\<lambda>(s, noarray).
           if ia_ptr s = hdr + 1 then Some (Some (hdr, noarray, ia_buf s, ia_ud s))
           else do {
             buf1 \<leftarrow> store (ia_buf s) hdr (of_nat (ia_intlen s));
             Some (Some (ia_ptr s, noarray, buf1, ia_ud s))
           }))"

definition oa_step ::
  "'u encode_cb \<Rightarrow> sproto_arg \<Rightarrow> bytes \<times> nat \<times> int \<times> int \<times> 'u
   \<Rightarrow> ((bytes \<times> nat \<times> int \<times> int \<times> 'u) + (nat \<times> bool \<times> bytes \<times> 'u) option) option" where
  "oa_step cb args s = (case s of (buf, buffer, room, index, u) \<Rightarrow>
     if room < int SIZEOF_LENGTH then Some (Inr None)
     else do {
       let room = room - int SIZEOF_LENGTH;
       let (sz, w, u1) = cb (args\<lparr>a_length := room, a_index := index\<rparr>) u;
       buf1 \<leftarrow> store_n buf (buffer + SIZEOF_LENGTH) w;
       if sz < 0 then Some (Inr (
         if sz = SPROTO_CB_NIL then Some (buffer, False, buf1, u1)
         else if sz = SPROTO_CB_NOARRAY then Some (buffer, True, buf1, u1) else None))
       else do {
         (_, buf2) \<leftarrow> fill_size buf1 buffer sz;
         Some (Inl (buf2, buffer + SIZEOF_LENGTH + nat sz, room - sz, index + 1, u1))
       }
     })"

definition encode_array_object ::
  "'u encode_cb \<Rightarrow> sproto_arg \<Rightarrow> bytes \<Rightarrow> nat \<Rightarrow> int \<Rightarrow> 'u \<Rightarrow> (nat \<times> bool \<times> bytes \<times> 'u) option option" where
  "encode_array_object cb args buf buffer room u =
     repeat_step (oa_step cb args) (buf, buffer, room, 1, u)"

text \<open>The loop of the boolean case of \<open>encode_array\<close>; a result \<open>Inl r\<close> returns \<open>r\<close> at once.\<close>

definition ba_step ::
  "'u encode_cb \<Rightarrow> sproto_arg \<Rightarrow> bytes \<times> nat \<times> int \<times> int \<times> 'u
   \<Rightarrow> ((bytes \<times> nat \<times> int \<times> int \<times> 'u) + (int + nat) \<times> bytes \<times> 'u) option" where
  "ba_step cb args s = (case s of (buf, buffer, room, index, u) \<Rightarrow> do {
     let (sz, w, u1) = cb (args\<lparr>a_length := 4, a_index := index\<rparr>) u;
     if sz < 0 then Some (Inr (
       if sz = SPROTO_CB_NIL then Inr buffer
       else if sz = SPROTO_CB_NOARRAY then Inl 0 else Inl (-1), buf, u1))
     else if room < 1 then Some (Inr (Inl (-1), buf, u1))
     else do {
       buf1 \<leftarrow> store buf buffer (if \<exists>b\<in>set (take 4 w). b \<noteq> 0 then 1 else 0);
       Some (Inl (buf1, buffer + 1, room - 1, index + 1, u1))
     }
   })"

definition array_result ::
  "bytes \<Rightarrow> nat \<Rightarrow> 'u \<Rightarrow> (nat \<times> bool \<times> bytes \<times> 'u) option \<Rightarrow> (int \<times> bytes \<times> 'u) option" where
  "array_result buf data u r = (case r of
     None \<Rightarrow> Some (-1, buf, u)
   | Some (buffer, noarray, buf1, u1) \<Rightarrow>
       if noarray then Some (0, buf1, u1)
       else do {
         (r, buf2) \<leftarrow> fill_size buf1 data (int buffer - int (data + SIZEOF_LENGTH));
         Some (r, buf2, u1)
       })"

definition encode_array ::
  "'u encode_cb \<Rightarrow> sproto_arg \<Rightarrow> bytes \<Rightarrow> nat \<Rightarrow> int \<Rightarrow> 'u \<Rightarrow> (int \<times> bytes \<times> 'u) option" where
  "encode_array cb args buf data room u =
     (if room < int SIZEOF_LENGTH then Some (-1, buf, u)
      else do {
        let room = room - int SIZEOF_LENGTH;
        let buffer = data + SIZEOF_LENGTH;
        if a_type args = SPROTO_TDOUBLE \<or> a_type args = SPROTO_TINTEGER then do {
          r \<leftarrow> encode_integer_array cb args buf buffer room u; array_result buf data u r
        }
        else if a_type args = SPROTO_TBOOLEAN then do {
          (r, buf1, u1) \<leftarrow> repeat_step (ba_step cb args) (buf, buffer, room, 1, u);
          case r of
            Inl code \<Rightarrow> Some (code, buf1, u1)
          | Inr buffer \<Rightarrow> array_result buf data u (Some (buffer, False, buf1, u1))
        }
        else do { r \<leftarrow> encode_array_object cb args buf buffer room u; array_result buf data u r }
      })"

text \<open>The names of the two fields of a type that is read as a map.\<close>

definition map_names :: "sproto_type list \<Rightarrow> field \<Rightarrow> (bytes option \<times> bytes option) option" where
  "map_names types f =
     (if f_map f > 0 then do {
        i \<leftarrow> f_st f; t \<leftarrow> load types i; k \<leftarrow> load (t_f t) 0; v \<leftarrow> load (t_f t) 1;
        Some (f_name k, f_name v)
      } else Some (None, None))"

definition field_args :: "field \<Rightarrow> sproto_arg" where
  "field_args f = \<lparr>a_tagname = f_name f, a_tagid = f_tag f, a_type = f_type f, a_subtype = f_st f,
     a_length = 0, a_index = 0, a_mainindex = f_key f, a_extra = f_extra f, a_ktagname = None,
     a_vtagname = None\<rparr>"

text \<open>
  The value of one field: \<open>Inl r\<close> returns \<open>r\<close> from \<open>sproto_encode\<close>; otherwise \<open>sz\<close> and the
  \<open>value\<close> for the field table (\<open>sz = 0\<close> also for the \<open>continue\<close> on a nil).
\<close>

definition encode_scalar ::
  "'u encode_cb \<Rightarrow> sproto_arg \<Rightarrow> bytes \<Rightarrow> nat \<Rightarrow> int \<Rightarrow> 'u
   \<Rightarrow> (int + int \<times> int \<times> bytes \<times> 'u) option" where
  "encode_scalar cb args buf data room u = do {
     let (sz, w, u1) = cb (args\<lparr>a_length := 8\<rparr>) u;
     if sz < 0 then
       Some (if sz = SPROTO_CB_NIL then Inr (0, 0, buf, u1)
             else if sz = SPROTO_CB_NOARRAY then Inl 0 else Inl (-1))
     else if sz = int SIZEOF_INT32 then do {
       v \<leftarrow> u32_of w;
       if v < 0x7fff then Some (Inr (2, uint ((v + 1) * 2), buf, u1))
       else do { (sz, buf1) \<leftarrow> encode_integer v buf data room; Some (Inr (sz, 0, buf1, u1)) }
     }
     else if sz = int SIZEOF_INT64 then do {
       v \<leftarrow> u64_of w;
       (sz, buf1) \<leftarrow> encode_uint64 v buf data room;
       Some (Inr (sz, 0, buf1, u1))
     }
     else Some (Inl (-1))
   }"

definition encode_value ::
  "sproto_type list \<Rightarrow> 'u encode_cb \<Rightarrow> field \<Rightarrow> bytes \<Rightarrow> nat \<Rightarrow> int \<Rightarrow> 'u
   \<Rightarrow> (int + int \<times> int \<times> bytes \<times> 'u) option" where
  "encode_value types cb f buf data room u =
     (let args = field_args f; type = f_type f in
      if type AND SPROTO_TARRAY \<noteq> 0 then do {
        (k, v) \<leftarrow> map_names types f;
        (sz, buf1, u1) \<leftarrow> encode_array cb
          (args\<lparr>a_type := type AND NOT SPROTO_TARRAY, a_ktagname := k, a_vtagname := v\<rparr>) buf data room u;
        Some (Inr (sz, 0, buf1, u1))
      }
      else if type = SPROTO_TDOUBLE \<or> type = SPROTO_TINTEGER \<or> type = SPROTO_TBOOLEAN then
        encode_scalar cb args buf data room u
      else if type = SPROTO_TSTRUCT \<or> type = SPROTO_TSTRING then do {
        (sz, buf1, u1) \<leftarrow> encode_object cb args buf data room u;
        Some (Inr (sz, 0, buf1, u1))
      }
      else Some (Inr (-1, 0, buf, u)))"

record 'u encode_state =
  e_buf :: bytes
  e_data :: nat
  e_size :: int
  e_index :: nat
  e_lasttag :: int
  e_ud :: 'u

text \<open>The record of a field that has a value, after one that skips the tags without.\<close>

definition encode_record ::
  "field \<Rightarrow> int \<Rightarrow> 'u encode_state \<Rightarrow> (int + 'u encode_state) option" where
  "encode_record f value s = do {
     let tag = f_tag f - e_lasttag s - 1;
     let skip = (tag - 1) * 2 + 1;
     if tag > 0 \<and> skip > 0xffff then Some (Inl (-1))
     else do {
       (buf1, index1) \<leftarrow> (if tag > 0 then do {
           b \<leftarrow> store_n (e_buf s) (SIZEOF_HEADER + SIZEOF_FIELD * e_index s) (le16_put (word_of_int skip));
           Some (b, e_index s + 1)
         } else Some (e_buf s, e_index s));
       buf2 \<leftarrow> store_n buf1 (SIZEOF_HEADER + SIZEOF_FIELD * index1) (le16_put (word_of_int value));
       Some (Inr (s\<lparr>e_buf := buf2, e_index := index1 + 1, e_lasttag := f_tag f\<rparr>))
     }
   }"

definition encode_field ::
  "sproto_type list \<Rightarrow> 'u encode_cb \<Rightarrow> field \<Rightarrow> 'u encode_state \<Rightarrow> (int + 'u encode_state) option" where
  "encode_field types cb f s = do {
     r \<leftarrow> encode_value types cb f (e_buf s) (e_data s) (e_size s) (e_ud s);
     case r of
       Inl code \<Rightarrow> Some (Inl code)
     | Inr (sz, value, buf, u) \<Rightarrow>
         let s1 = s\<lparr>e_buf := buf, e_ud := u\<rparr> in
         if sz < 0 then Some (Inl (-1))
         else if sz > 0 then
           encode_record f value
             (if value = 0 then s1\<lparr>e_data := e_data s + nat sz, e_size := e_size s - sz\<rparr> else s1)
         else Some (Inr s1)
   }"

text \<open>The final move of the data down to the end of the field table.\<close>

definition encode_finish :: "nat \<Rightarrow> 'u encode_state \<Rightarrow> (int \<times> bytes) option" where
  "encode_finish maxn s = do {
     buf \<leftarrow> store_n (e_buf s) 0 (le16_put (of_nat (e_index s)));
     let header_sz = SIZEOF_HEADER + maxn * SIZEOF_FIELD;
     let datasz = e_data s - header_sz;
     buf1 \<leftarrow> (if e_index s \<noteq> maxn then do {
         d \<leftarrow> load_n buf header_sz datasz;
         store_n buf (SIZEOF_HEADER + e_index s * SIZEOF_FIELD) d
       } else Some buf);
     Some (int (SIZEOF_HEADER + e_index s * SIZEOF_FIELD + datasz), buf1)
   }"

definition sproto_encode ::
  "sproto_type list \<Rightarrow> sproto_type \<Rightarrow> bytes \<Rightarrow> int \<Rightarrow> 'u encode_cb \<Rightarrow> 'u \<Rightarrow> (int \<times> bytes) option" where
  "sproto_encode types st buffer room cb ud = do {
     let header_sz = SIZEOF_HEADER + nat (t_maxn st) * SIZEOF_FIELD;
     if room < int header_sz then Some (-1, buffer)
     else do {
       r \<leftarrow> for_exit (encode_field types cb) (take (nat (t_n st)) (t_f st))
         \<lparr>e_buf = buffer, e_data = header_sz, e_size = room - int header_sz, e_index = 0, e_lasttag = -1,
          e_ud = ud\<rparr>;
       case r of
         Inl code \<Rightarrow> Some (code, buffer)
       | Inr s \<Rightarrow> encode_finish (nat (t_maxn st)) s
     }
   }"

section \<open>Decoding\<close>

text \<open>A loop over an index whose callback result is ignored.\<close>

definition call_each ::
  "'u decode_cb \<Rightarrow> (nat \<Rightarrow> sproto_arg) \<Rightarrow> (nat \<Rightarrow> u64 option) \<Rightarrow> nat \<Rightarrow> 'u \<Rightarrow> 'u option" where
  "call_each cb args get n u =
     for_each (\<lambda>i u. do { v \<leftarrow> get i; Some (snd (cb (args i) (VInt v) u)) }) [0..<n] u"

definition da_step ::
  "'u decode_cb \<Rightarrow> sproto_arg \<Rightarrow> bytes \<Rightarrow> nat \<times> int \<times> int \<times> 'u
   \<Rightarrow> ((nat \<times> int \<times> int \<times> 'u) + int \<times> 'u) option" where
  "da_step cb args m s = (case s of (stream, sz, index, u) \<Rightarrow>
     if \<not> sz > 0 then Some (Inr (0, u))
     else if sz < int SIZEOF_LENGTH then Some (Inr (-1, u))
     else do {
       hsz \<leftarrow> todword m stream;
       let stream = stream + SIZEOF_LENGTH;
       let sz = sz - int SIZEOF_LENGTH;
       if uint hsz > sz then Some (Inr (-1, u))
       else do {
         v \<leftarrow> load_n m stream (unat hsz);
         let (r, u1) = cb (args\<lparr>a_index := index, a_length := uint hsz\<rparr>) (VMem v) u;
         if r \<noteq> 0 then Some (Inr (-1, u1))
         else Some (Inl (stream + unat hsz, sz - uint hsz, index + 1, u1))
       }
     })"

definition decode_array_object ::
  "'u decode_cb \<Rightarrow> sproto_arg \<Rightarrow> bytes \<Rightarrow> nat \<Rightarrow> int \<Rightarrow> 'u \<Rightarrow> (int \<times> 'u) option" where
  "decode_array_object cb args m stream sz u = repeat_step (da_step cb args m) (stream, sz, 1, u)"

definition expand64 :: "u32 \<Rightarrow> u64" where
  "expand64 v = (let value = ucast v :: u64 in
     if value AND 0x80000000 \<noteq> 0 then value OR push_bit 32 (NOT 0) else value)"

definition decode_empty_array :: "'u decode_cb \<Rightarrow> sproto_arg \<Rightarrow> 'u \<Rightarrow> int \<times> 'u" where
  "decode_empty_array cb args u = cb (args\<lparr>a_index := -1, a_length := 0\<rparr>) VNull u"

definition todword64 :: "bytes \<Rightarrow> nat \<Rightarrow> u64 option" where
  "todword64 m p = do {
     low \<leftarrow> todword m p; hi \<leftarrow> todword m (p + 4); Some (ucast low OR push_bit 32 (ucast hi))
   }"

definition decode_array ::
  "'u decode_cb \<Rightarrow> sproto_arg \<Rightarrow> bytes \<Rightarrow> nat \<Rightarrow> 'u \<Rightarrow> (int \<times> 'u) option" where
  "decode_array cb args m stream u = do {
     sz \<leftarrow> todword m stream;
     let stream = stream + SIZEOF_LENGTH;
     let elem = (\<lambda>i. args\<lparr>a_index := int i + 1, a_length := 8\<rparr>);
     if sz = 0 then Some (decode_empty_array cb args u)
     else if a_type args = SPROTO_TDOUBLE \<or> a_type args = SPROTO_TINTEGER then do {
       let sz = unat sz - 1;
       if sz = 0 then Some (decode_empty_array cb args u)
       else do {
         len \<leftarrow> load m stream;
         let stream = stream + 1;
         if len = 4 then
           if sz mod 4 \<noteq> 0 then Some (-1, u)
           else do {
             u1 \<leftarrow> call_each cb elem (\<lambda>i. map_option expand64 (todword m (stream + i * 4))) (sz div 4) u;
             Some (0, u1)
           }
         else if len = 8 then
           if sz mod 8 \<noteq> 0 then Some (-1, u)
           else do {
             u1 \<leftarrow> call_each cb elem (\<lambda>i. todword64 m (stream + i * 8)) (sz div 8) u;
             Some (0, u1)
           }
         else Some (-1, u)
       }
     }
     else if a_type args = SPROTO_TBOOLEAN then do {
       u1 \<leftarrow> call_each cb elem (\<lambda>i. map_option ucast (load m (stream + i))) (unat sz) u;
       Some (0, u1)
     }
     else if a_type args = SPROTO_TSTRING \<or> a_type args = SPROTO_TSTRUCT then
       decode_array_object cb args m stream (sint sz) u
     else Some (-1, u)
   }"

text \<open>The value of a field that has data, at \<open>p\<close>; the result is -1 to give up.\<close>

definition decode_data ::
  "sproto_type list \<Rightarrow> 'u decode_cb \<Rightarrow> field \<Rightarrow> bytes \<Rightarrow> nat \<Rightarrow> 'u \<Rightarrow> (int \<times> 'u) option" where
  "decode_data types cb f m p u =
     (let args = field_args f in
      if f_type f AND SPROTO_TARRAY \<noteq> 0 then do {
        (k, v) \<leftarrow> map_names types f;
        (r, u1) \<leftarrow> decode_array cb
          (args\<lparr>a_type := f_type f AND NOT SPROTO_TARRAY, a_ktagname := k, a_vtagname := v\<rparr>) m p u;
        Some (if r \<noteq> 0 then -1 else 0, u1)
      }
      else if f_type f = SPROTO_TDOUBLE \<or> f_type f = SPROTO_TINTEGER then do {
        sz \<leftarrow> todword m p;
        if sz = 4 then do {
          v \<leftarrow> todword m (p + SIZEOF_LENGTH);
          Some (0, snd (cb (args\<lparr>a_length := 8\<rparr>) (VInt (expand64 v)) u))
        }
        else if sz \<noteq> 8 then Some (-1, u)
        else do {
          v \<leftarrow> todword64 m (p + SIZEOF_LENGTH);
          Some (0, snd (cb (args\<lparr>a_length := 8\<rparr>) (VInt v) u))
        }
      }
      else if f_type f = SPROTO_TSTRING \<or> f_type f = SPROTO_TSTRUCT then do {
        sz \<leftarrow> todword m p;
        v \<leftarrow> load_n m (p + SIZEOF_LENGTH) (unat sz);
        let (r, u1) = cb (args\<lparr>a_length := sint sz\<rparr>) (VMem v) u;
        Some (if r \<noteq> 0 then -1 else 0, u1)
      }
      else Some (-1, u))"

record 'u decode_state =
  d_tag :: int
  d_data :: nat
  d_size :: int
  d_ud :: 'u

definition decode_field ::
  "sproto_type list \<Rightarrow> sproto_type \<Rightarrow> 'u decode_cb \<Rightarrow> bytes \<Rightarrow> nat \<Rightarrow> 'u decode_state
   \<Rightarrow> (int \<times> 'u + 'u decode_state) option" where
  "decode_field types st cb m i s = do {
     value \<leftarrow> toword m (SIZEOF_HEADER + i * SIZEOF_FIELD);
     let s = s\<lparr>d_tag := d_tag s + 1\<rparr>;
     if odd value then Some (Inr (s\<lparr>d_tag := d_tag s + value div 2\<rparr>))
     else do {
       let value = value div 2 - 1;
       let currentdata = d_data s;
       r \<leftarrow> (if value < 0 then
           if d_size s < int SIZEOF_LENGTH then Some None
           else do {
             sz \<leftarrow> todword m currentdata;
             if d_size s < uint (sz + 4) then Some None
             else Some (Some (s\<lparr>d_data := currentdata + unat (sz + 4), d_size := d_size s - uint (sz + 4)\<rparr>))
           }
         else Some (Some s));
       case r of
         None \<Rightarrow> Some (Inl (-1, d_ud s))
       | Some s \<Rightarrow> do {
           fo \<leftarrow> findtag st (d_tag s);
           case fo of
             None \<Rightarrow> Some (Inr s)
           | Some f \<Rightarrow>
               if value < 0 then do {
                 (r, u) \<leftarrow> decode_data types cb f m currentdata (d_ud s);
                 Some (if r \<noteq> 0 then Inl (-1, u) else Inr (s\<lparr>d_ud := u\<rparr>))
               }
               else if f_type f \<noteq> SPROTO_TINTEGER \<and> f_type f \<noteq> SPROTO_TBOOLEAN then
                 Some (Inl (-1, d_ud s))
               else
                 Some (Inr (s\<lparr>d_ud := snd (cb ((field_args f)\<lparr>a_length := 8\<rparr>)
                   (VInt (word_of_int value)) (d_ud s))\<rparr>))
         }
     }
   }"

definition sproto_decode ::
  "sproto_type list \<Rightarrow> sproto_type \<Rightarrow> bytes \<Rightarrow> int \<Rightarrow> 'u decode_cb \<Rightarrow> 'u \<Rightarrow> (int \<times> 'u) option" where
  "sproto_decode types st m room cb ud =
     (if room < int SIZEOF_HEADER then Some (-1, ud)
      else do {
        fn \<leftarrow> toword m 0;
        let left = room - int SIZEOF_HEADER;
        if left < fn * int SIZEOF_FIELD then Some (-1, ud)
        else do {
          r \<leftarrow> for_exit (decode_field types st cb m) [0..<nat fn]
            \<lparr>d_tag = -1, d_data = SIZEOF_HEADER + nat fn * SIZEOF_FIELD,
             d_size = left - fn * int SIZEOF_FIELD, d_ud = ud\<rparr>;
          Some (case r of Inl e \<Rightarrow> e | Inr s \<Rightarrow> (room - d_size s, d_ud s))
        }
      })"

end
