(* ===== verification/Sproto_Import.thy ===== *)
theory Sproto_Import
  imports Sproto_Query
begin

text \<open>
  What the importer of \<^verbatim>\<open>sproto.c\<close> guarantees: the readers stay inside the bytes they were given,
  every schema \<open>sproto_create\<close> returns is well formed, and the blocks of the pool do not overlap.
\<close>

section \<open>Readers\<close>

lemma toword_Some: "p + 1 < length m \<Longrightarrow> \<exists>v. toword m p = Some v \<and> 0 \<le> v \<and> v < 65536"
proof -
  assume a: "p + 1 < length m"
  have "uint (w :: u16) < 65536" for w using uint_bounded [of w] by simp
  with a show ?thesis by (simp add: toword_def mem_simps)
qed

lemma todword_Some: "p + 3 < length m \<Longrightarrow> \<exists>v. todword m p = Some v"
  by (simp add: todword_def mem_simps)

lemma todword_le32_put: "todword (pre @ le32_put w @ post) (length pre) = Some w"
  by (simp add: todword_def load_def le32_put_def nth_append codec_simps
      le32_get_put [unfolded One_nat_def])

lemma struct_field_body_total:
  assumes "fld + 2 * i + 1 < length m" "stream + sz \<le> length m"
  shows "\<exists>r. struct_field_body m fld i (stream, sz) = Some r \<and>
    (\<forall>stream' sz'. r = Some (stream', sz') \<longrightarrow> stream' + sz' \<le> length m)"
proof -
  obtain v where v: "toword m (fld + i * SIZEOF_FIELD) = Some v"
    using toword_Some [of "fld + i * 2" m] assms(1) by (auto simp: sproto_consts mult.commute)
  show ?thesis
  proof (cases "v = 0 \<and> sz \<ge> 4")
    case True
    then obtain d where "todword m stream = Some d" using todword_Some [of stream m] assms by auto
    with v True assms show ?thesis
      by (simp add: struct_field_body_def Let_def SIZEOF_LENGTH_def)
  next
    case False
    with v assms show ?thesis by (auto simp: struct_field_body_def Let_def SIZEOF_LENGTH_def)
  qed
qed

lemma struct_field_total:
  assumes "stream + sz \<le> length m"
  shows "\<exists>fn. struct_field m stream sz = Some fn \<and>
    (fn = -1 \<or> 0 \<le> fn \<and> fn < 65536 \<and> 2 + 2 * nat fn \<le> sz)"
proof (cases "sz < 4")
  case True
  then show ?thesis by (simp add: struct_field_def SIZEOF_LENGTH_def)
next
  case False
  then obtain fn where fn: "toword m stream = Some fn" "0 \<le> fn" "fn < 65536"
    using toword_Some [of stream m] assms by auto
  show ?thesis
  proof (cases "sz < 2 + 2 * nat fn")
    case True
    with fn False show ?thesis by (simp add: struct_field_def sproto_consts)
  next
    case fits: False
    have "\<exists>r. for_ret (struct_field_body m (stream + 2)) [0..<nat fn]
        (stream + (2 + 2 * nat fn), sz - (2 + 2 * nat fn)) = Some r \<and>
        (\<forall>s'. r = Some s' \<longrightarrow> fst s' + snd s' \<le> length m)"
    proof (rule for_ret_total)
      fix i s assume "i \<in> set [0..<nat fn]" "fst s + snd s \<le> length m"
      then show "\<exists>r. struct_field_body m (stream + 2) i s = Some r \<and>
          (\<forall>s'. r = Some s' \<longrightarrow> fst s' + snd s' \<le> length m)"
        using struct_field_body_total [of "stream + 2" i m "fst s" "snd s"] assms fits by auto
    qed (use assms fits in simp)
    then obtain r where "for_ret (struct_field_body m (stream + 2)) [0..<nat fn]
        (stream + (2 + 2 * nat fn), sz - (2 + 2 * nat fn)) = Some r" by blast
    with fn False fits show ?thesis
      by (cases r) (auto simp: struct_field_def sproto_consts Let_def)
  qed
qed

section \<open>The arrays of a bundle\<close>

text \<open>An array on the wire: its size, then every element with its size.\<close>

definition wire_elem :: "bytes \<Rightarrow> bytes" where
  "wire_elem x = le32_put (of_nat (length x)) @ x"

definition wire_array :: "bytes list \<Rightarrow> bytes" where
  "wire_array xs = wire_elem (concat (map wire_elem xs))"

declare count_array_loop.simps [simp del]

lemma length_wire_elem [simp]: "length (wire_elem x) = 4 + length x"
  by (simp add: wire_elem_def)

lemma count_array_loop_elems:
  assumes "length (concat (map wire_elem xs)) < 2 ^ 32"
  shows "count_array_loop (pre @ concat (map wire_elem xs) @ post) (length pre)
    (of_nat (length (concat (map wire_elem xs)))) n = Some (n + int (length xs))"
  using assms
proof (induction xs arbitrary: pre n)
  case Nil
  then show ?case by (subst count_array_loop.simps) simp
next
  case (Cons x xs)
  let ?rest = "concat (map wire_elem xs)" and ?w = "of_nat (length x) :: u32"
  have len: "4 + length x + length ?rest < 2 ^ 32" using Cons.prems by simp
  have td: "todword (pre @ wire_elem x @ ?rest @ post) (length pre) = Some ?w"
    using todword_le32_put [of pre ?w "x @ ?rest @ post"] by (simp add: wire_elem_def)
  have u: "unat (?w + 4) = length x + 4" "unat (of_nat (4 + length x + length ?rest) :: u32) =
      4 + length x + length ?rest"
    using len by (simp_all add: unat_word_ariths unat_of_nat take_bit_nat_eq_self)
  have total: "length (concat (map wire_elem (x # xs))) = 4 + length x + length ?rest"
    by simp
  have conds: "of_nat (4 + length x + length ?rest) \<noteq> (0 :: u32)"
    "\<not> of_nat (4 + length x + length ?rest) < (4 :: u32)"
    "\<not> ?w + 4 > of_nat (4 + length x + length ?rest)"
    using u by (auto simp: word_less_nat_alt unat_eq_0)
  have rest: "of_nat (4 + length x + length ?rest) - (?w + 4) = (of_nat (length ?rest) :: u32)"
    by simp
  have "count_array_loop ((pre @ wire_elem x) @ ?rest @ post) (length (pre @ wire_elem x))
      (of_nat (length ?rest)) (n + 1) = Some (n + 1 + int (length xs))"
    using Cons.IH [of "pre @ wire_elem x" "n + 1"] len by simp
  then show ?case
    unfolding total
    by (subst count_array_loop.simps)
      (simp add: td conds rest u(1) del: of_nat_add, simp add: wire_elem_def add.commute add.left_commute)
qed

lemma count_array_stuck:
  assumes "count_array_loop m stream len n = Some r"
  shows "\<not> (4 \<le> len \<and> todword m stream = Some 0xfffffffc)"
proof (rule count_array_loop.raw_induct [where P = "\<lambda>m stream len n r. \<not> (4 \<le> len \<and>
      todword m stream = Some 0xfffffffc)", OF _ assms], rule notI)
  fix f m stream and len :: u32 and n r
  assume hyp: "\<And>m stream len n r. f m stream len n = Some r \<Longrightarrow>
      \<not> (4 \<le> len \<and> todword m stream = Some 0xfffffffc)"
    and body: "(if len = 0 then Some n else if len < 4 then Some (-1)
      else todword m stream \<bind> (\<lambda>nsz. if nsz + 4 > len then Some (-1)
        else f m (stream + unat (nsz + 4)) (len - (nsz + 4)) (n + 1))) = Some r"
    and a: "4 \<le> len \<and> todword m stream = Some 0xfffffffc"
  have z: "(0xfffffffc :: u32) + 4 = 0" by (simp add: word_eq_iff_unsigned)
  have td: "todword m stream = Some 0xfffffffc" using a ..
  have nl: "(len = 0) = False" "(len < 4) = False" "(len < 0) = False" using a by auto
  from body have "f m stream len (n + 1) = Some r"
    by (simp only: td z nl if_False Option.bind.simps unsigned_0 add_0_right diff_zero)
  from hyp [OF this] a show False by blast
qed

section \<open>Decimal precision\<close>

lemma calc_pow_step:
  "n \<noteq> 0 \<Longrightarrow> calc_pow base n = do {
     b \<leftarrow> c_int (base * base); r \<leftarrow> calc_pow b (n div 2); if odd n then c_int (r * base) else Some r }"
  by (subst calc_pow.simps) simp

lemma calc_pow_small: "n < 8 \<Longrightarrow> calc_pow 10 n = Some (10 ^ n)"
proof -
  assume "n < 8"
  then consider "n = 0" | "n = 1" | "n = 2" | "n = 3" | "n = 4" | "n = 5" | "n = 6" | "n = 7"
    by linarith
  then show ?thesis by cases (simp_all add: calc_pow.simps c_int_def)
qed

lemma calc_pow_large: "8 \<le> n \<Longrightarrow> calc_pow 10 n = None"
proof -
  assume "8 \<le> n"
  then have "n \<noteq> 0" "n div 2 \<noteq> 0" "n div 2 div 2 \<noteq> 0" "n div 2 div 2 div 2 \<noteq> 0"
    by linarith+
  then show ?thesis
    by (simp add: calc_pow_step [of n] calc_pow_step [of "n div 2"]
        calc_pow_step [of "n div 2 div 2"] calc_pow_step [of "n div 2 div 2 div 2"] c_int_def
        del: div_mult2_eq)
qed

section \<open>Imported schemas are well formed\<close>

definition field_ok :: "int \<Rightarrow> field \<Rightarrow> bool" where
  "field_ok type_n f \<longleftrightarrow> f_tag f \<ge> 0 \<and> f_name f \<noteq> None \<and>
     (\<forall>i. f_st f = Some i \<longrightarrow> int i < type_n) \<and>
     (f_type f \<in> {4, 0x84} \<longrightarrow> f_st f \<noteq> None) \<and>
     f_type f \<in> {0, 1, 2, 3, 4, 0x80, 0x81, 0x82, 0x83, 0x84}"

definition protocol_ok :: "int \<Rightarrow> protocol \<Rightarrow> bool" where
  "protocol_ok type_n p \<longleftrightarrow> pr_name p \<noteq> None \<and> pr_tag p \<ge> 0 \<and>
     (\<forall>i. pr_request p = Some i \<longrightarrow> int i < type_n) \<and> (\<forall>i. pr_response p = Some i \<longrightarrow> int i < type_n)"

definition schema_ok :: "sproto \<Rightarrow> bool" where
  "schema_ok s \<longleftrightarrow> s_type_n s = int (length (s_type s)) \<and> s_protocol_n s = int (length (s_proto s)) \<and>
     (\<forall>t\<in>set (s_type s). type_ok t \<and> t_name t \<noteq> None \<and> (\<forall>f\<in>set (t_f t). field_ok (s_type_n s) f)) \<and>
     (\<forall>p\<in>set (s_proto s). protocol_ok (s_type_n s) p)"

text \<open>The importers of a field, a type and a protocol change only the pool of the state.\<close>

definition same_schema :: "sproto \<Rightarrow> sproto \<Rightarrow> bool" where
  "same_schema s s' \<longleftrightarrow> (\<exists>mem. s' = s\<lparr>s_memory := mem\<rparr>)"

lemma same_schema_refl [simp]: "same_schema s s"
  by (auto simp: same_schema_def intro: exI [of _ "s_memory s"])

lemma same_schema_trans [trans]: "same_schema s s' \<Longrightarrow> same_schema s' s'' \<Longrightarrow> same_schema s s''"
  by (auto simp: same_schema_def)

lemma same_schema_memory [simp]: "same_schema s (s\<lparr>s_memory := mem\<rparr>)"
  by (auto simp: same_schema_def)

lemma same_schemaD:
  assumes "same_schema s s'"
  shows "s_type_n s' = s_type_n s" "s_protocol_n s' = s_protocol_n s" "s_type s' = s_type s"
    "s_proto s' = s_proto s"
  using assms by (auto simp: same_schema_def)

lemma import_string_schema: "import_string mal s m p = Some (str, s') \<Longrightarrow> same_schema s s'"
  by (auto simp: import_string_def split: Option.bind_splits prod.splits option.splits if_splits)

text \<open>While a field is imported: a struct has its type, every other field has none.\<close>

definition partial_field :: "int \<Rightarrow> field \<Rightarrow> bool" where
  "partial_field type_n f \<longleftrightarrow> (\<forall>i. f_st f = Some i \<longrightarrow> int i < type_n) \<and>
     (f_type f = 4 \<longrightarrow> f_st f \<noteq> None) \<and> f_type f \<in> {-1, 0, 1, 2, 3, 4}"

lemma import_field_case_ok:
  assumes "partial_field (s_type_n s) f" "arr \<in> {0, 0x80}" "0 \<le> value"
    "import_field_case s tag value (f, arr) = Some (Some (f', arr'))"
  shows "partial_field (s_type_n s) f' \<and> arr' \<in> {0, 0x80}"
proof -
  note res = assms(4) [unfolded import_field_case_def prod.case sproto_consts]
  consider "tag = 1" | "tag = 2" | "tag \<noteq> 1" "tag \<noteq> 2" by blast
  then show ?thesis
  proof cases
    case 1
    then have "value < 4" "f' = f\<lparr>f_type := value\<rparr>" "arr' = arr" using res by (auto split: if_splits)
    then show ?thesis using assms(1-3) by (auto simp: partial_field_def)
  next
    case 2
    then have "f_st f' = f_st f \<and> f_type f' = f_type f \<or> f_st f' = Some (nat value) \<and> f_type f' = 4 \<and>
        value < s_type_n s" "arr' = arr"
      using res by (auto split: if_splits Option.bind_splits)
    then show ?thesis using assms(1-3) by (auto simp: partial_field_def)
  next
    case 3
    then have "f_st f' = f_st f" "f_type f' = f_type f" "arr' = arr \<or> arr' = 0x80"
      using res by (auto split: if_splits)
    then show ?thesis using assms(1-3) by (auto simp: partial_field_def)
  qed
qed

lemma toword_nonneg: "toword m p = Some v \<Longrightarrow> 0 \<le> v"
  by (auto simp: toword_def split: Option.bind_splits)


lemma import_field_body_ok:
  assumes "partial_field (s_type_n s0) f" "arr \<in> {0, 0x80}" "same_schema s0 s"
    "import_field_body mal m stream fn i ((f, arr), tag, s) = Some (Some ((f', arr'), tag', s'))"
  shows "partial_field (s_type_n s0) f' \<and> arr' \<in> {0, 0x80} \<and> same_schema s0 s'"
proof -
  obtain v where v: "toword m (stream + SIZEOF_FIELD * i) = Some v" "0 \<le> v"
    using assms(4) toword_nonneg by (cases "toword m (stream + SIZEOF_FIELD * i)")
      (auto simp: import_field_body_def)
  note body = assms(4) [unfolded import_field_body_def prod.case Let_def v(1) Option.bind.simps]
  consider "odd v" | "even v" "tag + 1 = 0" | "even v" "tag + 1 \<noteq> 0" "v \<noteq> 0"
    using body by (cases "odd v"; cases "v = 0"; cases "tag + 1 = 0") auto
  then show ?thesis
  proof cases
    case 1
    then show ?thesis using body assms by auto
  next
    case 2
    then obtain str where "import_string mal s m (stream + fn * SIZEOF_FIELD) = Some (str, s')"
      "f' = f\<lparr>f_name := Some str\<rparr>" "arr' = arr"
      using body by (auto split: if_splits Option.bind_splits)
    then show ?thesis using assms import_string_schema same_schema_trans
      by (auto simp: partial_field_def)
  next
    case 3
    then have c: "import_field_case s (tag + 1) (v div 2 - 1) (f, arr) = Some (Some (f', arr'))" "s' = s"
      using body by (auto simp: bind_ret_eq_Some_Some)
    have "0 \<le> v div 2 - 1" using 3 v(2) by (auto elim!: evenE)
    then show ?thesis using c import_field_case_ok [of s f arr] assms same_schemaD(1) [OF assms(3)] by metis
  qed
qed

lemma import_field_ok:
  assumes "import_field mal s m p = Some (Some (r, f, s'))"
  shows "field_ok (s_type_n s) f \<and> same_schema s s'"
proof -
  let ?inv = "\<lambda>((f, arr), _ :: int, s1). partial_field (s_type_n s) f \<and> arr \<in> {0, 0x80} \<and> same_schema s s1"
  obtain fn stream f0 arr tag where
    loop: "for_ret (import_field_body mal m stream fn) [0..<fn] ((empty_field, 0), -1, s) =
      Some (Some ((f0, arr), tag, s'))" and
    f: "\<not> f_tag f0 < 0" "\<not> f_type f0 < 0" "f_name f0 \<noteq> None" "f = f0\<lparr>f_type := f_type f0 OR arr\<rparr>"
    using assms unfolding import_field_def Let_def
    by (auto simp: bind_ret_eq_Some_Some Option.bind_eq_Some_conv split: if_splits)
  have "?inv ((f0, arr), tag, s')"
  proof (rule for_ret_inv [where P = "\<lambda>_. ?inv", OF loop])
    fix x st st' assume "?inv st" and "import_field_body mal m stream fn x st = Some (Some st')"
    moreover obtain f1 a1 t1 s1 f2 a2 t2 s2 where "st = ((f1, a1), t1, s1)" "st' = ((f2, a2), t2, s2)"
      by (metis surj_pair)
    ultimately show "?inv st'"
      using import_field_body_ok [of s f1 a1 s1 mal m stream fn x t1 f2 a2 t2 s2] by simp
  qed (simp add: partial_field_def empty_field_def)
  then have p: "partial_field (s_type_n s) f0" "arr \<in> {0, 0x80}" "same_schema s s'" by simp_all
  then have "f_type f0 \<in> {0, 1, 2, 3, 4}" using f(2) by (auto simp: partial_field_def)
  moreover have "(0 :: int) OR 128 = 128" "(1 :: int) OR 128 = 129" "(2 :: int) OR 128 = 130"
    "(3 :: int) OR 128 = 131" "(4 :: int) OR 128 = 132" by simp_all
  ultimately show ?thesis using p f by (auto simp: field_ok_def partial_field_def)
qed

definition fields_inv :: "int \<Rightarrow> sproto \<Rightarrow> nat list \<Rightarrow> fields_state \<Rightarrow> bool" where
  "fields_inv n s ys st = (case st of (_, fs, maxn, lst, s') \<Rightarrow>
     length fs = length ys \<and> tags_ok (-1) fs \<and> lst = (if fs = [] then -1 else f_tag (last fs)) \<and>
     maxn = n + (tag_slots (-1) fs - int (length fs)) \<and> (\<forall>f\<in>set fs. field_ok (s_type_n s) f) \<and>
     same_schema s s')"

lemma import_fields_body_inv:
  assumes "fields_inv n s ys st" "import_fields_body mal m i st = Some (Some st')"
  shows "fields_inv n s (ys @ [i]) st'"
proof -
  obtain stream fs maxn lst s1 where st: "st = (stream, fs, maxn, lst, s1)" by (cases st)
  obtain stream' f s2 where f: "import_field mal s1 m stream = Some (Some (stream', f, s2))"
    "\<not> f_tag f \<le> lst"
    "st' = (stream', fs @ [f], if f_tag f > lst + 1 then maxn + 1 else maxn, f_tag f, s2)"
    using assms(2) unfolding st import_fields_body_def prod.case
    by (auto simp: bind_ret_eq_Some_Some split: if_splits)
  have "same_schema s s1" using assms(1) by (simp add: st fields_inv_def)
  then have "field_ok (s_type_n s) f" "same_schema s s2"
    using import_field_ok [OF f(1)] same_schemaD(1) same_schema_trans by metis+
  with assms(1) f show ?thesis
    by (auto simp: st fields_inv_def tags_ok_append tag_slots_append)
qed

lemma import_type_fields_ok:
  assumes "import_type_fields mal s t m p = Some (Some (t', s'))"
  shows "type_ok t' \<and> t_name t' = t_name t \<and> (\<forall>f\<in>set (t_f t'). field_ok (s_type_n s) f) \<and> same_schema s s'"
proof -
  obtain n mem ptr stream fs maxn lst f0 fl where n: "\<not> n < 0" and
    loop: "for_ret (import_fields_body mal m) [0..<nat n]
      (p + SIZEOF_LENGTH, [], n, -1, s\<lparr>s_memory := mem\<rparr>) = Some (Some (stream, fs, maxn, lst, s'))" and
    ends: "load fs 0 = Some f0" "load fs (nat n - 1) = Some fl" and
    t': "t' = t\<lparr>t_n := n, t_f := fs, t_maxn := maxn,
      t_base := type_base n f0 fl\<rparr>"
    using assms unfolding import_type_fields_def Let_def
    by (auto simp: bind_ret_eq_Some_Some Option.bind_eq_Some_conv split: if_splits prod.splits)
  have "fields_inv n s [0..<nat n] (stream, fs, maxn, lst, s')"
    by (rule for_ret_inv [where P = "fields_inv n s", OF loop])
      (simp_all add: import_fields_body_inv, simp add: fields_inv_def)
  then have inv: "length fs = nat n" "tags_ok (-1) fs" "maxn = tag_slots (-1) fs"
    "\<forall>f\<in>set fs. field_ok (s_type_n s) f" "same_schema s s'"
    using n by (simp_all add: fields_inv_def)
  have sorted: "sorted_wrt (<) (map f_tag fs)" using tags_ok_sorted [OF inv(2)] by simp
  have "f_tag (fs ! i) = f_tag f0 + int i"
    if "i < length fs" "f_tag fl - f_tag f0 + 1 = n" for i
    using ascending_contiguous [OF sorted, of i] that ends inv(1) n by (simp add: load_eq_Some_iff)
  then show ?thesis using inv n by (auto simp: t' type_ok_def type_base_def)
qed

lemma import_type_ok:
  assumes "import_type mal s m p = Some (Some (r, t, s'))"
  shows "type_ok t \<and> t_name t \<noteq> None \<and> (\<forall>f\<in>set (t_f t). field_ok (s_type_n s) f) \<and> same_schema s s'"
proof -
  obtain q str s1 where str: "import_string mal s m q = Some (str, s1)"
    and alt: "t = empty_type\<lparr>t_name := Some str\<rparr> \<and> s' = s1 \<or>
      (\<exists>q'. import_type_fields mal s1 (empty_type\<lparr>t_name := Some str\<rparr>) m q' =
        Some (Some (t, s')))"
    using assms unfolding import_type_def Let_def
    by (auto simp: bind_ret_eq_Some_Some Option.bind_eq_Some_conv split: if_splits)
  note s1 = import_string_schema [OF str]
  show ?thesis using alt
  proof
    assume "t = empty_type\<lparr>t_name := Some str\<rparr> \<and> s' = s1"
    then show ?thesis using s1 by (simp add: type_ok_def empty_type_def)
  next
    assume "\<exists>q'. import_type_fields mal s1 (empty_type\<lparr>t_name := Some str\<rparr>) m q' =
        Some (Some (t, s'))"
    then show ?thesis
      using import_type_fields_ok same_schemaD(1) [OF s1] same_schema_trans [OF s1] by fastforce
  qed
qed

definition partial_protocol :: "sproto \<Rightarrow> protocol \<times> sproto \<Rightarrow> bool" where
  "partial_protocol s0 ps \<longleftrightarrow> (\<forall>i. pr_request (fst ps) = Some i \<longrightarrow> int i < s_type_n s0) \<and>
     (\<forall>i. pr_response (fst ps) = Some i \<longrightarrow> int i < s_type_n s0) \<and> same_schema s0 (snd ps)"

lemma import_protocol_body_ok:
  assumes "partial_protocol s0 ps" "import_protocol_body mal m stream fn i ps = Some (Some ps')"
  shows "partial_protocol s0 ps'"
proof -
  obtain p s p' s' where ps: "ps = (p, s)" "ps' = (p', s')" by (metis surj_pair)
  have s: "same_schema s0 s" using assms(1) by (simp add: partial_protocol_def ps)
  have "same_schema s s' \<and>
      (pr_request p' = pr_request p \<or> (\<exists>v. pr_request p' = Some (nat v) \<and> 0 \<le> v \<and> v < s_type_n s)) \<and>
      (pr_response p' = pr_response p \<or> (\<exists>v. pr_response p' = Some (nat v) \<and> 0 \<le> v \<and> v < s_type_n s))"
    using assms(2) import_string_schema [of mal s m]
    unfolding ps import_protocol_body_def prod.case Let_def
    by (auto simp: Option.bind_eq_Some_conv split: if_splits)
  then show ?thesis
    using assms(1) same_schema_trans [OF s] same_schemaD(1) [OF s]
    by (auto simp: partial_protocol_def ps)
qed

lemma import_protocol_ok:
  assumes "import_protocol mal s m p = Some (Some (r, t, s'))"
  shows "protocol_ok (s_type_n s) t \<and> same_schema s s'"
proof -
  obtain fn stream where
    loop: "for_ret (import_protocol_body mal m stream fn) [0..<fn] (empty_protocol, s) =
      Some (Some (t, s'))" and t: "pr_name t \<noteq> None" "\<not> pr_tag t < 0"
    using assms unfolding import_protocol_def Let_def
    by (auto simp: bind_ret_eq_Some_Some Option.bind_eq_Some_conv split: if_splits)
  have "partial_protocol s (t, s')"
    by (rule for_ret_inv [where P = "\<lambda>_. partial_protocol s", OF loop])
      (simp_all only: import_protocol_body_ok, simp add: partial_protocol_def empty_protocol_def)
  with t show ?thesis by (simp add: protocol_ok_def partial_protocol_def)
qed

lemma import_types_loop_ok:
  assumes "for_ret (\<lambda>i (p, s). bind_ret (import_type mal s m p)
      (\<lambda>(p1, t, s1). Some (Some (p1, s1\<lparr>s_type := s_type s1 @ [t]\<rparr>)))) xs (p0, s0) = Some (Some (p, s))"
    "s_type s0 = []"
  shows "length (s_type s) = length xs \<and> s_type_n s = s_type_n s0 \<and> s_protocol_n s = s_protocol_n s0 \<and>
    s_proto s = s_proto s0 \<and>
    (\<forall>t\<in>set (s_type s). type_ok t \<and> t_name t \<noteq> None \<and> (\<forall>f\<in>set (t_f t). field_ok (s_type_n s) f))"
proof -
  let ?P = "\<lambda>ys ps. length (s_type (snd ps)) = length ys \<and> s_type_n (snd ps) = s_type_n s0 \<and>
    s_protocol_n (snd ps) = s_protocol_n s0 \<and> s_proto (snd ps) = s_proto s0 \<and>
    (\<forall>t\<in>set (s_type (snd ps)). type_ok t \<and> t_name t \<noteq> None \<and>
       (\<forall>f\<in>set (t_f t). field_ok (s_type_n s0) f))"
  have "?P xs (p, s)"
  proof (rule for_ret_inv [where P = ?P, OF assms(1)])
    fix ys x ps ps' assume P: "?P ys ps" and
      body: "(case ps of (p, s) \<Rightarrow> bind_ret (import_type mal s m p)
        (\<lambda>(p1, t, s1). Some (Some (p1, s1\<lparr>s_type := s_type s1 @ [t]\<rparr>)))) = Some (Some ps')"
    obtain p2 t s2 where t: "import_type mal (snd ps) m (fst ps) = Some (Some (p2, t, s2))"
      "ps' = (p2, s2\<lparr>s_type := s_type s2 @ [t]\<rparr>)"
      using body by (auto simp: bind_ret_eq_Some_Some split: prod.splits)
    have "same_schema (snd ps) s2" using import_type_ok [OF t(1)] by blast
    then show "?P (ys @ [x]) ps'"
      using P import_type_ok [OF t(1)] same_schemaD [of "snd ps" s2] t(2) by auto
  qed (use assms(2) in simp)
  then show ?thesis by simp
qed

lemma import_protos_loop_ok:
  assumes "for_ret (\<lambda>i (p, s). bind_ret (import_protocol mal s m p)
      (\<lambda>(p1, t, s1). Some (Some (p1, s1\<lparr>s_proto := s_proto s1 @ [t]\<rparr>)))) xs (p0, s0) = Some (Some (p, s))"
    "s_proto s0 = []"
  shows "length (s_proto s) = length xs \<and> s_type_n s = s_type_n s0 \<and> s_protocol_n s = s_protocol_n s0 \<and>
    s_type s = s_type s0 \<and> (\<forall>t\<in>set (s_proto s). protocol_ok (s_type_n s) t)"
proof -
  let ?P = "\<lambda>ys ps. length (s_proto (snd ps)) = length ys \<and> s_type_n (snd ps) = s_type_n s0 \<and>
    s_protocol_n (snd ps) = s_protocol_n s0 \<and> s_type (snd ps) = s_type s0 \<and>
    (\<forall>t\<in>set (s_proto (snd ps)). protocol_ok (s_type_n s0) t)"
  have "?P xs (p, s)"
  proof (rule for_ret_inv [where P = ?P, OF assms(1)])
    fix ys x ps ps' assume P: "?P ys ps" and
      body: "(case ps of (p, s) \<Rightarrow> bind_ret (import_protocol mal s m p)
        (\<lambda>(p1, t, s1). Some (Some (p1, s1\<lparr>s_proto := s_proto s1 @ [t]\<rparr>)))) = Some (Some ps')"
    obtain p2 t s2 where t: "import_protocol mal (snd ps) m (fst ps) = Some (Some (p2, t, s2))"
      "ps' = (p2, s2\<lparr>s_proto := s_proto s2 @ [t]\<rparr>)"
      using body by (auto simp: bind_ret_eq_Some_Some split: prod.splits)
    have "same_schema (snd ps) s2" using import_protocol_ok [OF t(1)] by blast
    then show "?P (ys @ [x]) ps'"
      using P import_protocol_ok [OF t(1)] same_schemaD [of "snd ps" s2] t(2) by auto
  qed (use assms(2) in simp)
  then show ?thesis by simp
qed

lemma bundle_loop_ok:
  assumes "for_ret (bundle_body mal m p) xs (c, td, pd, s0) = Some (Some (c', td', pd', s))"
    "0 \<le> s_type_n s0" "0 \<le> s_protocol_n s0"
  shows "0 \<le> s_type_n s \<and> 0 \<le> s_protocol_n s \<and> s_type s = s_type s0 \<and> s_proto s = s_proto s0"
proof -
  let ?P = "\<lambda>(c :: nat, td :: nat, pd :: nat, s). 0 \<le> s_type_n s \<and> 0 \<le> s_protocol_n s \<and>
    s_type s = s_type s0 \<and> s_proto s = s_proto s0"
  have "?P (c', td', pd', s)"
  proof (rule for_ret_inv [where P = "\<lambda>_. ?P", OF assms(1)])
    fix x st st' assume "?P st" "bundle_body mal m p x st = Some (Some st')"
    moreover obtain c td pd s1 where "st = (c, td, pd, s1)" by (cases st)
    ultimately show "?P st'"
      by (auto simp: bundle_body_def Option.bind_eq_Some_conv Let_def split: if_splits prod.splits)
  qed (use assms in simp)
  then show ?thesis by simp
qed

lemma create_from_bundle_ok:
  assumes "create_from_bundle mal s0 m sz = Some (Some s)"
    "s_type s0 = []" "s_proto s0 = []" "s_type_n s0 = 0" "s_protocol_n s0 = 0"
  shows "schema_ok s"
proof -
  obtain fn c td pd s1 p1 s2 p2 where
    l1: "for_ret (bundle_body mal m SIZEOF_HEADER) [0..<nat fn]
      (SIZEOF_HEADER + nat fn * SIZEOF_FIELD, 0, 0, s0) = Some (Some (c, td, pd, s1))" and
    l2: "for_ret (\<lambda>i (p, s). bind_ret (import_type mal s m p)
      (\<lambda>(p1, t, s1). Some (Some (p1, s1\<lparr>s_type := s_type s1 @ [t]\<rparr>)))) [0..<nat (s_type_n s1)] (td, s1) =
      Some (Some (p1, s2))" and
    l3: "for_ret (\<lambda>i (p, s). bind_ret (import_protocol mal s m p)
      (\<lambda>(p1, t, s1). Some (Some (p1, s1\<lparr>s_proto := s_proto s1 @ [t]\<rparr>)))) [0..<nat (s_protocol_n s2)] (pd, s2) =
      Some (Some (p2, s))"
    using assms(1) unfolding create_from_bundle_def
    by (auto simp: bind_ret_eq_Some_Some Option.bind_eq_Some_conv split: if_splits)
  note b1 = bundle_loop_ok [OF l1]
  have s1: "0 \<le> s_type_n s1" "0 \<le> s_protocol_n s1" "s_type s1 = []" "s_proto s1 = []"
    using b1 assms by simp_all
  note b2 = import_types_loop_ok [OF l2 s1(3)]
  have "s_proto s2 = []" using b2 s1 by simp
  from import_protos_loop_ok [OF l3 this] b2 s1 show ?thesis
    by (auto simp: schema_ok_def)
qed

section \<open>The pool never hands out a byte twice\<close>

text \<open>A run of successful allocations, with the blocks it returned: chunk, offset, size.\<close>

fun pool_allocs :: "malloc \<Rightarrow> pool \<Rightarrow> nat list \<Rightarrow> ((nat \<times> nat \<times> nat) list \<times> pool) option" where
  "pool_allocs mal p [] = Some ([], p)"
| "pool_allocs mal p (sz # szs) = (case pool_alloc mal p sz of
     (None, _) \<Rightarrow> None
   | (Some (c, off), p1) \<Rightarrow> do { (bs, p2) \<leftarrow> pool_allocs mal p1 szs; Some ((c, off, sz) # bs, p2) })"

definition blocks_apart :: "nat \<times> nat \<times> nat \<Rightarrow> nat \<times> nat \<times> nat \<Rightarrow> bool" where
  "blocks_apart b b' = (case b of (c, off, sz) \<Rightarrow> case b' of (c', off', sz') \<Rightarrow>
     c \<noteq> c' \<or> off + sz \<le> off' \<or> off' + sz' \<le> off)"

definition block_inside :: "pool \<Rightarrow> nat \<times> nat \<times> nat \<Rightarrow> bool" where
  "block_inside p b = (case b of (c, off, sz) \<Rightarrow>
     c < length (p_chunks p) \<and> off + sz \<le> rev (p_chunks p) ! c)"

definition pool_inv :: "pool \<Rightarrow> (nat \<times> nat \<times> nat) list \<Rightarrow> bool" where
  "pool_inv p bs \<longleftrightarrow> sorted_wrt blocks_apart bs \<and> (\<forall>b\<in>set bs. block_inside p b) \<and>
     (case p_current p of
        None \<Rightarrow> p_used p = 0
      | Some c \<Rightarrow> block_inside p (c, 0, CHUNK_SIZE) \<and> p_used p \<le> CHUNK_SIZE \<and>
          (\<forall>(c', off, sz)\<in>set bs. c' = c \<longrightarrow> off + sz \<le> p_used p))"

lemma block_inside_newchunk:
  "block_inside p b \<Longrightarrow> block_inside (p\<lparr>p_chunks := sz # p_chunks p\<rparr>) b"
  by (auto simp: block_inside_def nth_append)

lemma blocks_apart_newchunk:
  "block_inside p b \<Longrightarrow> blocks_apart b (length (p_chunks p), off, sz)"
  by (auto simp: block_inside_def blocks_apart_def)

lemma pool_inv_newchunk:
  assumes "pool_inv p bs" "pool_newchunk mal p csz = (Some (c, off), p1)" "sz \<le> csz"
  shows "pool_inv p1 (bs @ [(c, off, sz)])" "pool_inv p1 bs" "c = length (p_chunks p)" "off = 0"
    "p1 = p\<lparr>p_chunks := csz # p_chunks p\<rparr>"
proof -
  show p1: "p1 = p\<lparr>p_chunks := csz # p_chunks p\<rparr>" and c: "c = length (p_chunks p)" "off = 0"
    using assms(2) by (auto simp: pool_newchunk_def split: if_splits)
  show "pool_inv p1 (bs @ [(c, off, sz)])"
    using assms(1,3) block_inside_newchunk [of p _ csz] blocks_apart_newchunk [of p]
    unfolding pool_inv_def p1 c
    by (auto simp: sorted_wrt_append split: option.splits)
      (auto simp: block_inside_def nth_append)
  then show "pool_inv p1 bs"
    by (auto simp: pool_inv_def sorted_wrt_append split: option.splits)
qed

lemma pool_inv_bump:
  assumes "pool_inv p bs" "p_current p = Some c" "p_used p + sz' \<le> CHUNK_SIZE" "sz \<le> sz'"
  shows "pool_inv (p\<lparr>p_used := p_used p + sz'\<rparr>) (bs @ [(c, p_used p, sz)])"
  using assms
  by (auto simp: pool_inv_def block_inside_def blocks_apart_def sorted_wrt_append)

lemma pool_inv_switch:
  assumes "pool_inv p bs" "sz \<le> sz'" "sz' \<le> CHUNK_SIZE"
  shows "pool_inv (p\<lparr>p_chunks := CHUNK_SIZE # p_chunks p, p_current := Some (length (p_chunks p)),
    p_used := sz'\<rparr>) (bs @ [(length (p_chunks p), 0, sz)])"
proof -
  have "b \<in> set bs \<Longrightarrow> fst b < length (p_chunks p)" for b
    using assms(1) by (auto simp: pool_inv_def block_inside_def)
  then show ?thesis
    using assms block_inside_newchunk [of p _ CHUNK_SIZE] blocks_apart_newchunk [of p]
    by (fastforce simp: pool_inv_def sorted_wrt_append block_inside_def nth_append)
qed

lemma pool_alloc_current_inv:
  assumes "pool_inv p bs" "p_current p \<noteq> None" "sz' < CHUNK_SIZE" "sz \<le> sz'"
    "pool_alloc_current mal p sz' = (Some (c, off), p1)"
  shows "pool_inv p1 (bs @ [(c, off, sz)])"
proof -
  obtain cc where cc: "p_current p = Some cc" using assms(2) by auto
  note eq = assms(5) [unfolded pool_alloc_current_def cc option.case Let_def]
  consider "sz' + p_used p \<le> CHUNK_SIZE"
    | "\<not> sz' + p_used p \<le> CHUNK_SIZE" "p_used p \<le> sz'"
    | "\<not> sz' + p_used p \<le> CHUNK_SIZE" "\<not> p_used p \<le> sz'" by blast
  then show ?thesis
  proof cases
    case 1
    with eq have "c = cc" "off = p_used p" "p1 = p\<lparr>p_used := p_used p + sz'\<rparr>" by auto
    then show ?thesis using pool_inv_bump [OF assms(1) cc _ assms(4)] 1 by (simp add: add.commute)
  next
    case 2
    with eq have "pool_newchunk mal p sz' = (Some (c, off), p1)" by simp
    then show ?thesis using pool_inv_newchunk(1) [OF assms(1) _ assms(4)] by blast
  next
    case 3
    with eq have "c = length (p_chunks p)" "off = 0"
      "p1 = p\<lparr>p_chunks := CHUNK_SIZE # p_chunks p, p_current := Some (length (p_chunks p)), p_used := sz'\<rparr>"
      by (auto simp: pool_newchunk_def split: if_splits)
    then show ?thesis using pool_inv_switch [OF assms(1,4)] assms(3) by simp
  qed
qed

lemma pool_alloc_inv:
  assumes inv: "pool_inv p bs" and alloc: "pool_alloc mal p sz = (Some (c, off), p1)"
  shows "pool_inv p1 (bs @ [(c, off, sz)])"
proof -
  let ?sz = "(sz + 7) div 8 * 8"
  have le: "sz \<le> ?sz" by linarith
  note eq = alloc [unfolded pool_alloc_def Let_def]
  show ?thesis
  proof (cases "?sz \<ge> CHUNK_SIZE")
    case True
    with eq show ?thesis using pool_inv_newchunk(1) [OF inv _ le] by simp
  next
    case small: False
    show ?thesis
    proof (cases "p_current p")
      case None
      with eq small obtain c1 off1 p2 where nc: "pool_newchunk mal p CHUNK_SIZE = (Some (c1, off1), p2)"
        and cur: "pool_alloc_current mal (p2\<lparr>p_current := Some (length (p_chunks p2) - 1)\<rparr>) ?sz =
          (Some (c, off), p1)"
        by (auto split: prod.splits option.splits)
      have p2: "pool_inv p2 bs" "p2 = p\<lparr>p_chunks := CHUNK_SIZE # p_chunks p\<rparr>"
        using pool_inv_newchunk(2,5) [OF inv nc, of 0] by simp_all
      have "fst b \<noteq> length (p_chunks p)" if "b \<in> set bs" for b
        using inv that by (auto simp: pool_inv_def block_inside_def)
      then have "pool_inv (p2\<lparr>p_current := Some (length (p_chunks p2) - 1)\<rparr>) bs"
        using p2 None by (fastforce simp: pool_inv_def block_inside_def nth_append)
      from pool_alloc_current_inv [OF this _ _ le cur] small show ?thesis by simp
    next
      case (Some a)
      with eq small show ?thesis using pool_alloc_current_inv [OF inv _ _ le] by simp
    qed
  qed
qed

lemma pool_allocs_inv:
  "pool_inv p bs0 \<Longrightarrow> pool_allocs mal p szs = Some (bs, p') \<Longrightarrow> pool_inv p' (bs0 @ bs)"
proof (induction szs arbitrary: p bs0 bs)
  case Nil
  then show ?case by simp
next
  case (Cons sz szs)
  obtain c off p1 bs1 where "pool_alloc mal p sz = (Some (c, off), p1)"
    "pool_allocs mal p1 szs = Some (bs1, p')" "bs = (c, off, sz) # bs1"
    using Cons.prems(2) by (auto simp: Option.bind_eq_Some_conv split: prod.splits option.splits)
  with Cons.IH [of p1 "bs0 @ [(c, off, sz)]" bs1] pool_alloc_inv [OF Cons.prems(1)] show ?case by simp
qed

section \<open>Properties\<close>

text \<open>A bundle with one type \<open>T\<close> (one integer field \<open>f\<close> of tag 0) and one protocol \<open>p\<close> of tag 1.\<close>

definition sample_bundle :: bytes where
  "sample_bundle = [2, 0, 0, 0, 0, 0, 38, 0, 0, 0, 34, 0, 0, 0, 2, 0, 0, 0, 0, 0, 1, 0, 0, 0, 84, 19, 0, 0, 0,
     15, 0, 0, 0, 4, 0, 0, 0, 2, 0, 1, 0, 2, 0, 1, 0, 0, 0, 102, 15, 0, 0, 0, 11, 0, 0, 0, 2,
     0, 0, 0, 4, 0, 1, 0, 0, 0, 112]"

definition sample_type :: sproto_type where
  "sample_type = \<lparr>t_name = Some [84], t_n = 1, t_base = 0, t_maxn = 1,
     t_f = [\<lparr>f_tag = 0, f_type = 0, f_name = Some [102], f_st = None, f_key = -1, f_map = -1,
       f_extra = 0\<rparr>]\<rparr>"

definition sample_schema :: sproto where
  "sample_schema = \<lparr>s_memory = \<lparr>p_chunks = [1000], p_current = Some 0, p_used = 176\<rparr>, s_type_n = 1,
     s_protocol_n = 1, s_type = [sample_type],
     s_proto = [\<lparr>pr_name = Some [112], pr_tag = 1, pr_confirm = 0, pr_request = None,
       pr_response = None\<rparr>]\<rparr>"

lemma sample_create:
  "sproto_create (\<lambda>_ _. True) sample_bundle (length sample_bundle) = Some (Some sample_schema)"
  by code_simp

text \<open>
  C11. Every schema \<open>sproto_create\<close> returns is well formed: the tags of a type ascend, \<open>maxn\<close> counts
  the header slots, \<open>base\<close> is set only for consecutive tags, and no field or protocol refers to
  a type that does not exist.
\<close>

theorem sproto_create_wf:
  assumes "sproto_create mal m sz = Some (Some s)"
  shows "schema_ok s"
  using assms create_from_bundle_ok [where mal = mal and m = m and sz = sz]
  by (auto simp: sproto_create_def split: prod.splits option.splits)

theorem sproto_create_wf_witness: "schema_ok sample_schema"
  by (rule sproto_create_wf [OF sample_create])

text \<open>
  C12. \<open>findtag\<close>, direct index or binary search, finds on every well-formed type exactly the field
  that has the tag, and reads no field outside the array.
\<close>

theorem findtag_correct:
  assumes "type_ok t"
  shows "findtag t tag = Some (find (\<lambda>f. f_tag f = tag) (t_f t))"
  by (rule findtag_find [OF assms])

theorem findtag_correct_witness: "findtag sample_type 0 = Some (Some (hd (t_f sample_type)))"
  using findtag_correct [of sample_type 0] by (simp add: sample_type_def type_ok_def)

text \<open>
  C13. On a schema whose protocols are sorted by tag, as the schema compiler emits them,
  \<open>query_proto\<close> finds exactly the protocol with the tag.
\<close>

theorem query_proto_correct:
  assumes "s_protocol_n s = int (length (s_proto s))" "sorted_wrt (<) (map pr_tag (s_proto s))"
  shows "query_proto s tag = Some (find (\<lambda>p. pr_tag p = tag) (s_proto s))"
  using tag_search_find [OF assms(2), of tag] assms(1) by (simp add: query_proto_def)

theorem query_proto_correct_witness:
  "query_proto sample_schema 1 = Some (Some (hd (s_proto sample_schema)))"
  using query_proto_correct [of sample_schema 1] by (simp add: sample_schema_def)

text \<open>
  C14. \<open>struct_field\<close> reads only the \<open>sz\<close> bytes it is given, on any input, and a number of fields it
  accepts has its field table inside them.
\<close>

theorem struct_field_safe:
  assumes "stream + sz \<le> length m"
  shows "\<exists>fn. struct_field m stream sz = Some fn \<and>
    (fn = -1 \<or> 0 \<le> fn \<and> fn < 65536 \<and> 2 + 2 * nat fn \<le> sz)"
  by (rule struct_field_total [OF assms])

theorem struct_field_safe_witness:
  "\<exists>fn. struct_field [1, 0, 0, 0, 9, 0, 0, 0] 0 8 = Some fn \<and>
    (fn = -1 \<or> 0 \<le> fn \<and> fn < 65536 \<and> 2 + 2 * nat fn \<le> 8)"
  by (rule struct_field_safe) simp

text \<open>\<open>count_array\<close> returns the number of elements of every array on the wire that fits 32 bits.\<close>

theorem count_array_counts:
  assumes "length (concat (map wire_elem xs)) < 2 ^ 32"
  shows "count_array (pre @ wire_array xs @ post) (length pre) = Some (int (length xs))"
proof -
  let ?e = "concat (map wire_elem xs)"
  have "todword (pre @ wire_array xs @ post) (length pre) = Some (of_nat (length ?e))"
    using todword_le32_put [of pre "of_nat (length ?e)" "?e @ post"]
    by (simp add: wire_array_def wire_elem_def [of ?e])
  then show ?thesis
    using count_array_loop_elems [OF assms, of "pre @ le32_put (of_nat (length ?e))" post 0]
    by (simp add: count_array_def wire_array_def wire_elem_def [of ?e] SIZEOF_LENGTH_def)
qed

theorem count_array_counts_witness: "count_array ([7] @ wire_array [[1, 2], []] @ [9]) 1 = Some 2"
  using count_array_counts [of "[[1, 2], []]" "[7]" "[9]"] by simp

text \<open>
  C15. \<open>count_array\<close> never returns on an array whose first element claims the size 0xfffffffc: the
  32-bit sum \<open>nsz + SIZEOF_LENGTH\<close> is 0 and the loop makes no progress.
\<close>

theorem count_array_diverges:
  assumes "todword m p = Some len" "4 \<le> len" "todword m (p + 4) = Some 0xfffffffc"
  shows "count_array m p = None"
  using count_array_stuck [of m "p + 4" len 0] assms
  by (cases "count_array_loop m (p + 4) len 0") (auto simp: count_array_def SIZEOF_LENGTH_def)

theorem count_array_diverges_witness:
  "count_array [4, 0, 0, 0, 0xfc, 0xff, 0xff, 0xff] 0 = None"
proof (rule count_array_diverges)
  show "todword [4, 0, 0, 0, 0xfc, 0xff, 0xff, 0xff] 0 = Some 4"
    "todword [4, 0, 0, 0, 0xfc, 0xff, 0xff, 0xff] (0 + 4) = Some 0xfffffffc" by code_simp+
qed simp

text \<open>
  C16. However many blocks the pool hands out, of whatever sizes, every one lies inside its chunk
  and no two overlap.
\<close>

theorem pool_blocks_disjoint:
  assumes "pool_allocs mal pool_init szs = Some (bs, p)"
  shows "(\<forall>b\<in>set bs. block_inside p b) \<and> sorted_wrt blocks_apart bs"
  using pool_allocs_inv [of pool_init "[]" mal szs bs p] assms
  by (simp add: pool_inv_def pool_init_def)

theorem pool_blocks_disjoint_witness:
  "sorted_wrt blocks_apart [(0, 0, 600), (1, 0, 700), (0, 600, 10), (2, 0, 2000), (0, 616, 5)]"
proof -
  have "pool_allocs (\<lambda>_ _. True) pool_init [600, 700, 10, 2000, 5] =
      Some ([(0, 0, 600), (1, 0, 700), (0, 600, 10), (2, 0, 2000), (0, 616, 5)],
        \<lparr>p_chunks = [2000, 704, 1000], p_current = Some 0, p_used = 624\<rparr>)"
    by code_simp
  from pool_blocks_disjoint [OF this] show ?thesis ..
qed

text \<open>
  \<open>calc_pow\<close> gives the scale of a decimal field exactly up to seven places; with eight or more
  the squaring of the base overflows \<open>int\<close>.
\<close>

theorem calc_pow_exact: "calc_pow 10 n = (if n < 8 then Some (10 ^ n) else None)"
  by (simp add: calc_pow_small calc_pow_large)

end
