(* ===== verification/Ring_Buffer.thy ===== *)
theory Ring_Buffer
  imports Fengnet_Prelude
begin

text \<open>
  What the two growing ring buffers of the program share (the message queue of a service in
  \<^verbatim>\<open>fengnet_mq.cpp\<close> and the package queue of \<^verbatim>\<open>lua-netpack.cpp\<close>): the list a ring holds, the
  effect of writing at the tail, reading at the head and unrolling into a larger buffer, and the
  interface \<open>fifo_queue\<close> both are proved to implement. Clients rely on \<open>fifo_queue\<close> only.
\<close>

section \<open>The contents of a ring\<close>

definition ring_len :: "nat \<Rightarrow> nat \<Rightarrow> nat \<Rightarrow> nat" where
  "ring_len h t cap = (if h \<le> t then t - h else t + cap - h)"

definition ring_list :: "'a list \<Rightarrow> nat \<Rightarrow> nat \<Rightarrow> 'a list" where
  "ring_list buf h n = map (\<lambda>i. buf ! ((h + i) mod length buf)) [0..<n]"

lemma length_ring_list [simp]: "length (ring_list buf h n) = n"
  by (simp add: ring_list_def)

lemma ring_list_0 [simp]: "ring_list buf h 0 = []"
  by (simp add: ring_list_def)

lemma ring_len_less: "h < cap \<Longrightarrow> t < cap \<Longrightarrow> ring_len h t cap < cap"
  by (auto simp: ring_len_def)

lemma ring_len_eq_0: "h < cap \<Longrightarrow> t < cap \<Longrightarrow> ring_len h t cap = 0 \<longleftrightarrow> h = t"
  by (auto simp: ring_len_def)

lemma ring_tail: "h < cap \<Longrightarrow> t < cap \<Longrightarrow> (h + ring_len h t cap) mod cap = t"
  by (auto simp: ring_len_def)

lemma ring_index_neq:
  "h < cap \<Longrightarrow> i < n \<Longrightarrow> n < cap \<Longrightarrow> (h + i) mod cap \<noteq> (h + n) mod (cap :: nat)"
  by (auto simp: mod_if)

lemma ring_list_push:
  assumes "h < length buf" "n < length buf"
  shows "ring_list (buf[(h + n) mod length buf := x]) h (Suc n) = ring_list buf h n @ [x]"
proof -
  have "buf[(h + n) mod length buf := x] ! ((h + i) mod length buf) = buf ! ((h + i) mod length buf)"
    if "i < n" for i
    using ring_index_neq [OF assms(1) that assms(2)] by simp
  moreover have "(h + n) mod length buf < length buf" using assms by (intro mod_less_divisor) auto
  ultimately show ?thesis by (simp add: ring_list_def)
qed

lemma ring_list_pop:
  "h < length buf \<Longrightarrow>
   ring_list buf h (Suc n) = buf ! h # ring_list buf (Suc h mod length buf) n"
  by (simp add: ring_list_def upt_conv_Cons map_Suc_upt [symmetric] mod_add_left_eq del: upt_Suc)

lemma ring_list_straight: "ring_list (ys @ zs) 0 (length ys) = ys"
  by (auto simp: ring_list_def nth_append intro!: nth_equalityI)

lemma ring_len_push:
  "h < cap \<Longrightarrow> t < cap \<Longrightarrow> h \<noteq> Suc t mod cap \<Longrightarrow>
   ring_len h (Suc t mod cap) cap = Suc (ring_len h t cap)"
  by (auto simp: ring_len_def mod_if split: if_splits)

lemma ring_len_full:
  "h < cap \<Longrightarrow> t < cap \<Longrightarrow> h = Suc t mod cap \<Longrightarrow> Suc (ring_len h t cap) = cap"
  by (auto simp: ring_len_def mod_if split: if_splits)

lemma ring_len_pop:
  "h < cap \<Longrightarrow> t < cap \<Longrightarrow> h \<noteq> t \<Longrightarrow>
   ring_len h t cap = Suc (ring_len (Suc h mod cap) t cap)"
  by (auto simp: ring_len_def mod_if split: if_splits)

text \<open>The \<open>if (++x >= cap) x = 0\<close> of the code is the increment modulo the capacity.\<close>

lemma wrap_increment: "x < cap \<Longrightarrow> (if x + 1 \<ge> cap then 0 else x + 1) = Suc x mod cap"
  by (auto simp: mod_if)

section \<open>The queue interface\<close>

datatype 'a queue_op = Enq 'a | Deq

text \<open>A sequence of operations on a queue, with the result of each \<open>Deq\<close>, and its specification on lists.\<close>

fun run_ops ::
  "('q \<Rightarrow> 'a \<Rightarrow> 'q option) \<Rightarrow> ('q \<Rightarrow> ('a option \<times> 'q) option) \<Rightarrow> 'a queue_op list \<Rightarrow> 'q
   \<Rightarrow> ('a option list \<times> 'q) option" where
  "run_ops enq deq [] q = Some ([], q)"
| "run_ops enq deq (Enq x # ops) q = do { q' \<leftarrow> enq q x; run_ops enq deq ops q' }"
| "run_ops enq deq (Deq # ops) q = do {
     (r, q') \<leftarrow> deq q;
     (rs, q'') \<leftarrow> run_ops enq deq ops q';
     Some (r # rs, q'')
   }"

fun spec_ops :: "'a queue_op list \<Rightarrow> 'a list \<Rightarrow> 'a option list \<times> 'a list" where
  "spec_ops [] xs = ([], xs)"
| "spec_ops (Enq x # ops) xs = spec_ops ops (xs @ [x])"
| "spec_ops (Deq # ops) [] = (let (rs, ys) = spec_ops ops [] in (None # rs, ys))"
| "spec_ops (Deq # ops) (x # xs) = (let (rs, ys) = spec_ops ops xs in (Some x # rs, ys))"

locale fifo_queue =
  fixes enq :: "'q \<Rightarrow> 'a \<Rightarrow> 'q option"
    and deq :: "'q \<Rightarrow> ('a option \<times> 'q) option"
    and contents :: "'q \<Rightarrow> 'a list"
    and invar :: "'q \<Rightarrow> bool"
  assumes enq_ok: "invar q \<Longrightarrow> \<exists>q'. enq q x = Some q' \<and> invar q' \<and> contents q' = contents q @ [x]"
    and deq_empty: "invar q \<Longrightarrow> contents q = [] \<Longrightarrow>
      \<exists>q'. deq q = Some (None, q') \<and> invar q' \<and> contents q' = []"
    and deq_cons: "invar q \<Longrightarrow> contents q = x # xs \<Longrightarrow>
      \<exists>q'. deq q = Some (Some x, q') \<and> invar q' \<and> contents q' = xs"
begin

lemma run_refines_spec:
  "invar q \<Longrightarrow>
   \<exists>q'. run_ops enq deq ops q = Some (fst (spec_ops ops (contents q)), q') \<and> invar q' \<and>
     contents q' = snd (spec_ops ops (contents q))"
proof (induction ops arbitrary: q)
  case Nil
  then show ?case by simp
next
  case (Cons oper ops)
  show ?case
  proof (cases oper)
    case (Enq x)
    obtain q' where "enq q x = Some q'" "invar q'" "contents q' = contents q @ [x]"
      using enq_ok [OF Cons.prems] by blast
    with Cons.IH [of q'] Enq show ?thesis by auto
  next
    case Deq
    show ?thesis
    proof (cases "contents q")
      case Nil
      with deq_empty [OF Cons.prems] obtain q' where
        "deq q = Some (None, q')" "invar q'" "contents q' = []" by blast
      with Cons.IH [of q'] Deq Nil show ?thesis by (auto split: prod.splits)
    next
      case c: (Cons x xs)
      with deq_cons [OF Cons.prems] obtain q' where
        "deq q = Some (Some x, q')" "invar q'" "contents q' = xs" by blast
      with Cons.IH [of q'] Deq c show ?thesis by (auto split: prod.splits)
    qed
  qed
qed

end

end
