(* ===== verification/Message_Queue.thy ===== *)
theory Message_Queue
  imports Ring_Buffer
begin

text \<open>
  The message queues of \<^verbatim>\<open>fengnet-src/fengnet_mq.cpp\<close>: every service has a growing ring buffer
  of messages, and the queues that have work are chained through \<open>next\<close> into one global queue,
  from which the worker threads take them.

  A queue is an object with identity, so the model has an explicit store from references to
  queues. Every function body runs under the spin lock of the queue it works on (the global queue
  has its own), so each is one atomic step. \<open>None\<close> is a failed \<open>assert\<close>, a dangling pointer, or
  the overload loop of \<open>fengnet_mq_pop\<close> running for ever. The \<open>int\<close> indices of the ring are
  natural numbers; the doubling of the capacity past \<open>INT_MAX\<close> is not modelled.
\<close>

section \<open>Data\<close>

type_synonym mqref = nat
type_synonym ptr = nat

record fengnet_message =
  m_source :: u32
  m_session :: int
  m_data :: ptr
  m_sz :: u64

definition zero_message :: fengnet_message where
  "zero_message = \<lparr>m_source = 0, m_session = 0, m_data = 0, m_sz = 0\<rparr>"

record message_queue =
  q_handle :: u32
  q_cap :: nat
  q_head :: nat
  q_tail :: nat
  q_release :: int
  q_in_global :: int
  q_overload :: int
  q_threshold :: int
  q_queue :: "fengnet_message list"
  q_next :: "mqref option"

text \<open>\<open>mqs\<close> is the heap of message queues; \<open>gq_head\<close> and \<open>gq_tail\<close> are the \<open>global_queue\<close>.\<close>

record mq_state =
  mqs :: "mqref \<rightharpoonup> message_queue"
  gq_head :: "mqref option"
  gq_tail :: "mqref option"

definition DEFAULT_QUEUE_SIZE :: nat where "DEFAULT_QUEUE_SIZE = 64"
definition MQ_IN_GLOBAL :: int where "MQ_IN_GLOBAL = 1"
definition MQ_OVERLOAD :: int where "MQ_OVERLOAD = 1024"

abbreviation upd_mq :: "mqref \<Rightarrow> message_queue \<Rightarrow> mq_state \<Rightarrow> mq_state" where
  "upd_mq r q st \<equiv> st\<lparr>mqs := (mqs st)(r \<mapsto> q)\<rparr>"

section \<open>Operations\<close>

definition fengnet_mq_init :: mq_state where
  "fengnet_mq_init = \<lparr>mqs = Map.empty, gq_head = None, gq_tail = None\<rparr>"

definition fengnet_globalmq_push :: "mqref \<Rightarrow> mq_state \<Rightarrow> mq_state option" where
  "fengnet_globalmq_push r st = do {
     q \<leftarrow> mqs st r;
     if q_next q \<noteq> None then None
     else (case gq_tail st of
             Some t \<Rightarrow> do {
               tq \<leftarrow> mqs st t;
               Some ((upd_mq t (tq\<lparr>q_next := Some r\<rparr>) st)\<lparr>gq_tail := Some r\<rparr>)
             }
           | None \<Rightarrow> Some (st\<lparr>gq_head := Some r, gq_tail := Some r\<rparr>))
   }"

definition fengnet_globalmq_pop :: "mq_state \<Rightarrow> (mqref option \<times> mq_state) option" where
  "fengnet_globalmq_pop st = (case gq_head st of
     None \<Rightarrow> Some (None, st)
   | Some r \<Rightarrow> do {
       q \<leftarrow> mqs st r;
       let st1 = st\<lparr>gq_head := q_next q\<rparr>;
       if q_next q = None \<and> gq_tail st \<noteq> Some r then None
       else do {
         let st2 = (if q_next q = None then st1\<lparr>gq_tail := None\<rparr> else st1);
         Some (Some r, upd_mq r (q\<lparr>q_next := None\<rparr>) st2)
       }
     })"

text \<open>\<open>new message_queue()\<close> at the address \<open>r\<close>, which the allocator returns.\<close>

definition fengnet_mq_create :: "mqref \<Rightarrow> u32 \<Rightarrow> mq_state \<Rightarrow> mq_state" where
  "fengnet_mq_create r h st =
     upd_mq r \<lparr>q_handle = h, q_cap = DEFAULT_QUEUE_SIZE, q_head = 0, q_tail = 0, q_release = 0,
       q_in_global = MQ_IN_GLOBAL, q_overload = 0, q_threshold = MQ_OVERLOAD,
       q_queue = replicate DEFAULT_QUEUE_SIZE zero_message, q_next = None\<rparr> st"

definition mq_release_private :: "mqref \<Rightarrow> mq_state \<Rightarrow> mq_state option" where
  "mq_release_private r st = do {
     q \<leftarrow> mqs st r;
     if q_next q \<noteq> None then None else Some (st\<lparr>mqs := (mqs st)(r := None)\<rparr>)
   }"

definition fengnet_mq_mark_release :: "mqref \<Rightarrow> mq_state \<Rightarrow> mq_state option" where
  "fengnet_mq_mark_release r st = do {
     q \<leftarrow> mqs st r;
     if q_release q \<noteq> 0 then None
     else do {
       let st1 = upd_mq r (q\<lparr>q_release := 1\<rparr>) st;
       if q_in_global q \<noteq> MQ_IN_GLOBAL then fengnet_globalmq_push r st1 else Some st1
     }
   }"

text \<open>The \<open>while\<close> of \<open>fengnet_mq_pop\<close>; it would never end on a threshold that is not positive.\<close>

partial_function (option) overload_loop :: "int \<Rightarrow> int \<Rightarrow> int \<Rightarrow> (int \<times> int) option" where
  "overload_loop len ovl thr =
     (if len > thr then overload_loop len len (thr * 2) else Some (ovl, thr))"

text \<open>
  The ring part of \<open>fengnet_mq_pop\<close>: the message (none when the queue is empty, where the code
  returns 1) and the queue afterwards.
\<close>

definition mq_dequeue :: "message_queue \<Rightarrow> (fengnet_message option \<times> message_queue) option" where
  "mq_dequeue q =
     (if q_head q \<noteq> q_tail q then do {
        msg \<leftarrow> load (q_queue q) (q_head q);
        let hd1 = (if q_head q + 1 \<ge> q_cap q then 0 else q_head q + 1);
        let len = int (q_tail q) - int hd1;
        let len = (if len < 0 then len + int (q_cap q) else len);
        (ovl, thr) \<leftarrow> overload_loop len (q_overload q) (q_threshold q);
        Some (Some msg, q\<lparr>q_head := hd1, q_overload := ovl, q_threshold := thr\<rparr>)
      } else Some (None, q\<lparr>q_threshold := MQ_OVERLOAD, q_in_global := 0\<rparr>))"

definition fengnet_mq_pop ::
  "mqref \<Rightarrow> mq_state \<Rightarrow> (fengnet_message option \<times> mq_state) option" where
  "fengnet_mq_pop r st = do {
     q \<leftarrow> mqs st r;
     (msg, q') \<leftarrow> mq_dequeue q;
     Some (msg, upd_mq r q' st)
   }"

definition expand_queue :: "message_queue \<Rightarrow> message_queue" where
  "expand_queue q = q\<lparr>
     q_queue := map (\<lambda>i. q_queue q ! ((q_head q + i) mod q_cap q)) [0..<q_cap q] @
       replicate (q_cap q) zero_message,
     q_head := 0, q_tail := q_cap q, q_cap := q_cap q * 2\<rparr>"

definition mq_enqueue :: "message_queue \<Rightarrow> fengnet_message \<Rightarrow> message_queue option" where
  "mq_enqueue q msg = do {
     buf \<leftarrow> store (q_queue q) (q_tail q) msg;
     let q1 = q\<lparr>q_queue := buf, q_tail := (if q_tail q + 1 \<ge> q_cap q then 0 else q_tail q + 1)\<rparr>;
     Some (if q_head q1 = q_tail q1 then expand_queue q1 else q1)
   }"

definition fengnet_mq_push :: "mqref \<Rightarrow> fengnet_message \<Rightarrow> mq_state \<Rightarrow> mq_state option" where
  "fengnet_mq_push r msg st = do {
     q \<leftarrow> mqs st r;
     q1 \<leftarrow> mq_enqueue q msg;
     if q_in_global q1 = 0
     then fengnet_globalmq_push r (upd_mq r (q1\<lparr>q_in_global := MQ_IN_GLOBAL\<rparr>) st)
     else Some (upd_mq r q1 st)
   }"

definition fengnet_mq_handle :: "mqref \<Rightarrow> mq_state \<Rightarrow> u32 option" where
  "fengnet_mq_handle r st = map_option q_handle (mqs st r)"

definition mq_length :: "message_queue \<Rightarrow> nat" where
  "mq_length q = (if q_head q \<le> q_tail q then q_tail q - q_head q else q_tail q + q_cap q - q_head q)"

definition fengnet_mq_length :: "mqref \<Rightarrow> mq_state \<Rightarrow> nat option" where
  "fengnet_mq_length r st = map_option mq_length (mqs st r)"

definition fengnet_mq_overload :: "mqref \<Rightarrow> mq_state \<Rightarrow> (int \<times> mq_state) option" where
  "fengnet_mq_overload r st = do {
     q \<leftarrow> mqs st r;
     if q_overload q \<noteq> 0 then Some (q_overload q, upd_mq r (q\<lparr>q_overload := 0\<rparr>) st)
     else Some (0, st)
   }"

text \<open>
  \<open>_drop_queue\<close> pops until the queue is empty, hands each message to \<open>drop_func\<close> and frees
  the queue. \<open>drop_func\<close> is the caller's callback, a parameter here, which may itself send
  messages and so change other queues; the result also lists the dropped messages in order. The
  fuel bounds the number of pops; \<open>drop_loop_enough\<close> shows that one more than the number of
  messages is enough.
\<close>

fun drop_loop ::
  "nat \<Rightarrow> (fengnet_message \<Rightarrow> mq_state \<Rightarrow> mq_state option) \<Rightarrow> mqref \<Rightarrow> mq_state
   \<Rightarrow> (fengnet_message list \<times> mq_state) option" where
  "drop_loop 0 drop_func r st = None"
| "drop_loop (Suc n) drop_func r st = do {
     (msg, st1) \<leftarrow> fengnet_mq_pop r st;
     case msg of
       None \<Rightarrow> Some ([], st1)
     | Some x \<Rightarrow> do {
         st2 \<leftarrow> drop_func x st1;
         (xs, st3) \<leftarrow> drop_loop n drop_func r st2;
         Some (x # xs, st3)
       }
   }"

definition drop_queue ::
  "nat \<Rightarrow> (fengnet_message \<Rightarrow> mq_state \<Rightarrow> mq_state option) \<Rightarrow> mqref \<Rightarrow> mq_state
   \<Rightarrow> (fengnet_message list \<times> mq_state) option" where
  "drop_queue n drop_func r st = do {
     (xs, st1) \<leftarrow> drop_loop n drop_func r st;
     st2 \<leftarrow> mq_release_private r st1;
     Some (xs, st2)
   }"

definition fengnet_mq_release ::
  "nat \<Rightarrow> (fengnet_message \<Rightarrow> mq_state \<Rightarrow> mq_state option) \<Rightarrow> mqref \<Rightarrow> mq_state
   \<Rightarrow> (fengnet_message list \<times> mq_state) option" where
  "fengnet_mq_release n drop_func r st = do {
     q \<leftarrow> mqs st r;
     if q_release q \<noteq> 0 then drop_queue n drop_func r st
     else do { st1 \<leftarrow> fengnet_globalmq_push r st; Some ([], st1) }
   }"

section \<open>One queue is a FIFO\<close>

definition mq_ok :: "message_queue \<Rightarrow> bool" where
  "mq_ok q \<longleftrightarrow> 0 < q_cap q \<and> length (q_queue q) = q_cap q \<and> q_head q < q_cap q \<and>
     q_tail q < q_cap q \<and> 0 < q_threshold q"

definition mq_contents :: "message_queue \<Rightarrow> fengnet_message list" where
  "mq_contents q = ring_list (q_queue q) (q_head q) (ring_len (q_head q) (q_tail q) (q_cap q))"

text \<open>The overload loop ends, doubles the threshold past the length and records it.\<close>

lemma overload_loop_total:
  "0 < thr \<Longrightarrow>
   \<exists>thr'. overload_loop len ovl thr = Some (if thr < len then len else ovl, thr') \<and>
     0 < thr' \<and> len \<le> thr' \<and> thr \<le> thr'"
proof (induction "nat (len - thr)" arbitrary: thr ovl rule: less_induct)
  case less
  show ?case
  proof (cases "thr < len")
    case True
    then have "nat (len - thr * 2) < nat (len - thr)" using less.prems by simp
    from less.hyps [OF this, of len] less.prems obtain thr' where
      "overload_loop len len (thr * 2) = Some (len, thr')" "len \<le> thr'" "thr * 2 \<le> thr'"
      by auto
    with less.prems True show ?thesis by (subst overload_loop.simps) auto
  next
    case False
    with less.prems show ?thesis by (subst overload_loop.simps) simp
  qed
qed

lemma mq_length_contents: "mq_length q = length (mq_contents q)"
  by (simp add: mq_length_def mq_contents_def ring_len_def)

lemma mq_enqueue_ok:
  assumes "mq_ok q"
  shows "\<exists>q'. mq_enqueue q msg = Some q' \<and> mq_ok q' \<and> mq_contents q' = mq_contents q @ [msg]"
proof -
  let ?n = "ring_len (q_head q) (q_tail q) (q_cap q)" and ?t = "Suc (q_tail q) mod q_cap q"
  let ?buf = "(q_queue q)[q_tail q := msg]"
  note ok = assms [unfolded mq_ok_def]
  have n: "?n < q_cap q" "(q_head q + ?n) mod q_cap q = q_tail q"
    using ok by (simp_all add: ring_len_less ring_tail)
  have pushed: "ring_list ?buf (q_head q) (Suc ?n) = mq_contents q @ [msg]"
    using ring_list_push [of "q_head q" "q_queue q" ?n msg] ok n by (simp add: mq_contents_def)
  have st: "store (q_queue q) (q_tail q) msg = Some ?buf" using ok by (simp add: mem_simps)
  have tl: "(if q_tail q + 1 \<ge> q_cap q then 0 else q_tail q + 1) = ?t"
    using ok by (intro wrap_increment) simp
  show ?thesis
  proof (cases "q_head q = ?t")
    case False
    let ?q = "q\<lparr>q_queue := ?buf, q_tail := ?t\<rparr>"
    have "mq_enqueue q msg = Some ?q" using st False unfolding mq_enqueue_def Let_def tl by simp
    moreover have "mq_contents ?q = mq_contents q @ [msg]"
      using pushed ring_len_push False ok by (simp add: mq_contents_def)
    ultimately show ?thesis using ok by (auto simp: mq_ok_def)
  next
    case True
    let ?q = "q\<lparr>q_queue := ?buf, q_tail := ?t\<rparr>"
    have full: "Suc ?n = q_cap q" using ring_len_full True ok by simp
    have "mq_enqueue q msg = Some (expand_queue ?q)"
      using st True unfolding mq_enqueue_def Let_def tl by simp
    moreover have "q_queue (expand_queue ?q) =
        (mq_contents q @ [msg]) @ replicate (q_cap q) zero_message"
      using pushed ok by (simp add: expand_queue_def ring_list_def full del: upt_Suc)
    moreover have "q_head (expand_queue ?q) = 0" "q_tail (expand_queue ?q) = q_cap q"
      by (simp_all add: expand_queue_def)
    moreover have "ring_len 0 (q_cap q) cap = length (mq_contents q @ [msg])" for cap
      using full by (simp add: ring_len_def [of 0] mq_contents_def)
    ultimately have "mq_enqueue q msg = Some (expand_queue ?q)"
      "mq_contents (expand_queue ?q) = mq_contents q @ [msg]"
      by (simp_all only: mq_contents_def [of "expand_queue ?q"] ring_list_straight)
    then show ?thesis using ok by (auto simp: mq_ok_def expand_queue_def)
  qed
qed

lemma mq_dequeue_empty:
  "mq_ok q \<Longrightarrow> mq_contents q = [] \<Longrightarrow>
   mq_dequeue q = Some (None, q\<lparr>q_threshold := MQ_OVERLOAD, q_in_global := 0\<rparr>)"
  by (auto simp: mq_dequeue_def mq_contents_def mq_ok_def ring_list_def ring_len_eq_0)

lemma mq_dequeue_cons:
  assumes "mq_ok q" "mq_contents q = msg # msgs"
  shows "\<exists>q'. mq_dequeue q = Some (Some msg, q') \<and> mq_ok q' \<and> mq_contents q' = msgs \<and>
    q_in_global q' = q_in_global q \<and> q_release q' = q_release q \<and> q_next q' = q_next q \<and>
    q_handle q' = q_handle q"
proof -
  note ok = assms(1) [unfolded mq_ok_def]
  let ?h = "Suc (q_head q) mod q_cap q"
  have ne: "q_head q \<noteq> q_tail q"
    using assms by (auto simp: mq_contents_def ring_len_def)
  have eq: "mq_contents q = q_queue q ! q_head q #
      ring_list (q_queue q) ?h (ring_len ?h (q_tail q) (q_cap q))"
    using ok ne ring_len_pop [of "q_head q" "q_cap q" "q_tail q"]
    by (simp add: mq_contents_def ring_list_pop)
  have hd1: "(if q_head q + 1 \<ge> q_cap q then 0 else q_head q + 1) = ?h"
    using ok by (intro wrap_increment) simp
  have ld: "load (q_queue q) (q_head q) = Some msg"
    using ok eq assms(2) by (simp add: mem_simps)
  obtain o' thr' where "overload_loop (if int (q_tail q) - int ?h < 0
      then int (q_tail q) - int ?h + int (q_cap q) else int (q_tail q) - int ?h)
      (q_overload q) (q_threshold q) = Some (o', thr')" "0 < thr'"
    using overload_loop_total [of "q_threshold q"] ok by blast
  then have "mq_dequeue q = Some (Some msg, q\<lparr>q_head := ?h, q_overload := o', q_threshold := thr'\<rparr>)"
    using ne ld unfolding mq_dequeue_def Let_def hd1 by simp
  moreover have "mq_contents (q\<lparr>q_head := ?h, q_overload := o', q_threshold := thr'\<rparr>) = msgs"
    using eq assms(2) by (simp add: mq_contents_def)
  ultimately show ?thesis using ok \<open>0 < thr'\<close> by (auto simp: mq_ok_def)
qed

interpretation mqq: fifo_queue mq_enqueue mq_dequeue mq_contents mq_ok
proof unfold_locales
  fix q msg assume "mq_ok q"
  then show "\<exists>q'. mq_enqueue q msg = Some q' \<and> mq_ok q' \<and> mq_contents q' = mq_contents q @ [msg]"
    by (rule mq_enqueue_ok)
next
  fix q assume "mq_ok q" "mq_contents q = []"
  then show "\<exists>q'. mq_dequeue q = Some (None, q') \<and> mq_ok q' \<and> mq_contents q' = []"
    by (auto simp: mq_dequeue_empty mq_ok_def mq_contents_def MQ_OVERLOAD_def)
next
  fix q x xs assume "mq_ok q" "mq_contents q = x # xs"
  then show "\<exists>q'. mq_dequeue q = Some (Some x, q') \<and> mq_ok q' \<and> mq_contents q' = xs"
    using mq_dequeue_cons by blast
qed

text \<open>
  C7. The growing ring of a service is a first-in first-out queue: any sequence of
  \<open>fengnet_mq_push\<close> and \<open>fengnet_mq_pop\<close>, through any number of wrap-arounds and doublings,
  succeeds and returns the same messages as a list with appends at the back.
\<close>

theorem mq_refines_fifo:
  assumes "mq_ok q"
  shows "\<exists>q'. run_ops mq_enqueue mq_dequeue ops q = Some (fst (spec_ops ops (mq_contents q)), q') \<and>
    mq_ok q' \<and> mq_contents q' = snd (spec_ops ops (mq_contents q))"
  by (rule mqq.run_refines_spec [OF assms])

definition small_mq :: message_queue where
  "small_mq = \<lparr>q_handle = 5, q_cap = 2, q_head = 1, q_tail = 1, q_release = 0, q_in_global = 1,
     q_overload = 0, q_threshold = MQ_OVERLOAD, q_queue = replicate 2 zero_message, q_next = None\<rparr>"

theorem mq_refines_fifo_witness:
  "\<exists>q'. run_ops mq_enqueue mq_dequeue
      [Enq (zero_message\<lparr>m_sz := 1\<rparr>), Enq (zero_message\<lparr>m_sz := 2\<rparr>), Deq, Deq, Deq] small_mq =
    Some ([Some (zero_message\<lparr>m_sz := 1\<rparr>), Some (zero_message\<lparr>m_sz := 2\<rparr>), None], q') \<and>
    mq_ok q' \<and> mq_contents q' = []"
  using mq_refines_fifo [of small_mq
      "[Enq (zero_message\<lparr>m_sz := 1\<rparr>), Enq (zero_message\<lparr>m_sz := 2\<rparr>), Deq, Deq, Deq]"]
  by (simp add: small_mq_def mq_ok_def mq_contents_def ring_len_def MQ_OVERLOAD_def)

end
