(* ===== verification/Global_Queue.thy ===== *)
theory Global_Queue
  imports Message_Queue
begin

text \<open>
  The global queue of \<^verbatim>\<open>fengnet_mq.cpp\<close> as a list of queues, and the protocol between the worker
  threads, the senders and the deletion of a service as a step relation on the model of the
  queues. The invariant of the reachable states gives the two things the \<open>in_global\<close> and
  \<open>release\<close> flags are for: no assertion of the file fails, and a queue with work is never lost.
\<close>

section \<open>The chain through \<open>next\<close>\<close>

fun gq_path :: "(mqref \<rightharpoonup> message_queue) \<Rightarrow> mqref option \<Rightarrow> mqref list \<Rightarrow> bool" where
  "gq_path m p [] \<longleftrightarrow> p = None"
| "gq_path m p (r # rs) \<longleftrightarrow> p = Some r \<and> (\<exists>q. m r = Some q \<and> gq_path m (q_next q) rs)"

definition gq_ok :: "mq_state \<Rightarrow> mqref list \<Rightarrow> bool" where
  "gq_ok st rs \<longleftrightarrow> gq_path (mqs st) (gq_head st) rs \<and> distinct rs \<and>
     gq_tail st = (if rs = [] then None else Some (last rs))"

text \<open>A queue without its link: what the operations on the global queue leave alone.\<close>

definition mq_payload :: "mq_state \<Rightarrow> mqref \<Rightarrow> message_queue option" where
  "mq_payload st r = map_option (q_next_update (\<lambda>_. None)) (mqs st r)"

lemma gq_path_dom: "gq_path m p rs \<Longrightarrow> r \<in> set rs \<Longrightarrow> \<exists>q. m r = Some q"
  by (induction rs arbitrary: p) auto

lemma gq_path_upd: "r \<notin> set rs \<Longrightarrow> gq_path (m(r := v)) p rs = gq_path m p rs"
  by (induction rs arbitrary: p) auto

lemma gq_path_payload:
  "gq_path m p rs \<Longrightarrow> m r = Some q \<Longrightarrow> q_next q' = q_next q \<Longrightarrow> gq_path (m(r \<mapsto> q')) p rs"
  by (induction rs arbitrary: p) auto

lemma gq_path_unique: "gq_path m p rs \<Longrightarrow> gq_path m p rs' \<Longrightarrow> rs = rs'"
proof (induction rs arbitrary: p rs')
  case Nil
  then show ?case by (cases rs') auto
next
  case (Cons r rs)
  then show ?case by (cases rs') auto
qed

lemma gq_path_last: "gq_path m p (rs @ [t]) \<Longrightarrow> \<exists>q. m t = Some q \<and> q_next q = None"
  by (induction rs arbitrary: p) auto

lemma gq_path_snoc:
  "gq_path m p (rs @ [t]) \<Longrightarrow> distinct (rs @ [t]) \<Longrightarrow> m t = Some tq \<Longrightarrow> r \<notin> set (rs @ [t]) \<Longrightarrow>
   m r = Some q \<Longrightarrow> q_next q = None \<Longrightarrow>
   gq_path (m(t \<mapsto> tq\<lparr>q_next := Some r\<rparr>)) p (rs @ [t, r])"
proof (induction rs arbitrary: p)
  case Nil
  then show ?case by auto
next
  case (Cons x rs)
  then show ?case by (auto simp: gq_path_upd)
qed

lemma globalmq_push_ok:
  assumes ok: "gq_ok st rs" and r: "r \<notin> set rs" "mqs st r = Some q" "q_next q = None"
  shows "\<exists>st'. fengnet_globalmq_push r st = Some st' \<and> gq_ok st' (rs @ [r]) \<and>
    mq_payload st' = mq_payload st \<and> (\<forall>x. x \<notin> set rs \<longrightarrow> mqs st' x = mqs st x)"
proof (cases rs rule: rev_cases)
  case Nil
  with assms show ?thesis
    by (auto simp: gq_ok_def fengnet_globalmq_push_def mq_payload_def)
next
  case (snoc rs' t)
  obtain tq where tq: "mqs st t = Some tq"
    using ok gq_path_last snoc by (fastforce simp: gq_ok_def)
  let ?st = "(upd_mq t (tq\<lparr>q_next := Some r\<rparr>) st)\<lparr>gq_tail := Some r\<rparr>"
  have "fengnet_globalmq_push r st = Some ?st"
    using assms snoc tq by (simp add: gq_ok_def fengnet_globalmq_push_def)
  moreover have "gq_ok ?st (rs @ [r])"
    using assms snoc tq gq_path_snoc [of "mqs st" "gq_head st" rs' t tq r q]
    by (simp add: gq_ok_def)
  moreover have "mq_payload ?st = mq_payload st"
    using tq by (auto simp: mq_payload_def fun_eq_iff)
  ultimately show ?thesis using snoc by auto
qed

lemma globalmq_pop_empty: "gq_ok st [] \<Longrightarrow> fengnet_globalmq_pop st = Some (None, st)"
  by (simp add: gq_ok_def fengnet_globalmq_pop_def)

lemma globalmq_pop_cons:
  assumes "gq_ok st (r # rs)"
  shows "\<exists>st' q. fengnet_globalmq_pop st = Some (Some r, st') \<and> gq_ok st' rs \<and>
    mq_payload st' = mq_payload st \<and> mqs st r = Some q \<and>
    mqs st' = (mqs st)(r \<mapsto> q\<lparr>q_next := None\<rparr>)"
proof -
  obtain q where q: "gq_head st = Some r" "mqs st r = Some q" "gq_path (mqs st) (q_next q) rs"
    "r \<notin> set rs" "distinct rs" "gq_tail st = Some (last (r # rs))"
    using assms by (auto simp: gq_ok_def)
  show ?thesis
    using q by (cases rs) (auto simp: fengnet_globalmq_pop_def gq_ok_def gq_path_upd mq_payload_def
        fun_eq_iff)
qed

section \<open>The protocol\<close>

text \<open>
  \<open>held\<close> is the set of queues that a thread owns outside the global queue: a queue just created
  by \<open>fengnet_context_new\<close>, or taken by a worker in \<open>fengnet_context_message_dispatch\<close>. A
  sender holds a reference to the service while it pushes, and \<open>delete_context\<close> marks the queue
  only when no reference is left: hence the guards on \<open>q_release\<close>.
\<close>

type_synonym sched = "mq_state \<times> mqref set"

inductive mq_step :: "sched \<Rightarrow> sched \<Rightarrow> bool" where
  create: "mqs st r = None \<Longrightarrow> mq_step (st, held) (fengnet_mq_create r h st, insert r held)"
| publish: "r \<in> held \<Longrightarrow> fengnet_globalmq_push r st = Some st' \<Longrightarrow>
    mq_step (st, held) (st', held - {r})"
| take: "fengnet_globalmq_pop st = Some (Some r, st') \<Longrightarrow> mq_step (st, held) (st', insert r held)"
| send: "mqs st r = Some q \<Longrightarrow> q_release q = 0 \<Longrightarrow> fengnet_mq_push r msg st = Some st' \<Longrightarrow>
    mq_step (st, held) (st', held)"
| receive: "r \<in> held \<Longrightarrow> fengnet_mq_pop r st = Some (Some msg, st') \<Longrightarrow>
    mq_step (st, held) (st', held)"
| idle: "r \<in> held \<Longrightarrow> mqs st r = Some q \<Longrightarrow> q_release q = 0 \<Longrightarrow>
    fengnet_mq_pop r st = Some (None, st') \<Longrightarrow> mq_step (st, held) (st', held - {r})"
| mark: "mqs st r = Some q \<Longrightarrow> q_release q = 0 \<Longrightarrow> fengnet_mq_mark_release r st = Some st' \<Longrightarrow>
    mq_step (st, held) (st', held)"
| discard: "r \<in> held \<Longrightarrow> mqs st r = Some q \<Longrightarrow> q_release q \<noteq> 0 \<Longrightarrow>
    fengnet_mq_pop r st = Some (None, st') \<Longrightarrow> mq_release_private r st' = Some st'' \<Longrightarrow>
    mq_step (st, held) (st'', held - {r})"

inductive mq_reachable :: "sched \<Rightarrow> bool" where
  init: "mq_reachable (fengnet_mq_init, {})"
| step: "mq_reachable s \<Longrightarrow> mq_step s s' \<Longrightarrow> mq_reachable s'"

text \<open>What holds of one queue, by whether it is listed or held (\<open>owned\<close>).\<close>

definition flags_ok :: "bool \<Rightarrow> message_queue \<Rightarrow> bool" where
  "flags_ok owned q \<longleftrightarrow> mq_ok q \<and>
     (if owned then q_release q = 0 \<longrightarrow> q_in_global q = MQ_IN_GLOBAL
      else q_release q = 0 \<and> q_in_global q = 0 \<and> mq_contents q = [])"

definition sched_inv :: "sched \<Rightarrow> mqref list \<Rightarrow> bool" where
  "sched_inv s rs \<longleftrightarrow> gq_ok (fst s) rs \<and> snd s \<inter> set rs = {} \<and> snd s \<subseteq> dom (mqs (fst s)) \<and>
     (\<forall>r q. mqs (fst s) r = Some q \<longrightarrow>
        flags_ok (r \<in> set rs \<or> r \<in> snd s) q \<and> (r \<notin> set rs \<longrightarrow> q_next q = None))"

lemma flags_ok_next [simp]: "flags_ok b (q\<lparr>q_next := n\<rparr>) = flags_ok b q"
  by (simp add: flags_ok_def mq_ok_def mq_contents_def)

lemma sched_invD:
  assumes "sched_inv (st, held) rs"
  shows "gq_ok st rs" "held \<inter> set rs = {}" "r \<in> held \<Longrightarrow> \<exists>q. mqs st r = Some q"
    "mqs st r = Some q \<Longrightarrow> flags_ok (r \<in> set rs \<or> r \<in> held) q"
    "mqs st r = Some q \<Longrightarrow> r \<notin> set rs \<Longrightarrow> q_next q = None"
  using assms by (auto simp: sched_inv_def)

lemma flags_payload:
  assumes "mq_payload st' = mq_payload st" "mqs st' r = Some q"
  shows "\<exists>q0. mqs st r = Some q0 \<and> (\<forall>b. flags_ok b q = flags_ok b q0)"
proof -
  have "map_option (q_next_update (\<lambda>_. None)) (mqs st r) = Some (q\<lparr>q_next := None\<rparr>)"
    using fun_cong [OF assms(1), of r] assms(2) by (simp add: mq_payload_def)
  then obtain q0 where "mqs st r = Some q0" "q0\<lparr>q_next := None\<rparr> = q\<lparr>q_next := None\<rparr>" by auto
  then show ?thesis by (metis flags_ok_next)
qed

text \<open>
  Two ways a step keeps the invariant: it replaces the fields of one queue, or it moves a queue
  that is not listed to the end of the list.
\<close>

lemma sched_inv_replace:
  assumes inv: "sched_inv (st, held) rs" and q: "mqs st r = Some q" "q_next q' = q_next q"
    and flags: "flags_ok (r \<in> set rs \<or> r \<in> held') q'" and held: "held' - {r} = held - {r}"
    and r: "r \<in> held' \<Longrightarrow> r \<in> held"
  shows "sched_inv (upd_mq r q' st, held') rs"
proof -
  have "gq_path (mqs (upd_mq r q' st)) (gq_head st) rs"
    using sched_invD(1) [OF inv] q gq_path_payload by (fastforce simp: gq_ok_def)
  then have "gq_ok (upd_mq r q' st) rs" using sched_invD(1) [OF inv] by (simp add: gq_ok_def)
  moreover have same: "x \<in> held' \<longleftrightarrow> x \<in> held" if "x \<noteq> r" for x using held that by blast
  moreover have "held' \<subseteq> held" using same r by (metis subsetI)
  ultimately show ?thesis
    using inv q flags unfolding sched_inv_def fst_conv snd_conv
    by (auto split: if_splits)
qed

lemma sched_inv_push:
  assumes gq: "gq_ok st rs" and r: "r \<notin> set rs" "mqs st r = Some q" "q_next q = None"
    and disj: "held \<inter> set rs = {}" "held \<subseteq> dom (mqs st)" "r \<notin> held"
    and flags: "\<And>x q. mqs st x = Some q \<Longrightarrow> flags_ok (x \<in> set rs \<or> x = r \<or> x \<in> held) q"
    and nxt: "\<And>x q. mqs st x = Some q \<Longrightarrow> x \<notin> set rs \<Longrightarrow> q_next q = None"
  shows "\<exists>st'. fengnet_globalmq_push r st = Some st' \<and> sched_inv (st', held) (rs @ [r])"
proof -
  obtain st' where st': "fengnet_globalmq_push r st = Some st'" "gq_ok st' (rs @ [r])"
    "mq_payload st' = mq_payload st" "\<And>x. x \<notin> set rs \<Longrightarrow> mqs st' x = mqs st x"
    using globalmq_push_ok [OF gq r] by blast
  have "flags_ok (x \<in> set (rs @ [r]) \<or> x \<in> held) q'" if "mqs st' x = Some q'" for x q'
    using flags_payload [OF st'(3) that] flags [of x] by (auto simp: disj_commute disj_left_commute)
  moreover have "held \<subseteq> dom (mqs st')"
  proof
    fix x assume "x \<in> held"
    with disj have "x \<notin> set rs" "x \<in> dom (mqs st)" by blast+
    with st'(4) show "x \<in> dom (mqs st')" by (simp add: dom_def)
  qed
  ultimately have "sched_inv (st', held) (rs @ [r])"
    using disj st'(2,4) nxt by (auto simp: sched_inv_def)
  with st'(1) show ?thesis by blast
qed

text \<open>Each operation succeeds where the protocol calls it and keeps the invariant.\<close>

lemma create_inv:
  assumes inv: "sched_inv (st, held) rs" and r: "mqs st r = None"
  shows "sched_inv (fengnet_mq_create r h st, insert r held) rs"
proof -
  have "r \<notin> set rs" using sched_invD(1) [OF inv] r gq_path_dom by (fastforce simp: gq_ok_def)
  with inv show ?thesis
    by (auto simp: sched_inv_def fengnet_mq_create_def gq_ok_def gq_path_upd flags_ok_def mq_ok_def
        DEFAULT_QUEUE_SIZE_def MQ_OVERLOAD_def)
qed

lemma publish_inv:
  assumes inv: "sched_inv (st, held) rs" and r: "r \<in> held"
  shows "\<exists>st'. fengnet_globalmq_push r st = Some st' \<and> sched_inv (st', held - {r}) (rs @ [r])"
proof -
  obtain q where q: "mqs st r = Some q" using sched_invD(3) [OF inv r] by blast
  have rs: "r \<notin> set rs" using sched_invD(2) [OF inv] r by blast
  have flags: "flags_ok (x \<in> set rs \<or> x = r \<or> x \<in> held - {r}) q" if "mqs st x = Some q" for x q
  proof -
    have "(x \<in> set rs \<or> x = r \<or> x \<in> held - {r}) = (x \<in> set rs \<or> x \<in> held)" using r by blast
    then show ?thesis using sched_invD(4) [OF inv that] by simp
  qed
  show ?thesis
  proof (rule sched_inv_push [OF sched_invD(1) [OF inv] rs q])
    show "q_next q = None" by (rule sched_invD(5) [OF inv q rs])
    show "(held - {r}) \<inter> set rs = {}" "held - {r} \<subseteq> dom (mqs st)" "r \<notin> held - {r}"
      using inv by (auto simp: sched_inv_def)
  qed (fact flags, rule sched_invD(5) [OF inv])
qed

lemma take_inv:
  assumes inv: "sched_inv (st, held) (r # rs)"
  shows "\<exists>st'. fengnet_globalmq_pop st = Some (Some r, st') \<and> sched_inv (st', insert r held) rs"
proof -
  obtain st' q where st': "fengnet_globalmq_pop st = Some (Some r, st')" "gq_ok st' rs"
    "mqs st r = Some q" "mqs st' = (mqs st)(r \<mapsto> q\<lparr>q_next := None\<rparr>)"
    using globalmq_pop_cons [OF sched_invD(1) [OF inv]] by blast
  have "r \<notin> set rs" using sched_invD(1) [OF inv] by (simp add: gq_ok_def)
  moreover have "flags_ok True q" using sched_invD(4) [OF inv st'(3)] by simp
  ultimately have "sched_inv (st', insert r held) rs"
    using inv st' unfolding sched_inv_def fst_conv snd_conv
    by (auto split: if_splits) (smt (verit))
  with st'(1) show ?thesis by blast
qed

lemma mq_enqueue_flags:
  "mq_enqueue q msg = Some q' \<Longrightarrow> q_in_global q' = q_in_global q \<and> q_release q' = q_release q \<and>
   q_next q' = q_next q \<and> q_handle q' = q_handle q"
  by (auto simp: mq_enqueue_def Let_def expand_queue_def split: Option.bind_splits)

lemma send_inv:
  assumes inv: "sched_inv (st, held) rs" and q: "mqs st r = Some q" "q_release q = 0"
  shows "\<exists>st' rs'. fengnet_mq_push r msg st = Some st' \<and> sched_inv (st', held) rs' \<and>
    (r \<in> set rs' \<or> r \<in> held)"
proof -
  note fl = sched_invD(4) [OF inv q(1)]
  obtain q' where q': "mq_enqueue q msg = Some q'" "mq_ok q'"
    using mq_enqueue_ok fl by (fastforce simp: flags_ok_def)
  note same = mq_enqueue_flags [OF q'(1)]
  show ?thesis
  proof (cases "r \<in> set rs \<or> r \<in> held")
    case True
    then have "q_in_global q' = MQ_IN_GLOBAL" using fl q same by (simp add: flags_ok_def)
    then have "fengnet_mq_push r msg st = Some (upd_mq r q' st)"
      using q' q by (simp add: fengnet_mq_push_def MQ_IN_GLOBAL_def)
    moreover have "sched_inv (upd_mq r q' st, held) rs"
      using True q' same \<open>q_in_global q' = MQ_IN_GLOBAL\<close>
      by (intro sched_inv_replace [OF inv q(1)]) (simp_all add: flags_ok_def)
    ultimately show ?thesis using True by blast
  next
    case False
    let ?st = "upd_mq r (q'\<lparr>q_in_global := MQ_IN_GLOBAL\<rparr>) st"
    have "q_in_global q' = 0" using fl False same by (simp add: flags_ok_def)
    then have "fengnet_mq_push r msg st = fengnet_globalmq_push r ?st"
      using q' q by (simp add: fengnet_mq_push_def)
    moreover have "\<exists>st'. fengnet_globalmq_push r ?st = Some st' \<and> sched_inv (st', held) (rs @ [r])"
    proof (rule sched_inv_push)
      show "gq_ok ?st rs" using sched_invD(1) [OF inv] False by (simp add: gq_ok_def gq_path_upd)
      show "r \<notin> set rs" "r \<notin> held" using False by auto
      show "held \<inter> set rs = {}" "held \<subseteq> dom (mqs ?st)" using inv by (auto simp: sched_inv_def)
      have "q_next q' = None" using same sched_invD(5) [OF inv q(1)] False by simp
      then show "mqs ?st r = Some (q'\<lparr>q_in_global := MQ_IN_GLOBAL\<rparr>)"
        "q_next (q'\<lparr>q_in_global := MQ_IN_GLOBAL\<rparr>) = None" by simp_all
      show "q_next p = None" if "mqs ?st x = Some p" "x \<notin> set rs" for x p
        using that sched_invD(5) [OF inv, of x p] \<open>q_next q' = None\<close>
        by (auto split: if_splits)
      show "flags_ok (x \<in> set rs \<or> x = r \<or> x \<in> held) p" if "mqs ?st x = Some p" for x p
        using that sched_invD(4) [OF inv, of x p] q'(2) same q
        by (auto simp: flags_ok_def mq_ok_def split: if_splits)
    qed
    ultimately show ?thesis by fastforce
  qed
qed

lemma receive_inv:
  assumes inv: "sched_inv (st, held) rs" and r: "r \<in> held" "mqs st r = Some q"
    and c: "mq_contents q = msg # msgs"
  shows "\<exists>q'. fengnet_mq_pop r st = Some (Some msg, upd_mq r q' st) \<and> mq_contents q' = msgs \<and>
    sched_inv (upd_mq r q' st, held) rs"
proof -
  have fl: "mq_ok q" "q_release q = 0 \<longrightarrow> q_in_global q = MQ_IN_GLOBAL"
    using sched_invD(4) [OF inv r(2)] r(1) by (simp_all add: flags_ok_def)
  obtain q' where q': "mq_dequeue q = Some (Some msg, q')" "mq_ok q'" "mq_contents q' = msgs"
    "q_in_global q' = q_in_global q" "q_release q' = q_release q" "q_next q' = q_next q"
    using mq_dequeue_cons [OF fl(1) c] by blast
  then have "sched_inv (upd_mq r q' st, held) rs"
    using r fl by (intro sched_inv_replace [OF inv r(2)]) (simp_all add: flags_ok_def)
  with q' r show ?thesis by (auto simp: fengnet_mq_pop_def)
qed

lemma pop_none_inv:
  assumes inv: "sched_inv (st, held) rs" and r: "r \<in> held" "mqs st r = Some q"
    and c: "mq_contents q = []"
  shows "\<exists>q'. fengnet_mq_pop r st = Some (None, upd_mq r q' st) \<and> q_next q' = None \<and>
    (q_release q = 0 \<longrightarrow> sched_inv (upd_mq r q' st, held - {r}) rs)"
proof -
  have ok: "mq_ok q" using sched_invD(4) [OF inv r(2)] r(1) by (simp add: flags_ok_def)
  have rs: "r \<notin> set rs" using sched_invD(2) [OF inv] r by blast
  let ?q = "q\<lparr>q_threshold := MQ_OVERLOAD, q_in_global := 0\<rparr>"
  have "fengnet_mq_pop r st = Some (None, upd_mq r ?q st)"
    using mq_dequeue_empty [OF ok c] r by (simp add: fengnet_mq_pop_def)
  moreover have "sched_inv (upd_mq r ?q st, held - {r}) rs" if "q_release q = 0"
    using ok c that rs
    by (intro sched_inv_replace [OF inv r(2)])
      (simp_all add: flags_ok_def mq_ok_def mq_contents_def MQ_OVERLOAD_def)
  ultimately show ?thesis using sched_invD(5) [OF inv r(2) rs] by auto
qed

lemma mark_inv:
  assumes inv: "sched_inv (st, held) rs" and q: "mqs st r = Some q" "q_release q = 0"
  shows "\<exists>st' rs'. fengnet_mq_mark_release r st = Some st' \<and> sched_inv (st', held) rs' \<and>
    (r \<in> set rs' \<or> r \<in> held)"
proof -
  note fl = sched_invD(4) [OF inv q(1)]
  let ?q = "q\<lparr>q_release := 1\<rparr>"
  let ?st = "upd_mq r ?q st"
  show ?thesis
  proof (cases "r \<in> set rs \<or> r \<in> held")
    case True
    then have "fengnet_mq_mark_release r st = Some ?st"
      using fl q by (simp add: fengnet_mq_mark_release_def flags_ok_def)
    moreover have "sched_inv (?st, held) rs"
      using True fl
      by (intro sched_inv_replace [OF inv q(1)]) (simp_all add: flags_ok_def mq_ok_def)
    ultimately show ?thesis using True by blast
  next
    case False
    then have "fengnet_mq_mark_release r st = fengnet_globalmq_push r ?st"
      using fl q by (simp add: fengnet_mq_mark_release_def flags_ok_def MQ_IN_GLOBAL_def)
    moreover have "\<exists>st'. fengnet_globalmq_push r ?st = Some st' \<and> sched_inv (st', held) (rs @ [r])"
    proof (rule sched_inv_push)
      show "gq_ok ?st rs" using sched_invD(1) [OF inv] False by (simp add: gq_ok_def gq_path_upd)
      show "r \<notin> set rs" "r \<notin> held" using False by auto
      show "held \<inter> set rs = {}" "held \<subseteq> dom (mqs ?st)" using inv by (auto simp: sched_inv_def)
      have "q_next q = None" using sched_invD(5) [OF inv q(1)] False by simp
      then show "mqs ?st r = Some ?q" "q_next ?q = None" by simp_all
      show "q_next p = None" if "mqs ?st x = Some p" "x \<notin> set rs" for x p
        using that sched_invD(5) [OF inv, of x p] \<open>q_next q = None\<close> by (auto split: if_splits)
      show "flags_ok (x \<in> set rs \<or> x = r \<or> x \<in> held) p" if "mqs ?st x = Some p" for x p
        using that sched_invD(4) [OF inv, of x p] fl
        by (auto simp: flags_ok_def mq_ok_def split: if_splits)
    qed
    ultimately show ?thesis by fastforce
  qed
qed

lemma discard_inv:
  assumes inv: "sched_inv (st, held) rs" and r: "r \<in> held" and n: "q_next q' = None"
  shows "\<exists>st'. mq_release_private r (upd_mq r q' st) = Some st' \<and> sched_inv (st', held - {r}) rs"
proof -
  have "r \<notin> set rs" using sched_invD(2) [OF inv] r by blast
  then show ?thesis using inv n
    by (auto simp: mq_release_private_def sched_inv_def gq_ok_def gq_path_upd)
qed

lemma pop_cases:
  assumes "sched_inv (st, held) rs" "r \<in> held"
  obtains q msg msgs where "mqs st r = Some q" "mq_contents q = msg # msgs"
  | q where "mqs st r = Some q" "mq_contents q = []"
  using sched_invD(3) [OF assms] by (metis neq_Nil_conv)

lemma mq_step_inv:
  assumes "mq_step s s'" "sched_inv s rs"
  shows "\<exists>rs'. sched_inv s' rs'"
  using assms
proof (induction rule: mq_step.induct)
  case (create st r held h)
  then show ?case using create_inv by blast
next
  case (publish r held st st')
  then show ?case using publish_inv [OF publish.prems publish.hyps(1)] by auto
next
  case (take st r st' held)
  then show ?case using take_inv globalmq_pop_empty sched_invD(1) by (cases rs) fastforce+
next
  case (send st r q msg st' held)
  then show ?case using send_inv [OF send.prems send.hyps(1,2), of msg] by auto
next
  case (receive r held st msg st')
  show ?case
  proof (rule pop_cases [OF receive.prems receive.hyps(1)])
    fix q x xs assume "mqs st r = Some q" "mq_contents q = x # xs"
    from receive_inv [OF receive.prems receive.hyps(1) this] receive.hyps(2) show ?thesis by auto
  next
    fix q assume "mqs st r = Some q" "mq_contents q = []"
    from pop_none_inv [OF receive.prems receive.hyps(1) this] receive.hyps(2) show ?thesis by auto
  qed
next
  case (idle r held st q st')
  show ?case
  proof (rule pop_cases [OF idle.prems idle.hyps(1)])
    fix q x xs assume "mqs st r = Some q" "mq_contents q = x # xs"
    from receive_inv [OF idle.prems idle.hyps(1) this] idle.hyps show ?thesis by auto
  next
    fix q assume "mqs st r = Some q" "mq_contents q = []"
    from pop_none_inv [OF idle.prems idle.hyps(1) this] this idle.hyps show ?thesis by auto
  qed
next
  case (mark st r q st' held)
  then show ?case using mark_inv [OF mark.prems mark.hyps(1,2)] by auto
next
  case (discard r held st q st' st'')
  show ?case
  proof (rule pop_cases [OF discard.prems discard.hyps(1)])
    fix q x xs assume "mqs st r = Some q" "mq_contents q = x # xs"
    from receive_inv [OF discard.prems discard.hyps(1) this] discard.hyps show ?thesis by auto
  next
    fix q assume "mqs st r = Some q" "mq_contents q = []"
    then obtain q' where q': "fengnet_mq_pop r st = Some (None, upd_mq r q' st)" "q_next q' = None"
      using pop_none_inv [OF discard.prems discard.hyps(1)] by blast
    show ?thesis using discard_inv [OF discard.prems discard.hyps(1) q'(2)] discard.hyps q'(1) by auto
  qed
qed

lemma reachable_inv: "mq_reachable s \<Longrightarrow> \<exists>rs. sched_inv s rs"
proof (induction rule: mq_reachable.induct)
  case init
  have "sched_inv (fengnet_mq_init, {}) []"
    by (simp add: sched_inv_def fengnet_mq_init_def gq_ok_def)
  then show ?case by blast
next
  case (step s s')
  then show ?case using mq_step_inv by blast
qed

section \<open>Properties\<close>

text \<open>
  C8. In every state the workers, the senders and the deletion of services can reach, a queue that
  holds a message or is marked for release is in the global queue or owned by a thread: no
  service with work is ever forgotten.
\<close>

theorem no_lost_queue:
  assumes "mq_reachable (st, held)" "mqs st r = Some q" "mq_contents q \<noteq> [] \<or> q_release q \<noteq> 0"
  shows "r \<in> held \<or> (\<exists>rs. gq_ok st rs \<and> r \<in> set rs)"
proof -
  obtain rs where inv: "sched_inv (st, held) rs" using reachable_inv [OF assms(1)] by blast
  have "r \<in> set rs \<or> r \<in> held"
    using sched_invD(4) [OF inv assms(2)] assms(3) by (auto simp: flags_ok_def split: if_splits)
  then show ?thesis using sched_invD(1) [OF inv] by blast
qed

definition wit_q :: message_queue where
  "wit_q = \<lparr>q_handle = 5, q_cap = DEFAULT_QUEUE_SIZE, q_head = 0, q_tail = 0, q_release = 1,
     q_in_global = MQ_IN_GLOBAL, q_overload = 0, q_threshold = MQ_OVERLOAD,
     q_queue = replicate DEFAULT_QUEUE_SIZE zero_message, q_next = None\<rparr>"

lemma wit_q_reachable: "mq_reachable (upd_mq 0 wit_q fengnet_mq_init, {0})"
proof -
  let ?s = "fengnet_mq_create 0 5 fengnet_mq_init"
  have "mq_reachable (?s, {0})"
    using mq_reachable.step [OF mq_reachable.init mq_step.create [of fengnet_mq_init 0 "{}" 5]]
    by (simp add: fengnet_mq_init_def)
  moreover have "mq_step (?s, {0}) (upd_mq 0 wit_q fengnet_mq_init, {0})"
    by (rule mq_step.mark [of _ 0 "wit_q\<lparr>q_release := 0\<rparr>"])
      (simp_all add: fengnet_mq_create_def fengnet_mq_mark_release_def wit_q_def)
  ultimately show ?thesis by (rule mq_reachable.step)
qed

theorem no_lost_queue_witness:
  "mq_reachable (upd_mq 0 wit_q fengnet_mq_init, {0}) \<and>
   ((0::nat) \<in> {0::nat} \<or> (\<exists>rs. gq_ok (upd_mq 0 wit_q fengnet_mq_init) rs \<and> 0 \<in> set rs))"
  using no_lost_queue [OF wit_q_reachable, of 0 wit_q] wit_q_reachable by (simp add: wit_q_def)



lemma drop_loop_enough:
  assumes keep: "\<And>m st q. mqs st r = Some q \<Longrightarrow>
      \<exists>st'. drop_func m st = Some st' \<and> mqs st' r = Some q"
  shows "mqs st r = Some q \<Longrightarrow> mq_ok q \<Longrightarrow> q_next q = None \<Longrightarrow> length (mq_contents q) < n \<Longrightarrow>
    \<exists>st' q'. drop_loop n drop_func r st = Some (mq_contents q, st') \<and> mqs st' r = Some q' \<and>
      q_next q' = None"
proof (induction n arbitrary: st q)
  case 0
  then show ?case by simp
next
  case (Suc n)
  show ?case
  proof (cases "mq_contents q")
    case Nil
    then show ?thesis using Suc.prems mq_dequeue_empty by (auto simp: fengnet_mq_pop_def)
  next
    case (Cons x xs)
    obtain q' where q': "mq_dequeue q = Some (Some x, q')" "mq_ok q'" "mq_contents q' = xs"
      "q_next q' = None"
      using mq_dequeue_cons [OF Suc.prems(2) Cons] Suc.prems(3) by auto
    obtain st' where "drop_func x (upd_mq r q' st) = Some st'" "mqs st' r = Some q'"
      using keep [of "upd_mq r q' st" q' x] by auto
    with q' Suc.IH [of st' q'] Suc.prems Cons show ?thesis by (auto simp: fengnet_mq_pop_def)
  qed
qed

text \<open>
  C10. Releasing a queue that is marked terminates, hands exactly its messages to \<open>drop_func\<close>, in the
  order they were sent, and frees it, for every callback that succeeds and leaves this queue alone
  (the service is gone, so nothing can be sent to it).
\<close>

theorem mq_release_drops_all:
  assumes keep: "\<And>m st q. mqs st r = Some q \<Longrightarrow>
      \<exists>st'. drop_func m st = Some st' \<and> mqs st' r = Some q"
    and q: "mqs st r = Some q" "mq_ok q" "q_next q = None" "q_release q \<noteq> 0"
    and fuel: "mq_length q < n"
  shows "\<exists>st'. fengnet_mq_release n drop_func r st = Some (mq_contents q, st') \<and> mqs st' r = None"
proof -
  obtain st' q' where "drop_loop n drop_func r st = Some (mq_contents q, st')" "mqs st' r = Some q'"
    "q_next q' = None"
    using drop_loop_enough [of r drop_func, OF keep q(1-3), of n] fuel
    by (auto simp: mq_length_contents)
  with q show ?thesis
    by (simp add: fengnet_mq_release_def drop_queue_def mq_release_private_def)
qed

theorem mq_release_drops_all_witness:
  "\<exists>st'. fengnet_mq_release 1 (\<lambda>m st. Some st) 0 (upd_mq 0 wit_q fengnet_mq_init) =
     Some (mq_contents wit_q, st') \<and> mqs st' 0 = None"
  by (rule mq_release_drops_all)
    (simp_all add: wit_q_def mq_ok_def mq_length_def DEFAULT_QUEUE_SIZE_def MQ_OVERLOAD_def)

end
