(* ===== verification/Hash_Id.thy ===== *)
theory Hash_Id
  imports Fengnet_Prelude
begin

text \<open>
  The table of \<^verbatim>\<open>service-src/hashid.h\<close> that maps the socket ids of a gate to the slots of its
  connection array: an array of nodes, the index of a node being the slot, chained into hash
  buckets. The interface \<open>id_table\<close> states what a client may rely on, and the table implements it.
  A pointer to a node is its index; \<open>None\<close> is an access outside an array, signed overflow or a
  failed \<open>assert\<close>.
\<close>

section \<open>Data and operations\<close>

record hashid_node =
  n_id :: int
  n_next :: "nat option"

record hashid =
  h_hashmod :: int
  h_cap :: nat
  h_count :: int
  h_id :: "hashid_node list"
  h_hash :: "nat option list"

text \<open>The loop that doubles \<open>hashcap\<close>.\<close>

definition hashcap_step :: "nat \<Rightarrow> int \<Rightarrow> (int + int) option" where
  "hashcap_step mx hashcap =
     (if hashcap < int mx then map_option Inl (c_int (hashcap * 2)) else Some (Inr hashcap))"

definition hashid_init :: "nat \<Rightarrow> hashid option" where
  "hashid_init mx = do {
     hashcap \<leftarrow> repeat_step (hashcap_step mx) 16;
     Some \<lparr>h_hashmod = hashcap - 1, h_cap = mx, h_count = 0,
       h_id = replicate mx \<lparr>n_id = -1, n_next = None\<rparr>,
       h_hash = replicate (nat hashcap) None\<rparr>
   }"

definition hashid_clear :: "hashid \<Rightarrow> hashid" where
  "hashid_clear hi = \<lparr>h_hashmod = 1, h_cap = 0, h_count = 0, h_id = [], h_hash = []\<rparr>"

definition hash_of :: "hashid \<Rightarrow> int \<Rightarrow> nat" where
  "hash_of hi i = nat (i AND h_hashmod hi)"

definition lookup_step :: "hashid \<Rightarrow> int \<Rightarrow> nat option \<Rightarrow> (nat option + int) option" where
  "lookup_step hi i c = (case c of
     None \<Rightarrow> Some (Inr (-1))
   | Some k \<Rightarrow> do {
       n \<leftarrow> load (h_id hi) k;
       Some (if n_id n = i then Inr (int k) else Inl (n_next n))
     })"

definition hashid_lookup :: "hashid \<Rightarrow> int \<Rightarrow> int option" where
  "hashid_lookup hi i = do {
     c \<leftarrow> load (h_hash hi) (hash_of hi i);
     repeat_step (lookup_step hi i) c
   }"

text \<open>The search for the node before the one to remove, from node \<open>c\<close>: that node and its successor.\<close>

definition remove_step :: "hashid \<Rightarrow> int \<Rightarrow> nat \<Rightarrow> (nat + (nat \<times> nat) option) option" where
  "remove_step hi i c = do {
     n \<leftarrow> load (h_id hi) c;
     (case n_next n of
        None \<Rightarrow> Some (Inr None)
      | Some t \<Rightarrow> do {
          nt \<leftarrow> load (h_id hi) t;
          Some (if n_id nt = i then Inr (Some (c, t)) else Inl t)
        })
   }"

text \<open>The label \<open>_clear\<close>.\<close>

definition hashid_unlink :: "hashid \<Rightarrow> nat \<Rightarrow> (int \<times> hashid) option" where
  "hashid_unlink hi c = do {
     ns \<leftarrow> store (h_id hi) c \<lparr>n_id = -1, n_next = None\<rparr>;
     Some (int c, hi\<lparr>h_id := ns, h_count := h_count hi - 1\<rparr>)
   }"

definition hashid_remove :: "hashid \<Rightarrow> int \<Rightarrow> (int \<times> hashid) option" where
  "hashid_remove hi i = do {
     let h = hash_of hi i;
     co \<leftarrow> load (h_hash hi) h;
     (case co of
        None \<Rightarrow> Some (-1, hi)
      | Some c \<Rightarrow> do {
          n \<leftarrow> load (h_id hi) c;
          if n_id n = i then do {
            hs \<leftarrow> store (h_hash hi) h (n_next n);
            hashid_unlink (hi\<lparr>h_hash := hs\<rparr>) c
          }
          else do {
            r \<leftarrow> repeat_step (remove_step hi i) c;
            case r of
              None \<Rightarrow> Some (-1, hi)
            | Some (c, t) \<Rightarrow> do {
                nc \<leftarrow> load (h_id hi) c;
                nt \<leftarrow> load (h_id hi) t;
                ns \<leftarrow> store (h_id hi) c (nc\<lparr>n_next := n_next nt\<rparr>);
                hashid_unlink (hi\<lparr>h_id := ns\<rparr>) t
              }
          }
        })
   }"

text \<open>The probing loop of \<open>hashid_insert\<close> leaves with the first free node.\<close>

definition probe :: "hashid \<Rightarrow> int \<Rightarrow> nat \<Rightarrow> unit \<Rightarrow> (nat + unit) option" where
  "probe hi i k u = do {
     x \<leftarrow> c_int (int k + i);
     let index = c_rem x (int (h_cap hi));
     if index < 0 then None
     else do {
       n \<leftarrow> load (h_id hi) (nat index);
       Some (if n_id n = -1 then Inl (nat index) else Inr ())
     }
   }"

definition hashid_insert :: "hashid \<Rightarrow> int \<Rightarrow> (int \<times> hashid) option" where
  "hashid_insert hi i = do {
     r \<leftarrow> for_exit (probe hi i) [0..<h_cap hi] ();
     (case r of
        Inr _ \<Rightarrow> None
      | Inl c \<Rightarrow> do {
          n \<leftarrow> load (h_id hi) c;
          if n_next n \<noteq> None then None
          else do {
            b \<leftarrow> load (h_hash hi) (hash_of hi i);
            ns \<leftarrow> store (h_id hi) c \<lparr>n_id = i, n_next = b\<rparr>;
            hs \<leftarrow> store (h_hash hi) (hash_of hi i) (Some c);
            Some (int c, hi\<lparr>h_id := ns, h_hash := hs, h_count := h_count hi + 1\<rparr>)
          }
        })
   }"

definition hashid_full :: "hashid \<Rightarrow> bool" where
  "hashid_full hi \<longleftrightarrow> h_count hi = int (h_cap hi)"

section \<open>The interface\<close>

text \<open>
  \<open>slot t\<close> is the partial map from ids to slots. A client relies on these laws only: an id is
  found where it was inserted until it is removed, distinct ids have distinct slots, and an
  insertion works as long as the table is not full.
\<close>

locale id_table =
  fixes insert :: "'t \<Rightarrow> int \<Rightarrow> (int \<times> 't) option"
    and remove :: "'t \<Rightarrow> int \<Rightarrow> (int \<times> 't) option"
    and lookup :: "'t \<Rightarrow> int \<Rightarrow> int option"
    and full :: "'t \<Rightarrow> bool"
    and key_ok :: "'t \<Rightarrow> int \<Rightarrow> bool"
    and slot :: "'t \<Rightarrow> int \<rightharpoonup> nat"
    and invar :: "'t \<Rightarrow> bool"
  assumes lookup_slot: "invar t \<Longrightarrow> lookup t i = Some (case slot t i of None \<Rightarrow> -1 | Some k \<Rightarrow> int k)"
    and insert_slot: "invar t \<Longrightarrow> key_ok t i \<Longrightarrow> slot t i = None \<Longrightarrow> \<not> full t \<Longrightarrow>
      \<exists>k t'. insert t i = Some (int k, t') \<and> invar t' \<and> slot t' = (slot t)(i \<mapsto> k) \<and> k \<notin> ran (slot t)"
    and remove_slot: "invar t \<Longrightarrow>
      \<exists>t'. remove t i = Some (case slot t i of None \<Rightarrow> -1 | Some k \<Rightarrow> int k, t') \<and> invar t' \<and>
        slot t' = (slot t)(i := None)"
    and slot_inj: "invar t \<Longrightarrow> slot t i = Some k \<Longrightarrow> slot t j = Some k \<Longrightarrow> i = j"
begin

lemma insert_then_lookup:
  assumes "invar t" "key_ok t i" "slot t i = None" "\<not> full t"
  shows "\<exists>k t'. insert t i = Some (int k, t') \<and> lookup t' i = Some (int k) \<and>
    (\<forall>j. j \<noteq> i \<longrightarrow> lookup t' j = lookup t j) \<and>
    (\<exists>t''. remove t' i = Some (int k, t'') \<and> (\<forall>j. lookup t'' j = lookup t j))"
proof -
  obtain k t' where t': "insert t i = Some (int k, t')" "invar t'" "slot t' = (slot t)(i \<mapsto> k)"
    using insert_slot [OF assms] by blast
  obtain t'' where t'': "remove t' i = Some (int k, t'')" "invar t''" "slot t'' = (slot t')(i := None)"
    using remove_slot [OF t'(2), of i] t'(3) by auto
  have "slot t'' = slot t" using t'' t' assms(3) by auto
  then show ?thesis using t' t'' assms(1) lookup_slot by auto
qed

end

section \<open>The table implements it\<close>

abbreviation chain :: "hashid_node list \<Rightarrow> nat option \<Rightarrow> nat list \<Rightarrow> bool" where
  "chain \<equiv> linked n_next"

definition used :: "hashid \<Rightarrow> nat \<Rightarrow> bool" where
  "used hi k \<longleftrightarrow> k < length (h_id hi) \<and> n_id (h_id hi ! k) \<noteq> -1"

definition hid_slot :: "hashid \<Rightarrow> int \<Rightarrow> nat option" where
  "hid_slot hi i = find (\<lambda>k. n_id (h_id hi ! k) = i \<and> i \<noteq> -1) [0..<length (h_id hi)]"

definition hash_inv :: "hashid \<Rightarrow> (nat \<Rightarrow> nat list) \<Rightarrow> bool" where
  "hash_inv hi cs \<longleftrightarrow> 0 \<le> h_hashmod hi \<and> int (length (h_hash hi)) = h_hashmod hi + 1 \<and> length (h_id hi) = h_cap hi \<and>
     (\<forall>b < length (h_hash hi). chain (h_id hi) (h_hash hi ! b) (cs b) \<and> distinct (cs b)) \<and>
     (\<forall>b k. k \<in> set (cs b) \<longrightarrow> used hi k \<and> hash_of hi (n_id (h_id hi ! k)) = b) \<and>
     (\<forall>k. used hi k \<longrightarrow> k \<in> set (cs (hash_of hi (n_id (h_id hi ! k))))) \<and>
     (\<forall>k < length (h_id hi). \<not> used hi k \<longrightarrow> n_next (h_id hi ! k) = None) \<and>
     (\<forall>k l. used hi k \<longrightarrow> used hi l \<longrightarrow> n_id (h_id hi ! k) = n_id (h_id hi ! l) \<longrightarrow> k = l) \<and>
     h_count hi = int (card {k. used hi k})"

definition hash_ok :: "hashid \<Rightarrow> bool" where
  "hash_ok hi \<longleftrightarrow> (\<exists>cs. hash_inv hi cs)"

text \<open>The ids the code can insert: not negative, and small enough for the probing arithmetic.\<close>

definition hash_key_ok :: "hashid \<Rightarrow> int \<Rightarrow> bool" where
  "hash_key_ok hi i \<longleftrightarrow> 0 \<le> i \<and> i + int (h_cap hi) \<le> 2 ^ 31"

lemma hash_invD:
  assumes "hash_inv hi cs"
  shows "0 \<le> h_hashmod hi" "int (length (h_hash hi)) = h_hashmod hi + 1" "length (h_id hi) = h_cap hi"
    "b < length (h_hash hi) \<Longrightarrow> chain (h_id hi) (h_hash hi ! b) (cs b)"
    "b < length (h_hash hi) \<Longrightarrow> distinct (cs b)"
    "k \<in> set (cs b) \<Longrightarrow> used hi k" "k \<in> set (cs b) \<Longrightarrow> hash_of hi (n_id (h_id hi ! k)) = b"
    "used hi k \<Longrightarrow> k \<in> set (cs (hash_of hi (n_id (h_id hi ! k))))"
    "k < length (h_id hi) \<Longrightarrow> \<not> used hi k \<Longrightarrow> n_next (h_id hi ! k) = None"
    "used hi k \<Longrightarrow> used hi l \<Longrightarrow> n_id (h_id hi ! k) = n_id (h_id hi ! l) \<Longrightarrow> k = l"
    "h_count hi = int (card {k. used hi k})"
  using assms unfolding hash_inv_def by blast+

lemma hash_of_less:
  assumes "hash_inv hi cs"
  shows "hash_of hi i < length (h_hash hi)"
proof -
  have "0 \<le> i AND h_hashmod hi" "i AND h_hashmod hi \<le> h_hashmod hi"
    using hash_invD(1) [OF assms] by (simp_all add: AND_upper2)
  then show ?thesis using hash_invD(2) [OF assms] unfolding hash_of_def by linarith
qed

lemma used_ge_0: "used hi k \<Longrightarrow> k < length (h_id hi)"
  by (simp add: used_def)

lemma finite_used: "finite {k. used hi k}"
  by (rule finite_subset [of _ "{..<length (h_id hi)}"]) (auto simp: used_def)

lemma hid_slot_iff:
  assumes "hash_inv hi cs"
  shows "hid_slot hi i = Some k \<longleftrightarrow> used hi k \<and> n_id (h_id hi ! k) = i"
proof
  assume "hid_slot hi i = Some k"
  then show "used hi k \<and> n_id (h_id hi ! k) = i"
    by (auto simp: hid_slot_def find_Some_iff used_def)
next
  assume a: "used hi k \<and> n_id (h_id hi ! k) = i"
  then have "hid_slot hi i \<noteq> None" by (auto simp: hid_slot_def find_None_iff used_def)
  then obtain l where l: "hid_slot hi i = Some l" by blast
  then have "used hi l \<and> n_id (h_id hi ! l) = i"
    by (auto simp: hid_slot_def find_Some_iff used_def)
  with a hash_invD(10) [OF assms, of l k] l show "hid_slot hi i = Some k" by simp
qed

lemma hid_slot_None:
  "hash_inv hi cs \<Longrightarrow> hid_slot hi i = None \<longleftrightarrow> (\<forall>k. used hi k \<longrightarrow> n_id (h_id hi ! k) \<noteq> i)"
  using hid_slot_iff [of hi cs i] by (metis not_None_eq)

section \<open>Lookup\<close>

lemma lookup_chain:
  "chain (h_id hi) p ks \<Longrightarrow> repeat_step (lookup_step hi i) p =
     Some (case find (\<lambda>k. n_id (h_id hi ! k) = i) ks of None \<Rightarrow> -1 | Some k \<Rightarrow> int k)"
proof (induction ks arbitrary: p)
  case Nil
  then show ?case by (simp add: repeat_step_Inr lookup_step_def)
next
  case (Cons k ks)
  show ?case
  proof (cases "n_id (h_id hi ! k) = i")
    case True
    then show ?thesis using Cons.prems
      by (simp add: repeat_step_Inr [of _ _ "int k"] lookup_step_def mem_simps)
  next
    case False
    then have "repeat_step (lookup_step hi i) p = repeat_step (lookup_step hi i) (n_next (h_id hi ! k))"
      using Cons.prems by (intro repeat_step_Inl) (simp add: lookup_step_def mem_simps)
    then show ?thesis using Cons.IH Cons.prems False by simp
  qed
qed

lemma find_bucket:
  assumes "hash_inv hi cs"
  shows "find (\<lambda>k. n_id (h_id hi ! k) = i) (cs (hash_of hi i)) = hid_slot hi i"
proof (cases "find (\<lambda>k. n_id (h_id hi ! k) = i) (cs (hash_of hi i))")
  case None
  have "hid_slot hi i = None"
  proof (rule ccontr)
    assume "hid_slot hi i \<noteq> None"
    then obtain k where "used hi k" "n_id (h_id hi ! k) = i" using hid_slot_iff [OF assms] by blast
    then have "k \<in> set (cs (hash_of hi i))" using hash_invD(8) [OF assms, of k] by simp
    with None \<open>n_id (h_id hi ! k) = i\<close> show False by (auto simp: find_None_iff)
  qed
  with None show ?thesis by simp
next
  case (Some k)
  then have "k \<in> set (cs (hash_of hi i))" "n_id (h_id hi ! k) = i" by (auto simp: find_Some_iff)
  then have "hid_slot hi i = Some k"
    using hash_invD(6) [OF assms] hid_slot_iff [OF assms] by blast
  with Some show ?thesis by simp
qed

lemma hashid_lookup_slot:
  assumes "hash_ok hi"
  shows "hashid_lookup hi i = Some (case hid_slot hi i of None \<Rightarrow> -1 | Some k \<Rightarrow> int k)"
proof -
  obtain cs where inv: "hash_inv hi cs" using assms by (auto simp: hash_ok_def)
  note b = hash_of_less [OF inv, of i]
  show ?thesis
    using lookup_chain [OF hash_invD(4) [OF inv b], of i] b
    by (simp add: hashid_lookup_def mem_simps find_bucket [OF inv])
qed

section \<open>Removal\<close>

text \<open>A state in which node \<open>t\<close> was taken out of its chain and freed.\<close>

lemma hash_inv_unlink:
  assumes inv: "hash_inv hi cs" and t: "used hi t" and b: "b = hash_of hi (n_id (h_id hi ! t))"
    and same: "h_hashmod hi' = h_hashmod hi" "h_cap hi' = h_cap hi"
      "length (h_hash hi') = length (h_hash hi)" "length (h_id hi') = length (h_id hi)"
      "h_count hi' = h_count hi - 1"
    and ids: "\<And>k. k < length (h_id hi) \<Longrightarrow>
      n_id (h_id hi' ! k) = (if k = t then -1 else n_id (h_id hi ! k))"
    and nexts: "\<And>k. k < length (h_id hi) \<Longrightarrow> k = t \<or> \<not> used hi k \<Longrightarrow> n_next (h_id hi' ! k) = None"
    and ch: "\<And>b'. b' < length (h_hash hi) \<Longrightarrow>
      chain (h_id hi') (h_hash hi' ! b') ((cs(b := remove1 t (cs b))) b')"
  shows "hash_inv hi' (cs(b := remove1 t (cs b)))"
    "hid_slot hi' = (hid_slot hi)(n_id (h_id hi ! t) := None)"
proof -
  have u: "used hi' k \<longleftrightarrow> used hi k \<and> k \<noteq> t" for k
    using ids [of k] same(4) by (cases "k = t") (auto simp: used_def)
  have h: "hash_of hi' = hash_of hi" using same by (simp add: hash_of_def fun_eq_iff)
  have tb: "b < length (h_hash hi)" using hash_of_less [OF inv] b by simp
  have rm: "set (remove1 t (cs b)) = set (cs b) - {t}"
    using hash_invD(5) [OF inv tb] by simp
  have "{k. used hi' k} = {k. used hi k} - {t}" using u by auto
  then have "Suc (card {k. used hi' k}) = card {k. used hi k}"
    using card_Suc_Diff1 [OF finite_used [of hi], of t] t by simp
  then have cnt: "h_count hi' = int (card {k. used hi' k})"
    using same(5) hash_invD(11) [OF inv] by linarith
  have idk: "n_id (h_id hi' ! k) = n_id (h_id hi ! k)" if "used hi k" "k \<noteq> t" for k
    using ids [of k] that by (simp add: used_def)
  show inv': "hash_inv hi' (cs(b := remove1 t (cs b)))"
    unfolding hash_inv_def same(1-4) h u
  proof (intro conjI allI impI)
    fix b' assume b': "b' < length (h_hash hi)"
    show "chain (h_id hi') (h_hash hi' ! b') ((cs(b := remove1 t (cs b))) b')" by (rule ch [OF b'])
    show "distinct ((cs(b := remove1 t (cs b))) b')" using hash_invD(5) [OF inv] b' tb by simp
  next
    fix b' k assume k: "k \<in> set ((cs(b := remove1 t (cs b))) b')"
    then have kc: "k \<in> set (cs b')" using rm by (auto split: if_splits)
    then show "used hi k" using hash_invD(6) [OF inv] by blast
    show "k \<noteq> t" using k rm hash_invD(7) [OF inv kc] b by (auto split: if_splits)
    then show "hash_of hi (n_id (h_id hi' ! k)) = b'"
      using idk [OF \<open>used hi k\<close>] hash_invD(7) [OF inv kc] by simp
  next
    fix k assume "used hi k \<and> k \<noteq> t"
    then show "k \<in> set ((cs(b := remove1 t (cs b))) (hash_of hi (n_id (h_id hi' ! k))))"
      using hash_invD(8) [OF inv, of k] idk rm by auto
  next
    fix k assume "k < length (h_id hi)" "\<not> (used hi k \<and> k \<noteq> t)"
    then show "n_next (h_id hi' ! k) = None" by (intro nexts) auto
  next
    fix k l assume "used hi k \<and> k \<noteq> t" "used hi l \<and> l \<noteq> t" "n_id (h_id hi' ! k) = n_id (h_id hi' ! l)"
    then show "k = l" using hash_invD(10) [OF inv, of k l] idk by metis
  qed (use hash_invD(1,2,3) [OF inv] cnt u in simp_all)
  show "hid_slot hi' = (hid_slot hi)(n_id (h_id hi ! t) := None)"
  proof (rule ext)
    fix i
    show "hid_slot hi' i = ((hid_slot hi)(n_id (h_id hi ! t) := None)) i"
    proof (cases "i = n_id (h_id hi ! t)")
      case True
      have "\<not> (used hi' k \<and> n_id (h_id hi' ! k) = i)" for k
        using hash_invD(10) [OF inv t, of k] True idk u by metis
      then show ?thesis using hid_slot_None [OF inv', of i] True by auto
    next
      case False
      have "hid_slot hi' i = Some k \<longleftrightarrow> hid_slot hi i = Some k" for k
        unfolding hid_slot_iff [OF inv'] hid_slot_iff [OF inv] using u idk False by metis
      then show ?thesis using False by (metis fun_upd_other not_None_eq)
    qed
  qed
qed

text \<open>The search stops at the predecessor of the first node with the id.\<close>

lemma remove_search:
  "chain (h_id hi) (Some c) (c # ks) \<Longrightarrow> repeat_step (remove_step hi i) c =
     Some (case find (\<lambda>k. n_id (h_id hi ! k) = i) ks of
       None \<Rightarrow> None | Some t \<Rightarrow> Some (last (c # takeWhile (\<lambda>k. n_id (h_id hi ! k) \<noteq> i) ks), t))"
proof (induction ks arbitrary: c)
  case Nil
  then show ?case by (simp add: repeat_step_Inr remove_step_def mem_simps)
next
  case (Cons k ks)
  show ?case
  proof (cases "n_id (h_id hi ! k) = i")
    case True
    then show ?thesis using Cons.prems
      by (simp add: repeat_step_Inr [of _ _ "Some (c, k)"] remove_step_def mem_simps)
  next
    case False
    then have "repeat_step (remove_step hi i) c = repeat_step (remove_step hi i) k"
      using Cons.prems by (intro repeat_step_Inl) (simp add: remove_step_def mem_simps)
    then show ?thesis using Cons.IH [of k] Cons.prems False by (simp split: option.split)
  qed
qed

lemma chain_unlink:
  assumes "chain ns p (ys @ c # t # zs)" "distinct (ys @ c # t # zs)"
  shows "chain (ns[c := (ns ! c)\<lparr>n_next := n_next (ns ! t)\<rparr>, t := f]) p (ys @ c # zs)"
  using assms
proof (induction ys arbitrary: p)
  case Nil
  then show ?case by (auto simp: linked_upd)
next
  case (Cons y ys)
  then show ?case by auto
qed

lemma find_split:
  "find P xs = Some t \<Longrightarrow> xs = takeWhile (\<lambda>x. \<not> P x) xs @ t # tl (dropWhile (\<lambda>x. \<not> P x) xs)"
  by (induction xs) (auto split: if_splits)

lemma remove1_middle: "distinct (ys @ t # zs) \<Longrightarrow> remove1 t (ys @ t # zs) = ys @ zs"
  by (simp add: remove1_append)

lemma hashid_remove_slot:
  assumes "hash_ok hi"
  shows "\<exists>hi'. hashid_remove hi i = Some (case hid_slot hi i of None \<Rightarrow> -1 | Some k \<Rightarrow> int k, hi') \<and>
    hash_ok hi' \<and> hid_slot hi' = (hid_slot hi)(i := None)"
proof -
  obtain cs where inv: "hash_inv hi cs" using assms by (auto simp: hash_ok_def)
  let ?b = "hash_of hi i" and ?find = "find (\<lambda>k. n_id (h_id hi ! k) = i)"
  note b = hash_of_less [OF inv, of i]
  have ch: "chain (h_id hi) (h_hash hi ! ?b) (cs ?b)" "distinct (cs ?b)"
    using hash_invD(4,5) [OF inv b] by auto
  have slot: "hid_slot hi i = ?find (cs ?b)" using find_bucket [OF inv] by simp
  have ld: "load (h_hash hi) ?b = Some (h_hash hi ! ?b)" using b by (simp add: mem_simps)
  show ?thesis
  proof (cases "hid_slot hi i")
    case None
    have "hashid_remove hi i = Some (-1, hi)"
    proof (cases "cs ?b")
      case Nil
      then show ?thesis using ch ld by (simp add: hashid_remove_def)
    next
      case (Cons c ks)
      then have "n_id (h_id hi ! c) \<noteq> i" "?find ks = None" using None slot by (auto split: if_splits)
      then show ?thesis
        using ch(1) Cons ld remove_search [of hi c ks i] by (simp add: hashid_remove_def mem_simps)
    qed
    then show ?thesis using None assms by (metis fun_upd_triv option.simps(4))
  next
    case (Some t)
    then have t: "used hi t" "n_id (h_id hi ! t) = i" using hid_slot_iff [OF inv] by auto
    have tl: "t < length (h_id hi)" using t(1) by (rule used_ge_0)
    define zs where "zs = tl (dropWhile (\<lambda>k. n_id (h_id hi ! k) \<noteq> i) (cs ?b))"
    define ys where "ys = takeWhile (\<lambda>k. n_id (h_id hi ! k) \<noteq> i) (cs ?b)"
    have split: "cs ?b = ys @ t # zs"
      using find_split [of "\<lambda>k. n_id (h_id hi ! k) = i" "cs ?b" t] Some slot by (simp add: ys_def zs_def)
    have rm: "remove1 t (cs ?b) = ys @ zs" using remove1_middle ch(2) split by metis
    have others: "chain ns' (h_hash hi ! b') (cs b')"
      if "b' < length (h_hash hi)" "b' \<noteq> ?b" "length ns' = length (h_id hi)"
        "\<And>k. k \<notin> set (cs ?b) \<Longrightarrow> ns' ! k = h_id hi ! k" for b' ns'
    proof (rule linked_cong [OF hash_invD(4) [OF inv that(1)] eq_refl [OF that(3) [symmetric]]])
      fix k assume "k \<in> set (cs b')"
      then have "k \<notin> set (cs ?b)" using hash_invD(7) [OF inv] that(2) by blast
      then show "ns' ! k = h_id hi ! k" by (rule that(4))
    qed
    show ?thesis
    proof (cases ys rule: rev_cases)
      case Nil
      let ?ns = "(h_id hi)[t := \<lparr>n_id = -1, n_next = None\<rparr>]"
      let ?hs = "(h_hash hi)[?b := n_next (h_id hi ! t)]"
      let ?hi = "hi\<lparr>h_hash := ?hs, h_id := ?ns, h_count := h_count hi - 1\<rparr>"
      have "h_hash hi ! ?b = Some t" using ch(1) split Nil by simp
      then have r: "hashid_remove hi i = Some (int t, ?hi)"
        using ld b t(2) tl by (simp add: hashid_remove_def hashid_unlink_def mem_simps)
      have chs: "chain ?ns (?hs ! b') ((cs(?b := remove1 t (cs ?b))) b')"
        if "b' < length (h_hash hi)" for b'
      proof (cases "b' = ?b")
        case True
        then show ?thesis using ch split Nil rm b by (auto simp: linked_upd)
      next
        case False
        then show ?thesis using others [OF that False, of ?ns] split by (simp add: nth_list_update_neq)
      qed
      have ids: "n_id (?ns ! k) = (if k = t then -1 else n_id (h_id hi ! k))" if "k < length (h_id hi)" for k
        using that by (simp add: nth_list_update)
      have nexts: "n_next (?ns ! k) = None" if "k < length (h_id hi)" "k = t \<or> \<not> used hi k" for k
        using that hash_invD(9) [OF inv, of k] by (cases "k = t") auto
      have "hash_inv ?hi (cs(?b := remove1 t (cs ?b))) \<and> hid_slot ?hi = (hid_slot hi)(i := None)"
        using hash_inv_unlink [OF inv t(1), where hi' = ?hi and b = ?b] chs t ids nexts by simp
      then show ?thesis using r Some by (auto simp: hash_ok_def)
    next
      case (snoc ys' c)
      let ?nc = "(h_id hi ! c)\<lparr>n_next := n_next (h_id hi ! t)\<rparr>"
      let ?ns = "(h_id hi)[c := ?nc, t := \<lparr>n_id = -1, n_next = None\<rparr>]"
      let ?hi = "hi\<lparr>h_id := ?ns, h_count := h_count hi - 1\<rparr>"
      have sp: "cs ?b = ys' @ c # t # zs" using split snoc by simp
      have ct: "c \<noteq> t" "c < length (h_id hi)" "used hi c"
        using ch sp linked_lengths [OF ch(1), of c] hash_invD(6) [OF inv, of c ?b] by auto
      obtain c0 ks where ks: "cs ?b = c0 # ks" using sp by (metis append_Cons neq_Nil_conv append_is_Nil_conv)
      have c0: "n_id (h_id hi ! c0) \<noteq> i" "h_hash hi ! ?b = Some c0" "c0 < length (h_id hi)"
        using ch(1) ks ys_def snoc by (auto split: if_splits)
      have fk: "?find ks = Some t" using Some slot ks c0(1) by simp
      have "last (c0 # takeWhile (\<lambda>k. n_id (h_id hi ! k) \<noteq> i) ks) = c"
      proof -
        have "c0 # takeWhile (\<lambda>k. n_id (h_id hi ! k) \<noteq> i) ks = ys' @ [c]" using ys_def ks c0(1) snoc by simp
        then show ?thesis by (metis last_snoc)
      qed
      then have "repeat_step (remove_step hi i) c0 = Some (Some (c, t))"
        using remove_search [of hi c0 ks i] ch(1) ks c0 fk by simp
      then have r: "hashid_remove hi i = Some (int t, ?hi)"
        using ld c0 ct tl by (simp add: hashid_remove_def hashid_unlink_def mem_simps)
      have chs: "chain ?ns (h_hash hi ! b') ((cs(?b := remove1 t (cs ?b))) b')"
        if "b' < length (h_hash hi)" for b'
      proof (cases "b' = ?b")
        case True
        then show ?thesis using chain_unlink [of "h_id hi" "h_hash hi ! ?b" ys' c t zs] ch sp rm snoc by simp
      next
        case False
        then show ?thesis using others [OF that False, of ?ns] sp by (simp add: nth_list_update_neq)
      qed
      have ids: "n_id (?ns ! k) = (if k = t then -1 else n_id (h_id hi ! k))" if "k < length (h_id hi)" for k
        using that by (cases "k = t"; cases "k = c") simp_all
      have nexts: "n_next (?ns ! k) = None" if "k < length (h_id hi)" "k = t \<or> \<not> used hi k" for k
        using that hash_invD(9) [OF inv, of k] ct by (cases "k = t"; cases "k = c") auto
      have "hash_inv ?hi (cs(?b := remove1 t (cs ?b))) \<and> hid_slot ?hi = (hid_slot hi)(i := None)"
        using hash_inv_unlink [OF inv t(1), where hi' = ?hi and b = ?b] chs t ids nexts by simp
      then show ?thesis using r Some by (auto simp: hash_ok_def)
    qed
  qed
qed

section \<open>Insertion\<close>

lemma hash_inv_link:
  assumes inv: "hash_inv hi cs" and c: "c < length (h_id hi)" "\<not> used hi c"
    and i: "i \<noteq> -1" "hid_slot hi i = None"
    and hi': "hi' = hi\<lparr>h_id := (h_id hi)[c := \<lparr>n_id = i, n_next = h_hash hi ! hash_of hi i\<rparr>],
      h_hash := (h_hash hi)[hash_of hi i := Some c], h_count := h_count hi + 1\<rparr>"
  shows "hash_inv hi' (cs(hash_of hi i := c # cs (hash_of hi i)))"
    "hid_slot hi' = (hid_slot hi)(i \<mapsto> c)" "c \<notin> ran (hid_slot hi)"
proof -
  let ?b = "hash_of hi i"
  note b = hash_of_less [OF inv, of i]
  have same: "h_hashmod hi' = h_hashmod hi" "h_cap hi' = h_cap hi"
    "length (h_hash hi') = length (h_hash hi)" "length (h_id hi') = length (h_id hi)"
    "h_count hi' = h_count hi + 1" by (simp_all add: hi')
  have ids: "n_id (h_id hi' ! k) = (if k = c then i else n_id (h_id hi ! k))" for k
    using c by (simp add: hi' nth_list_update)
  have u: "used hi' k \<longleftrightarrow> used hi k \<or> k = c" for k
    using ids same(4) c i(1) by (auto simp: used_def)
  have h: "hash_of hi' = hash_of hi" using same by (simp add: hash_of_def fun_eq_iff)
  have fresh: "n_id (h_id hi ! k) \<noteq> i" if "used hi k" for k
    using hid_slot_None [OF inv] i(2) that by blast
  have nc: "c \<notin> set (cs b')" for b' using hash_invD(6) [OF inv] c(2) by blast
  have "{k. used hi' k} = insert c {k. used hi k}" using u by auto
  then have "card {k. used hi' k} = Suc (card {k. used hi k})"
    using finite_used [of hi] c(2) by simp
  then have cnt: "h_count hi' = int (card {k. used hi' k})"
    using same(5) hash_invD(11) [OF inv] by linarith
  have chs: "chain (h_id hi') (h_hash hi' ! b') ((cs(?b := c # cs ?b)) b')" if "b' < length (h_hash hi)" for b'
    using hash_invD(4) [OF inv that] hash_invD(4) [OF inv b] b c nc
    by (cases "b' = ?b") (simp_all add: hi' linked_upd)
  show inv': "hash_inv hi' (cs(?b := c # cs ?b))"
    unfolding hash_inv_def same(1-4) h u
  proof (intro conjI allI impI)
    fix b' assume b': "b' < length (h_hash hi)"
    show "chain (h_id hi') (h_hash hi' ! b') ((cs(?b := c # cs ?b)) b')" by (rule chs [OF b'])
    show "distinct ((cs(?b := c # cs ?b)) b')" using hash_invD(5) [OF inv] b' b nc by simp
  next
    fix b' k assume k: "k \<in> set ((cs(?b := c # cs ?b)) b')"
    show "used hi k \<or> k = c" using k hash_invD(6) [OF inv] by (auto split: if_splits)
    show "hash_of hi (n_id (h_id hi' ! k)) = b'"
      using k hash_invD(7) [OF inv] nc by (auto simp: ids split: if_splits)
  next
    fix k assume "used hi k \<or> k = c"
    then show "k \<in> set ((cs(?b := c # cs ?b)) (hash_of hi (n_id (h_id hi' ! k))))"
      using hash_invD(8) [OF inv, of k] by (auto simp: ids)
  next
    fix k assume "k < length (h_id hi)" "\<not> (used hi k \<or> k = c)"
    then show "n_next (h_id hi' ! k) = None" using hash_invD(9) [OF inv, of k] by (simp add: hi')
  next
    fix k l assume "used hi k \<or> k = c" "used hi l \<or> l = c" "n_id (h_id hi' ! k) = n_id (h_id hi' ! l)"
    then show "k = l" using hash_invD(10) [OF inv, of k l] fresh by (auto simp: ids split: if_splits)
  qed (use hash_invD(1,2,3) [OF inv] cnt u in simp_all)
  show "hid_slot hi' = (hid_slot hi)(i \<mapsto> c)"
  proof (rule ext)
    fix j
    have "hid_slot hi' j = Some k \<longleftrightarrow> ((hid_slot hi)(i \<mapsto> c)) j = Some k" for k
      unfolding hid_slot_iff [OF inv'] fun_upd_apply using fresh u ids hid_slot_iff [OF inv, of j k] c(2)
      by (auto split: if_splits)
    then show "hid_slot hi' j = ((hid_slot hi)(i \<mapsto> c)) j" by (metis not_None_eq)
  qed
  show "c \<notin> ran (hid_slot hi)" using c(2) hid_slot_iff [OF inv] by (auto simp: ran_def)
qed

text \<open>The probes \<open>i, i + 1, ...\<close> modulo the capacity reach every node.\<close>

lemma probe_eval:
  assumes "hash_key_ok hi i" "length (h_id hi) = h_cap hi" "k < h_cap hi"
  shows "probe hi i k u = (let j = (k + nat i) mod h_cap hi in
    Some (if n_id (h_id hi ! j) = -1 then Inl j else Inr ()))"
proof -
  let ?x = "int k + i" and ?j = "(k + nat i) mod h_cap hi"
  have x: "0 \<le> ?x" "?x < 2 ^ 31" using assms by (auto simp: hash_key_ok_def)
  have "c_rem ?x (int (h_cap hi)) = int ?j"
  proof (cases "?x = 0")
    case True
    then have "k = 0" "i = 0" using assms(1) by (auto simp: hash_key_ok_def)
    then show ?thesis by (simp add: c_rem_def)
  next
    case False
    then show ?thesis using x assms(1) by (simp add: c_rem_def zmod_int hash_key_ok_def)
  qed
  moreover have "?j < length (h_id hi)" using assms by simp
  ultimately show ?thesis using x by (simp add: probe_def c_int_def Let_def mem_simps)
qed

lemma probe_finds:
  assumes key: "hash_key_ok hi i" and len: "length (h_id hi) = h_cap hi"
    and free: "j < h_cap hi" "n_id (h_id hi ! j) = -1"
  shows "\<exists>c. for_exit (probe hi i) [0..<h_cap hi] () = Some (Inl c) \<and> c < h_cap hi \<and> n_id (h_id hi ! c) = -1"
proof -
  let ?q = "\<lambda>k. (k + nat i) mod h_cap hi"
  have run: "set ks \<subseteq> {0..<h_cap hi} \<Longrightarrow> \<exists>k\<in>set ks. n_id (h_id hi ! ?q k) = -1 \<Longrightarrow>
      \<exists>c. for_exit (probe hi i) ks () = Some (Inl c) \<and> c < h_cap hi \<and> n_id (h_id hi ! c) = -1" for ks
  proof (induction ks)
    case (Cons k ks)
    then have "probe hi i k () = Some (if n_id (h_id hi ! ?q k) = -1 then Inl (?q k) else Inr ())"
      using probe_eval [OF key len, of k "()"] by (simp add: Let_def)
    moreover have "?q k < h_cap hi" using free(1) by simp
    ultimately show ?case using Cons by (cases "n_id (h_id hi ! ?q k) = -1") auto
  qed simp
  let ?k = "nat ((int j - i) mod int (h_cap hi))"
  have k: "?k < h_cap hi" using free(1) by (simp add: nat_less_iff)
  have "int (?q ?k) = int j"
    using free(1) key by (simp add: zmod_int hash_key_ok_def mod_simps)
  then have "?q ?k = j" by simp
  then show ?thesis using run [of "[0..<h_cap hi]"] k free(2)
    by (metis atLeastLessThan_iff le0 set_upt subset_refl)
qed

lemma hashid_insert_slot:
  assumes "hash_ok hi" "hash_key_ok hi i" "hid_slot hi i = None" "\<not> hashid_full hi"
  shows "\<exists>k hi'. hashid_insert hi i = Some (int k, hi') \<and> hash_ok hi' \<and>
    hid_slot hi' = (hid_slot hi)(i \<mapsto> k) \<and> k \<notin> ran (hid_slot hi)"
proof -
  obtain cs where inv: "hash_inv hi cs" using assms(1) by (auto simp: hash_ok_def)
  note len = hash_invD(3) [OF inv]
  have "\<exists>j < h_cap hi. \<not> used hi j"
  proof (rule ccontr)
    assume "\<not> ?thesis"
    then have "{k. used hi k} = {..<h_cap hi}" using len by (auto simp: used_def)
    then show False using assms(4) hash_invD(11) [OF inv] by (simp add: hashid_full_def)
  qed
  then obtain j where "j < h_cap hi" "n_id (h_id hi ! j) = -1" using len by (auto simp: used_def)
  from probe_finds [OF assms(2) len this] obtain c where
    c: "for_exit (probe hi i) [0..<h_cap hi] () = Some (Inl c)" "c < h_cap hi" "n_id (h_id hi ! c) = -1"
    by blast
  have free: "c < length (h_id hi)" "\<not> used hi c" "n_next (h_id hi ! c) = None"
    using c len hash_invD(9) [OF inv, of c] by (simp_all add: used_def)
  let ?hi = "hi\<lparr>h_id := (h_id hi)[c := \<lparr>n_id = i, n_next = h_hash hi ! hash_of hi i\<rparr>],
      h_hash := (h_hash hi)[hash_of hi i := Some c], h_count := h_count hi + 1\<rparr>"
  have "hashid_insert hi i = Some (int c, ?hi)"
    using c free hash_of_less [OF inv, of i] by (simp add: hashid_insert_def mem_simps)
  moreover have "i \<noteq> -1" using assms(2) by (simp add: hash_key_ok_def)
  ultimately show ?thesis
    using hash_inv_link [OF inv free(1,2) _ assms(3) refl] by (auto simp: hash_ok_def)
qed

interpretation hid: id_table hashid_insert hashid_remove hashid_lookup hashid_full hash_key_ok hid_slot hash_ok
proof unfold_locales
  fix t i k j assume "hash_ok t" "hid_slot t i = Some k" "hid_slot t j = Some k"
  then show "i = j" using hid_slot_iff unfolding hash_ok_def by metis
qed (fact hashid_lookup_slot hashid_insert_slot hashid_remove_slot)+

section \<open>Initialisation\<close>

lemma hashcap_total:
  assumes "mx \<le> 2 ^ 30"
  shows "\<exists>hc. repeat_step (hashcap_step mx) 16 = Some hc \<and> 16 \<le> hc \<and> int mx \<le> hc"
proof (rule repeat_step_total [where P = "\<lambda>hc. 16 \<le> hc" and m = "\<lambda>hc. nat (int mx - hc)"])
  fix hc :: int assume "16 \<le> hc"
  then show "(\<exists>s'. hashcap_step mx hc = Some (Inl s') \<and> 16 \<le> s' \<and> nat (int mx - s') < nat (int mx - hc)) \<or>
      (\<exists>r. hashcap_step mx hc = Some (Inr r) \<and> 16 \<le> r \<and> int mx \<le> r)"
    using assms by (cases "hc < int mx") (auto simp: hashcap_step_def c_int_def)
qed simp

lemma hashid_init_ok:
  assumes "mx \<le> 2 ^ 30"
  shows "\<exists>hi. hashid_init mx = Some hi \<and> hash_ok hi \<and> h_cap hi = mx \<and> h_count hi = 0 \<and>
    (\<forall>i. hid_slot hi i = None)"
proof -
  obtain hc where hc: "repeat_step (hashcap_step mx) 16 = Some hc" "16 \<le> hc"
    using hashcap_total [OF assms] by blast
  let ?hi = "\<lparr>h_hashmod = hc - 1, h_cap = mx, h_count = 0,
    h_id = replicate mx \<lparr>n_id = -1, n_next = None\<rparr>, h_hash = replicate (nat hc) None\<rparr>"
  have "\<not> used ?hi k" for k by (simp add: used_def)
  then have inv: "hash_inv ?hi (\<lambda>_. [])" using hc(2) by (simp add: hash_inv_def)
  then have "hid_slot ?hi i = None" for i
    using hid_slot_None [OF inv] \<open>\<And>k. \<not> used ?hi k\<close> by blast
  with inv hc show ?thesis by (auto simp: hashid_init_def hash_ok_def)
qed

section \<open>Properties\<close>

text \<open>
  C20. Inserting a new id into a table that is not full succeeds; the id is then found at the slot
  that was returned, every other lookup is unchanged, and removing the id again gives back the
  slot and every earlier answer.
\<close>

theorem hashid_insert_lookup_remove:
  assumes "hash_ok hi" "hash_key_ok hi i" "hid_slot hi i = None" "\<not> hashid_full hi"
  shows "\<exists>k hi'. hashid_insert hi i = Some (int k, hi') \<and> hashid_lookup hi' i = Some (int k) \<and>
    (\<forall>j. j \<noteq> i \<longrightarrow> hashid_lookup hi' j = hashid_lookup hi j) \<and>
    (\<exists>hi''. hashid_remove hi' i = Some (int k, hi'') \<and> (\<forall>j. hashid_lookup hi'' j = hashid_lookup hi j))"
  by (rule hid.insert_then_lookup [OF assms])

theorem hashid_insert_lookup_remove_witness:
  "\<exists>hi k hi'. hashid_init 4 = Some hi \<and> hashid_insert hi 21 = Some (int k, hi') \<and>
     hashid_lookup hi' 21 = Some (int k)"
proof -
  obtain hi where hi: "hashid_init 4 = Some hi" "hash_ok hi" "h_cap hi = 4" "h_count hi = 0"
    "\<And>i. hid_slot hi i = None"
    using hashid_init_ok [of 4] by auto
  from hashid_insert_lookup_remove [OF hi(2), of 21] hi show ?thesis
    by (auto simp: hash_key_ok_def hashid_full_def)
qed

text \<open>
  C21. \<open>hashid_remove\<close> of any id returns its slot, or -1 when it is not there, keeps the table well
  formed, and forgets exactly that id.
\<close>

theorem hashid_remove_correct:
  assumes "hash_ok hi"
  shows "\<exists>hi'. hashid_remove hi i = Some (case hid_slot hi i of None \<Rightarrow> -1 | Some k \<Rightarrow> int k, hi') \<and>
    hash_ok hi' \<and> hid_slot hi' = (hid_slot hi)(i := None)"
  by (rule hid.remove_slot [OF assms])

theorem hashid_remove_correct_witness:
  "\<exists>hi hi'. hashid_init 4 = Some hi \<and> hashid_remove hi 21 = Some (-1, hi')"
proof -
  obtain hi where hi: "hashid_init 4 = Some hi" "hash_ok hi" "\<And>i. hid_slot hi i = None"
    using hashid_init_ok [of 4] by auto
  from hashid_remove_correct [OF hi(2), of 21] hi(1,3) show ?thesis by auto
qed

end
