(* ===== verification/Data_Buffer.thy ===== *)
theory Data_Buffer
  imports Fengnet_Prelude
begin

text \<open>
  The receive buffer of \<^verbatim>\<open>service-src/databuffer.h\<close>: the chunks a socket delivers, as a linked
  list of messages taken from a pool of nodes, read as one stream of bytes and cut into packages
  by a two- or four-byte big-endian length. The interface \<open>byte_stream\<close> states that pushing and
  reading are the operations of a byte stream; the buffer implements it.

  A pointer to a node is its index among all nodes ever allocated by the pool; \<open>None\<close> is a null
  pointer, a failed \<open>assert\<close> or a copy outside a chunk.
\<close>

section \<open>Data\<close>

record message =
  ms_buffer :: "bytes option"
  ms_size :: int
  ms_next :: "nat option"

record databuffer =
  db_header :: int
  db_offset :: int
  db_size :: int
  db_head :: "nat option"
  db_tail :: "nat option"

record messagepool =
  mp_nodes :: "message list"
  mp_freelist :: "nat option"

type_synonym dbuf = "databuffer \<times> messagepool"

definition MESSAGEPOOL :: nat where "MESSAGEPOOL = 1023"

definition databuffer_zero :: databuffer where
  "databuffer_zero = \<lparr>db_header = 0, db_offset = 0, db_size = 0, db_head = None, db_tail = None\<rparr>"

section \<open>Operations\<close>

definition messagepool_free :: "messagepool \<Rightarrow> messagepool" where
  "messagepool_free mp = \<lparr>mp_nodes = [], mp_freelist = None\<rparr>"

definition return_message :: "dbuf \<Rightarrow> dbuf option" where
  "return_message s = (case s of (db, mp) \<Rightarrow> do {
     k \<leftarrow> db_head db;
     m \<leftarrow> load (mp_nodes mp) k;
     db1 \<leftarrow> (case ms_next m of
         None \<Rightarrow> if db_tail db \<noteq> Some k then None else Some (db\<lparr>db_head := None, db_tail := None\<rparr>)
       | Some n \<Rightarrow> Some (db\<lparr>db_head := Some n\<rparr>));
     ns \<leftarrow> store (mp_nodes mp) k \<lparr>ms_buffer = None, ms_size = 0, ms_next = mp_freelist mp\<rparr>;
     Some (db1, mp\<lparr>mp_nodes := ns, mp_freelist := Some k\<rparr>)
   })"

text \<open>One round of the loop of \<open>databuffer_read\<close>: the bytes copied so far and how many are left.\<close>

definition read_step :: "dbuf \<times> bytes \<times> int \<Rightarrow> (dbuf \<times> bytes \<times> int + bytes \<times> dbuf) option" where
  "read_step s = (case s of ((db, mp), out, sz) \<Rightarrow> do {
     k \<leftarrow> db_head db;
     m \<leftarrow> load (mp_nodes mp) k;
     data \<leftarrow> ms_buffer m;
     let bsz = ms_size m - db_offset db;
     if bsz > sz then do {
       bs \<leftarrow> load_n data (nat (db_offset db)) (nat sz);
       Some (Inr (out @ bs, db\<lparr>db_offset := db_offset db + sz\<rparr>, mp))
     }
     else if bsz = sz then do {
       bs \<leftarrow> load_n data (nat (db_offset db)) (nat sz);
       s1 \<leftarrow> return_message (db\<lparr>db_offset := 0\<rparr>, mp);
       Some (Inr (out @ bs, s1))
     }
     else do {
       bs \<leftarrow> load_n data (nat (db_offset db)) (nat bsz);
       (db1, mp1) \<leftarrow> return_message (db, mp);
       Some (Inl ((db1\<lparr>db_offset := 0\<rparr>, mp1), out @ bs, sz - bsz))
     }
   })"

definition databuffer_read :: "dbuf \<Rightarrow> int \<Rightarrow> (bytes \<times> dbuf) option" where
  "databuffer_read s sz = (case s of (db, mp) \<Rightarrow>
     if \<not> db_size db \<ge> sz then None
     else repeat_step read_step ((db\<lparr>db_size := db_size db - sz\<rparr>, mp), [], sz))"

text \<open>A node from the free list, or the first of a new chunk whose other nodes become the free list.\<close>

definition pool_chunk :: "nat \<Rightarrow> message list" where
  "pool_chunk base = map (\<lambda>i. \<lparr>ms_buffer = None, ms_size = 0,
     ms_next = (if i = MESSAGEPOOL - 1 then None else Some (base + i + 1))\<rparr>) [0..<MESSAGEPOOL]"

definition take_node :: "messagepool \<Rightarrow> (nat \<times> messagepool) option" where
  "take_node mp = (case mp_freelist mp of
     Some k \<Rightarrow> do { m \<leftarrow> load (mp_nodes mp) k; Some (k, mp\<lparr>mp_freelist := ms_next m\<rparr>) }
   | None \<Rightarrow>
       let base = length (mp_nodes mp) in
       Some (base, mp\<lparr>mp_nodes := mp_nodes mp @ pool_chunk base, mp_freelist := Some (base + 1)\<rparr>))"

definition databuffer_push :: "dbuf \<Rightarrow> bytes \<Rightarrow> dbuf option" where
  "databuffer_push s data = (case s of (db, mp) \<Rightarrow> do {
     (k, mp1) \<leftarrow> take_node mp;
     let sz = int (length data);
     ns \<leftarrow> store (mp_nodes mp1) k \<lparr>ms_buffer = Some data, ms_size = sz, ms_next = None\<rparr>;
     let db1 = db\<lparr>db_size := db_size db + sz\<rparr>;
     (case db_head db of
        None \<Rightarrow>
          if db_tail db \<noteq> None then None
          else Some (db1\<lparr>db_head := Some k, db_tail := Some k\<rparr>, mp1\<lparr>mp_nodes := ns\<rparr>)
      | Some _ \<Rightarrow> do {
          t \<leftarrow> db_tail db;
          m \<leftarrow> load ns t;
          ns1 \<leftarrow> store ns t (m\<lparr>ms_next := Some k\<rparr>);
          Some (db1\<lparr>db_tail := Some k\<rparr>, mp1\<lparr>mp_nodes := ns1\<rparr>)
        })
   })"

definition be_header :: "bytes \<Rightarrow> int" where
  "be_header plen = foldl (\<lambda>h b. h * 256 + uint b) 0 plen"

text \<open>The result is -1 when the header or the package is not complete yet.\<close>

definition databuffer_readheader :: "dbuf \<Rightarrow> int \<Rightarrow> (int \<times> dbuf) option" where
  "databuffer_readheader s header_size = do {
     r \<leftarrow> (if db_header (fst s) = 0 then
         if db_size (fst s) < header_size then Some None
         else do {
           (plen, db, mp) \<leftarrow> databuffer_read s header_size;
           h \<leftarrow> (if header_size = 2 then Some (be_header plen)
                 else map_option (\<lambda>_. sint (word_of_int (be_header plen) :: u32)) (load plen 3));
           Some (Some (db\<lparr>db_header := h\<rparr>, mp))
         }
       else Some (Some s));
     Some (case r of
       None \<Rightarrow> (-1, s)
     | Some (db, mp) \<Rightarrow> if db_size db < db_header db then (-1, db, mp) else (db_header db, db, mp))
   }"

definition databuffer_reset :: "dbuf \<Rightarrow> dbuf" where
  "databuffer_reset s = (fst s\<lparr>db_header := 0\<rparr>, snd s)"

definition clear_step :: "dbuf \<Rightarrow> (dbuf + dbuf) option" where
  "clear_step s = (if db_head (fst s) = None then Some (Inr s) else map_option Inl (return_message s))"

definition databuffer_clear :: "dbuf \<Rightarrow> dbuf option" where
  "databuffer_clear s = do {
     (_, mp) \<leftarrow> repeat_step clear_step s;
     Some (databuffer_zero, mp)
   }"

section \<open>The interface\<close>

locale byte_stream =
  fixes push :: "'s \<Rightarrow> bytes \<Rightarrow> 's option"
    and read :: "'s \<Rightarrow> int \<Rightarrow> (bytes \<times> 's) option"
    and content :: "'s \<Rightarrow> bytes"
    and invar :: "'s \<Rightarrow> bool"
  assumes push_content: "invar s \<Longrightarrow> \<exists>s'. push s bs = Some s' \<and> invar s' \<and> content s' = content s @ bs"
    and read_content: "invar s \<Longrightarrow> 0 < n \<Longrightarrow> n \<le> length (content s) \<Longrightarrow>
      \<exists>s'. read s (int n) = Some (take n (content s), s') \<and> invar s' \<and> content s' = drop n (content s)"
begin

text \<open>However the bytes arrive in chunks, the stream is their concatenation.\<close>

lemma push_all_content:
  "invar s \<Longrightarrow> \<exists>s'. for_each (\<lambda>c s. push s c) cs s = Some s' \<and> invar s' \<and> content s' = content s @ concat cs"
proof (induction cs arbitrary: s)
  case Nil
  then show ?case by simp
next
  case (Cons c cs)
  obtain s1 where s1: "push s c = Some s1" "invar s1" "content s1 = content s @ c"
    using push_content [OF Cons.prems] by blast
  then show ?case using Cons.IH [OF s1(2)] by auto
qed

end

section \<open>The buffer implements it\<close>

definition node_bytes :: "message \<Rightarrow> bytes" where
  "node_bytes m = (case ms_buffer m of None \<Rightarrow> [] | Some d \<Rightarrow> d)"

text \<open>The bytes from a node on, following at most \<open>n\<close> links.\<close>

fun chain_bytes :: "nat \<Rightarrow> message list \<Rightarrow> nat option \<Rightarrow> bytes" where
  "chain_bytes (Suc n) ns (Some k) =
     (if k < length ns then node_bytes (ns ! k) @ chain_bytes n ns (ms_next (ns ! k)) else [])"
| "chain_bytes n ns p = []"

definition db_content :: "dbuf \<Rightarrow> bytes" where
  "db_content s = drop (nat (db_offset (fst s)))
     (chain_bytes (length (mp_nodes (snd s))) (mp_nodes (snd s)) (db_head (fst s)))"

definition db_shape :: "dbuf \<Rightarrow> nat list \<Rightarrow> nat list \<Rightarrow> bool" where
  "db_shape s xs fs = (case s of (db, mp) \<Rightarrow>
     linked ms_next (mp_nodes mp) (db_head db) xs \<and> linked ms_next (mp_nodes mp) (mp_freelist mp) fs \<and>
     distinct (xs @ fs) \<and> db_tail db = (if xs = [] then None else Some (last xs)) \<and>
     (\<forall>k\<in>set xs. \<exists>d. ms_buffer (mp_nodes mp ! k) = Some d \<and> ms_size (mp_nodes mp ! k) = int (length d)) \<and>
     0 \<le> db_offset db \<and>
     db_offset db \<le> (if xs = [] then 0 else ms_size (mp_nodes mp ! hd xs)))"

definition db_inv :: "dbuf \<Rightarrow> bool" where
  "db_inv s \<longleftrightarrow> (\<exists>xs fs. db_shape s xs fs) \<and> db_size (fst s) = int (length (db_content s))"

lemma db_shape_header [simp]: "db_shape (db\<lparr>db_header := h\<rparr>, mp) = db_shape (db, mp)"
  by (intro ext) (simp add: db_shape_def)

lemma db_invI: "db_shape s xs fs \<Longrightarrow> db_size (fst s) = int (length (db_content s)) \<Longrightarrow> db_inv s"
  by (auto simp: db_inv_def)

abbreviation bytes_of :: "message list \<Rightarrow> nat list \<Rightarrow> bytes" where
  "bytes_of ns xs \<equiv> concat (map (\<lambda>k. node_bytes (ns ! k)) xs)"

lemma chain_bytes_linked:
  "linked ms_next ns p xs \<Longrightarrow> length xs \<le> n \<Longrightarrow> chain_bytes n ns p = bytes_of ns xs"
proof (induction xs arbitrary: p n)
  case Nil
  then show ?case by (cases n) auto
next
  case (Cons k xs)
  then show ?case by (cases n) auto
qed

lemma linked_distinct_length:
  assumes "linked nxt ns p xs" "distinct xs"
  shows "length xs \<le> length ns"
proof -
  have "set xs \<subseteq> {..<length ns}" using linked_lengths [OF assms(1)] by auto
  then have "card (set xs) \<le> length ns" using card_mono [of "{..<length ns}" "set xs"] by simp
  then show ?thesis using assms(2) by (simp add: distinct_card)
qed

lemma db_content_shape:
  assumes "db_shape (db, mp) xs fs"
  shows "db_content (db, mp) = drop (nat (db_offset db)) (bytes_of (mp_nodes mp) xs)"
proof -
  have "linked ms_next (mp_nodes mp) (db_head db) xs" "distinct xs"
    using assms by (simp_all add: db_shape_def)
  then show ?thesis
    using chain_bytes_linked linked_distinct_length unfolding db_content_def fst_conv snd_conv by metis
qed

lemma bytes_of_cong: "(\<And>k. k \<in> set xs \<Longrightarrow> ns' ! k = ns ! k) \<Longrightarrow> bytes_of ns' xs = bytes_of ns xs"
  by (induction xs) auto

lemma return_message_ok:
  assumes "db_shape (db, mp) (k # xs) fs"
  shows "\<exists>db' mp'. return_message (db, mp) = Some (db', mp') \<and>
    db_shape (db'\<lparr>db_offset := 0\<rparr>, mp') xs (k # fs) \<and> db_offset db' = db_offset db \<and>
    db_size db' = db_size db \<and> db_header db' = db_header db \<and>
    bytes_of (mp_nodes mp') xs = bytes_of (mp_nodes mp) xs"
proof -
  note sh = assms [unfolded db_shape_def prod.case]
  let ?ns = "(mp_nodes mp)[k := \<lparr>ms_buffer = None, ms_size = 0, ms_next = mp_freelist mp\<rparr>]"
  let ?mp = "mp\<lparr>mp_nodes := ?ns, mp_freelist := Some k\<rparr>"
  let ?db = "if xs = [] then db\<lparr>db_head := None, db_tail := None\<rparr> else db\<lparr>db_head := Some (hd xs)\<rparr>"
  have k: "k < length (mp_nodes mp)" "db_head db = Some k" "k \<notin> set xs" "k \<notin> set fs"
    using sh by auto
  have nx: "ms_next (mp_nodes mp ! k) = (if xs = [] then None else Some (hd xs))"
    using sh by (cases xs) auto
  have "return_message (db, mp) = Some (?db, ?mp)"
    using k nx sh by (cases "xs = []") (simp_all add: return_message_def mem_simps)
  moreover have "db_shape (?db\<lparr>db_offset := 0\<rparr>, ?mp) xs (k # fs)"
  proof -
    have "?ns ! j = mp_nodes mp ! j" if "j \<in> set xs" for j using that k(3) by (metis nth_list_update_neq)
    then show ?thesis using sh k by (cases xs) (auto simp: db_shape_def linked_upd)
  qed
  moreover have "bytes_of ?ns xs = bytes_of (mp_nodes mp) xs"
    by (rule bytes_of_cong) (use k(3) in \<open>metis nth_list_update_neq\<close>)
  ultimately show ?thesis by (intro exI [of _ ?db] exI [of _ ?mp]) simp
qed

lemma read_loop:
  "db_shape (db, mp) xs fs \<Longrightarrow> 0 < sz \<Longrightarrow> sz \<le> length (db_content (db, mp)) \<Longrightarrow>
   \<exists>db' mp' xs' fs'. repeat_step read_step ((db, mp), out, int sz) =
       Some (out @ take sz (db_content (db, mp)), db', mp') \<and> db_shape (db', mp') xs' fs' \<and>
     db_content (db', mp') = drop sz (db_content (db, mp)) \<and> db_size db' = db_size db \<and>
     db_header db' = db_header db"
proof (induction xs arbitrary: db mp fs out sz)
  case Nil
  then show ?case using db_content_shape [OF Nil.prems(1)] by simp
next
  case (Cons k xs)
  note sh = Cons.prems(1) [unfolded db_shape_def prod.case]
  obtain d where d: "ms_buffer (mp_nodes mp ! k) = Some d" "ms_size (mp_nodes mp ! k) = int (length d)"
    using sh by auto
  obtain off where off: "db_offset db = int off" "off \<le> length d" using sh d(2) by (auto elim: nonneg_int_cases)
  have k: "k < length (mp_nodes mp)" "db_head db = Some k" using sh by auto
  let ?rest = "bytes_of (mp_nodes mp) xs"
  have c: "db_content (db, mp) = drop off d @ ?rest"
    using db_content_shape [OF Cons.prems(1)] d off by (simp add: node_bytes_def)
  obtain db1 mp1 where ret: "return_message (db, mp) = Some (db1, mp1)"
    "db_shape (db1\<lparr>db_offset := 0\<rparr>, mp1) xs (k # fs)" "db_size db1 = db_size db"
    "db_header db1 = db_header db" "bytes_of (mp_nodes mp1) xs = ?rest"
    using return_message_ok [OF Cons.prems(1)] by blast
  have c1: "db_content (db1\<lparr>db_offset := 0\<rparr>, mp1) = ?rest"
    using db_content_shape [OF ret(2)] ret(5) by simp
  consider "sz < length d - off" | "sz = length d - off" | "length d - off < sz" by linarith
  then show ?case
  proof cases
    case 1
    let ?db = "db\<lparr>db_offset := int (off + sz)\<rparr>"
    have "read_step ((db, mp), out, int sz) = Some (Inr (out @ take sz (drop off d), ?db, mp))"
    proof -
      have "int sz < int (length d) - int off" using 1 by linarith
      then show ?thesis using k d off 1 by (simp add: read_step_def mem_simps Let_def)
    qed
    moreover have sh1: "db_shape (?db, mp) (k # xs) fs" using sh d 1 by (auto simp: db_shape_def)
    moreover have "db_content (?db, mp) = drop sz (db_content (db, mp))"
      using db_content_shape [OF sh1] d 1 c by (simp add: node_bytes_def add.commute nat_int_add)
    ultimately show ?thesis using c 1 by (fastforce simp: repeat_step_Inr)
  next
    case 2
    have "db_shape (db\<lparr>db_offset := 0\<rparr>, mp) (k # xs) fs" using sh d by (auto simp: db_shape_def)
    from return_message_ok [OF this] obtain db2 mp2 where
      r2: "return_message (db\<lparr>db_offset := 0\<rparr>, mp) = Some (db2, mp2)"
      "db_shape (db2\<lparr>db_offset := 0\<rparr>, mp2) xs (k # fs)" "db_offset db2 = 0" "db_size db2 = db_size db"
      "db_header db2 = db_header db" "bytes_of (mp_nodes mp2) xs = ?rest" by auto
    have "db2\<lparr>db_offset := 0\<rparr> = db2" using r2(3) by simp
    then have sh2: "db_shape (db2, mp2) xs (k # fs)" using r2(2) by simp
    have "read_step ((db, mp), out, int sz) = Some (Inr (out @ drop off d, db2, mp2))"
    proof -
      have "int (length d) - int off = int sz" using 2 off by linarith
      then show ?thesis using k d off 2 r2(1) by (simp add: read_step_def mem_simps Let_def)
    qed
    moreover have "db_content (db2, mp2) = ?rest" using db_content_shape [OF sh2] r2 by simp
    ultimately show ?thesis using c 2 sh2 r2 off by (fastforce simp: repeat_step_Inr)
  next
    case 3
    let ?n = "length d - off"
    have "read_step ((db, mp), out, int sz) =
        Some (Inl ((db1\<lparr>db_offset := 0\<rparr>, mp1), out @ drop off d, int (sz - ?n)))"
    proof -
      have "\<not> int sz < int (length d) - int off" "int (length d) - int off \<noteq> int sz"
        "nat (int (length d) - int off) = ?n" "int sz - (int (length d) - int off) = int (sz - ?n)"
        using 3 off by linarith+
      then show ?thesis using k d off ret(1) by (simp add: read_step_def mem_simps Let_def)
    qed
    then have eq: "repeat_step read_step ((db, mp), out, int sz) =
        repeat_step read_step ((db1\<lparr>db_offset := 0\<rparr>, mp1), out @ drop off d, int (sz - ?n))"
      by (rule repeat_step_Inl)
    have "sz - ?n \<le> length (db_content (db1\<lparr>db_offset := 0\<rparr>, mp1))"
      using Cons.prems(3) c c1 off by simp
    from Cons.IH [OF ret(2) _ this, of "out @ drop off d"] 3
    show ?thesis unfolding eq c1 c using ret(3,4) off by simp
  qed
qed

lemma databuffer_read_ok:
  assumes inv: "db_inv s" and n: "0 < n" "n \<le> length (db_content s)"
  shows "\<exists>s'. databuffer_read s (int n) = Some (take n (db_content s), s') \<and> db_inv s' \<and>
    db_content s' = drop n (db_content s) \<and> db_header (fst s') = db_header (fst s)"
proof -
  obtain db mp where s: "s = (db, mp)" by (cases s)
  obtain xs fs where sh: "db_shape (db, mp) xs fs" and sz: "db_size db = int (length (db_content (db, mp)))"
    using inv by (auto simp: db_inv_def s)
  let ?db = "db\<lparr>db_size := db_size db - int n\<rparr>"
  have sh1: "db_shape (?db, mp) xs fs" using sh by (cases xs) (simp_all add: db_shape_def)
  have c: "db_content (?db, mp) = db_content (db, mp)" by (simp add: db_content_def)
  obtain db' mp' xs' fs' where r: "repeat_step read_step ((?db, mp), [], int n) =
      Some (take n (db_content (db, mp)), db', mp')" "db_shape (db', mp') xs' fs'"
    "db_content (db', mp') = drop n (db_content (db, mp))" "db_size db' = db_size db - int n"
    "db_header db' = db_header db"
    using read_loop [OF sh1 n(1), of "[]"] n(2) by (auto simp: c s)
  have "databuffer_read s (int n) = Some (take n (db_content s), db', mp')"
    using r(1) n(2) sz by (simp add: databuffer_read_def s)
  moreover have "db_inv (db', mp')" using r(2-4) sz n(2) by (auto simp: db_inv_def s)
  ultimately show ?thesis using r(3,5) by (auto simp: s)
qed

lemma linked_pool_chunk:
  "Suc j \<le> MESSAGEPOOL \<Longrightarrow> linked ms_next (ns @ pool_chunk (length ns)) (Some (length ns + j))
     [length ns + j..<length ns + MESSAGEPOOL]"
proof (induction "MESSAGEPOOL - Suc j" arbitrary: j)
  case 0
  then have "j = MESSAGEPOOL - 1" "[length ns + j..<length ns + MESSAGEPOOL] = [length ns + j]"
    by (auto simp: upt_rec)
  moreover have "\<not> length ns + MESSAGEPOOL - Suc 0 < length ns" by (simp add: MESSAGEPOOL_def)
  ultimately show ?case using 0 by (simp add: pool_chunk_def nth_append)
next
  case (Suc n)
  then have "linked ms_next (ns @ pool_chunk (length ns)) (Some (length ns + Suc j))
      [length ns + Suc j..<length ns + MESSAGEPOOL]" by (intro Suc.hyps(1)) auto
  moreover have "[length ns + j..<length ns + MESSAGEPOOL] =
      (length ns + j) # [length ns + Suc j..<length ns + MESSAGEPOOL]"
    using Suc.prems by (simp add: upt_conv_Cons)
  ultimately show ?case using Suc.hyps(2) Suc.prems by (simp add: pool_chunk_def nth_append)
qed

lemma length_pool_chunk [simp]: "length (pool_chunk b) = MESSAGEPOOL"
  by (simp add: pool_chunk_def)

lemma take_node_ok:
  assumes "db_shape (db, mp) xs fs"
  shows "\<exists>k mp' fs'. take_node mp = Some (k, mp') \<and> db_shape (db, mp') xs fs' \<and> k \<notin> set xs \<and>
    k \<notin> set fs' \<and> k < length (mp_nodes mp') \<and> bytes_of (mp_nodes mp') xs = bytes_of (mp_nodes mp) xs"
proof (cases fs)
  case Nil
  note sh = assms [unfolded db_shape_def prod.case Nil]
  let ?b = "length (mp_nodes mp)"
  let ?ns = "mp_nodes mp @ pool_chunk ?b"
  let ?mp = "mp\<lparr>mp_nodes := ?ns, mp_freelist := Some (?b + 1)\<rparr>"
  have old: "x < ?b" if "x \<in> set xs" for x using sh linked_lengths that by blast
  then have same: "?ns ! x = mp_nodes mp ! x" if "x \<in> set xs" for x using that by (simp add: nth_append)
  have "linked ms_next ?ns (Some (?b + 1)) [?b + 1..<?b + MESSAGEPOOL]"
    by (rule linked_pool_chunk) (simp add: MESSAGEPOOL_def)
  moreover have "linked ms_next ?ns (db_head db) xs"
    by (rule linked_cong [OF conjunct1 [OF sh] _ same]) simp
  ultimately have "db_shape (db, ?mp) xs [?b + 1..<?b + MESSAGEPOOL]"
  proof -
    assume l: "linked ms_next ?ns (Some (?b + 1)) [?b + 1..<?b + MESSAGEPOOL]" "linked ms_next ?ns (db_head db) xs"
    have "set xs \<inter> set [?b + 1..<?b + MESSAGEPOOL] = {}" by (auto dest: old)
    then have "distinct (xs @ [?b + 1..<?b + MESSAGEPOOL])" using sh by (simp add: distinct_append)
    moreover have "\<forall>k\<in>set xs. \<exists>d. ms_buffer (?ns ! k) = Some d \<and> ms_size (?ns ! k) = int (length d)"
      using sh same by simp
    moreover have "db_offset db \<le> (if xs = [] then 0 else ms_size (?ns ! hd xs))"
      using sh same by (cases xs) simp_all
    ultimately show ?thesis using sh l unfolding db_shape_def prod.case
      by (cases "xs = []") simp_all
  qed
  moreover have "bytes_of ?ns xs = bytes_of (mp_nodes mp) xs" using same by (rule bytes_of_cong)
  moreover have "take_node mp = Some (?b, ?mp)" using sh by (simp add: take_node_def Let_def)
  moreover have "?b \<notin> set xs" using old by blast
  ultimately show ?thesis
    by (intro exI [of _ ?b] exI [of _ ?mp] exI [of _ "[?b + 1..<?b + MESSAGEPOOL]"])
      (simp add: MESSAGEPOOL_def)
next
  case (Cons k fs')
  note sh = assms [unfolded db_shape_def prod.case Cons]
  let ?mp = "mp\<lparr>mp_freelist := ms_next (mp_nodes mp ! k)\<rparr>"
  have "take_node mp = Some (k, ?mp)" using sh by (simp add: take_node_def mem_simps)
  moreover have "db_shape (db, ?mp) xs fs'" using sh by (cases "xs = []") (simp_all add: db_shape_def)
  ultimately show ?thesis using sh
    by (intro exI [of _ k] exI [of _ ?mp] exI [of _ fs']) auto
qed

lemma db_shape_append:
  fixes data :: bytes
  assumes sh: "db_shape (db, mp) xs fs" and k: "k \<notin> set xs" "k \<notin> set fs" "k < length (mp_nodes mp)"
  defines "ns \<equiv> (mp_nodes mp)[k := \<lparr>ms_buffer = Some data, ms_size = int (length data), ms_next = None\<rparr>]"
  defines "ns' \<equiv> (if xs = [] then ns else ns[last xs := (ns ! last xs)\<lparr>ms_next := Some k\<rparr>])"
  shows "db_shape (db\<lparr>db_size := sz, db_head := (if xs = [] then Some k else db_head db), db_tail := Some k\<rparr>,
      mp\<lparr>mp_nodes := ns'\<rparr>) (xs @ [k]) fs"
    "bytes_of ns' (xs @ [k]) = bytes_of (mp_nodes mp) xs @ data"
proof -
  note s = sh [unfolded db_shape_def prod.case]
  have nb: "ms_buffer (ns' ! j) = ms_buffer (mp_nodes mp ! j)" "ms_size (ns' ! j) = ms_size (mp_nodes mp ! j)"
    if "j \<in> set xs" for j
    using that k linked_lengths [of ms_next "mp_nodes mp" "db_head db" xs] s
    by (auto simp: ns'_def ns_def nth_list_update)
  have kn: "ns' ! k = \<lparr>ms_buffer = Some data, ms_size = int (length data), ms_next = None\<rparr>"
  proof -
    have "xs \<noteq> [] \<Longrightarrow> last xs \<noteq> k" using k(1) last_in_set by metis
    then show ?thesis using k by (simp add: ns'_def ns_def)
  qed
  have len: "length ns' = length (mp_nodes mp)" by (simp add: ns'_def ns_def)
  have l1: "linked ms_next ns' (if xs = [] then Some k else db_head db) (xs @ [k])"
  proof (cases xs rule: rev_cases)
    case Nil
    then show ?thesis using k by (simp add: ns'_def ns_def)
  next
    case (snoc ys t)
    have "linked ms_next ns (db_head db) (ys @ [t])" using s k snoc by (simp add: ns_def linked_upd)
    then have "linked ms_next (ns[t := (ns ! t)\<lparr>ms_next := Some k\<rparr>]) (db_head db) (ys @ [t, k])"
      using s k snoc by (intro linked_snoc) (auto simp: ns_def)
    then show ?thesis using snoc by (simp add: ns'_def)
  qed
  have l2: "linked ms_next ns' (mp_freelist mp) fs"
  proof -
    have "xs \<noteq> [] \<Longrightarrow> last xs \<notin> set fs" using s last_in_set by fastforce
    then show ?thesis using s k by (auto simp: ns'_def ns_def linked_upd)
  qed
  have off: "db_offset db \<le> ms_size (ns' ! hd (xs @ [k]))"
    using s kn nb by (cases xs) auto
  show "db_shape (db\<lparr>db_size := sz, db_head := (if xs = [] then Some k else db_head db), db_tail := Some k\<rparr>,
      mp\<lparr>mp_nodes := ns'\<rparr>) (xs @ [k]) fs"
    using s l1 l2 off nb kn k unfolding db_shape_def prod.case by auto
  have "map (\<lambda>j. node_bytes (ns' ! j)) xs = map (\<lambda>j. node_bytes (mp_nodes mp ! j)) xs"
    using nb by (simp add: node_bytes_def)
  then have "bytes_of ns' xs = bytes_of (mp_nodes mp) xs" by (simp only:)
  then show "bytes_of ns' (xs @ [k]) = bytes_of (mp_nodes mp) xs @ data"
    using kn by (simp add: node_bytes_def [of "\<lparr>ms_buffer = b, ms_size = n, ms_next = p\<rparr>" for b n p])
qed

lemma databuffer_push_ok:
  assumes inv: "db_inv s"
  shows "\<exists>s'. databuffer_push s data = Some s' \<and> db_inv s' \<and> db_content s' = db_content s @ data \<and>
    db_header (fst s') = db_header (fst s)"
proof -
  obtain db mp where s: "s = (db, mp)" by (cases s)
  obtain xs fs where sh: "db_shape (db, mp) xs fs" and sz: "db_size db = int (length (db_content (db, mp)))"
    using inv by (auto simp: db_inv_def s)
  obtain k mp1 fs1 where t: "take_node mp = Some (k, mp1)" "db_shape (db, mp1) xs fs1" "k \<notin> set xs"
    "k \<notin> set fs1" "k < length (mp_nodes mp1)" "bytes_of (mp_nodes mp1) xs = bytes_of (mp_nodes mp) xs"
    using take_node_ok [OF sh] by blast
  let ?ns = "(mp_nodes mp1)[k := \<lparr>ms_buffer = Some data, ms_size = int (length data), ms_next = None\<rparr>]"
  let ?ns' = "if xs = [] then ?ns else ?ns[last xs := (?ns ! last xs)\<lparr>ms_next := Some k\<rparr>]"
  let ?db = "db\<lparr>db_size := db_size db + int (length data),
    db_head := (if xs = [] then Some k else db_head db), db_tail := Some k\<rparr>"
  have hd: "db_head db = (if xs = [] then None else Some (hd xs))" "db_tail db = (if xs = [] then None else Some (last xs))"
    using sh by (cases xs; auto simp: db_shape_def)+
  have last: "xs \<noteq> [] \<Longrightarrow> last xs < length (mp_nodes mp1)"
    using t(2) linked_lengths [of ms_next "mp_nodes mp1" "db_head db" xs] by (auto simp: db_shape_def)
  have p: "databuffer_push s data = Some (?db, mp1\<lparr>mp_nodes := ?ns'\<rparr>)"
    using t(1,5) hd last by (cases "xs = []") (simp_all add: databuffer_push_def s mem_simps Let_def)
  note app = db_shape_append(1) [OF t(2-5), where data = data and sz = "db_size db + int (length data)"]
    db_shape_append(2) [OF t(2-5), where data = data]
  have off: "nat (db_offset db) \<le> length (bytes_of (mp_nodes mp) xs)"
    using sh by (cases xs) (auto simp: db_shape_def node_bytes_def nat_le_iff)
  have "db_content (?db, mp1\<lparr>mp_nodes := ?ns'\<rparr>) = drop (nat (db_offset db)) (bytes_of ?ns' (xs @ [k]))"
    using db_content_shape [OF app(1)] by (simp del: map_append concat_append)
  also have "\<dots> = drop (nat (db_offset db)) (bytes_of (mp_nodes mp) xs @ data)"
    unfolding app(2) t(6) ..
  also have "\<dots> = db_content s @ data" using off db_content_shape [OF sh] by (simp add: s)
  finally have c: "db_content (?db, mp1\<lparr>mp_nodes := ?ns'\<rparr>) = db_content s @ data" .
  then have "db_inv (?db, mp1\<lparr>mp_nodes := ?ns'\<rparr>)" using app(1) sz by (intro db_invI) (simp_all add: s)
  with p c show ?thesis by (intro exI [of _ "(?db, mp1\<lparr>mp_nodes := ?ns'\<rparr>)"]) (simp add: s)
qed

interpretation dbs: byte_stream databuffer_push databuffer_read db_content db_inv
proof unfold_locales
  fix s bs assume "db_inv s"
  then show "\<exists>s'. databuffer_push s bs = Some s' \<and> db_inv s' \<and> db_content s' = db_content s @ bs"
    using databuffer_push_ok by blast
next
  fix s n assume "db_inv s" "0 < n" "n \<le> length (db_content s)"
  then show "\<exists>s'. databuffer_read s (int n) = Some (take n (db_content s), s') \<and> db_inv s' \<and>
      db_content s' = drop n (db_content s)"
    using databuffer_read_ok by blast
qed

section \<open>Clearing and framing\<close>

lemma databuffer_zero_inv: "db_inv (databuffer_zero, mp)" if "linked ms_next (mp_nodes mp) (mp_freelist mp) fs" "distinct fs"
  using that by (intro db_invI [of _ "[]" fs]) (auto simp: db_shape_def databuffer_zero_def db_content_def)

lemma return_message_offset:
  "return_message (db\<lparr>db_offset := i\<rparr>, mp) =
   map_option (\<lambda>(db', mp'). (db'\<lparr>db_offset := i\<rparr>, mp')) (return_message (db, mp))"
  by (cases "db_head db") (auto simp: return_message_def load_def store_def split: option.splits)

lemma clear_loop:
  "db_shape (db\<lparr>db_offset := 0\<rparr>, mp) xs fs \<Longrightarrow>
   \<exists>db' mp'. repeat_step clear_step (db, mp) = Some (db', mp') \<and>
     linked ms_next (mp_nodes mp') (mp_freelist mp') (rev xs @ fs) \<and> distinct (rev xs @ fs)"
proof (induction xs arbitrary: db mp fs)
  case Nil
  then show ?case by (simp add: repeat_step_Inr clear_step_def db_shape_def)
next
  case (Cons k xs)
  obtain db1 mp1 where ret: "return_message (db\<lparr>db_offset := 0\<rparr>, mp) = Some (db1, mp1)"
    "db_shape (db1\<lparr>db_offset := 0\<rparr>, mp1) xs (k # fs)"
    using return_message_ok [OF Cons.prems] by blast
  let ?db = "db1\<lparr>db_offset := db_offset db\<rparr>"
  have "return_message (db, mp) = Some (?db, mp1)"
    using return_message_offset [where db = "db\<lparr>db_offset := 0\<rparr>" and i = "db_offset db"] ret(1) by simp
  moreover have "db_head db \<noteq> None" using Cons.prems by (simp add: db_shape_def)
  ultimately have "repeat_step clear_step (db, mp) = repeat_step clear_step (?db, mp1)"
    by (intro repeat_step_Inl) (simp add: clear_step_def)
  then show ?case using Cons.IH [of ?db mp1 "k # fs"] ret(2) by simp
qed

lemma databuffer_clear_ok:
  assumes "db_inv s"
  shows "\<exists>mp. databuffer_clear s = Some (databuffer_zero, mp) \<and> db_inv (databuffer_zero, mp)"
proof -
  obtain db mp where s: "s = (db, mp)" by (cases s)
  obtain xs fs where "db_shape (db, mp) xs fs" using assms by (auto simp: db_inv_def s)
  then have "db_shape (db\<lparr>db_offset := 0\<rparr>, mp) xs fs"
    by (cases "xs = []") (auto simp: db_shape_def)
  from clear_loop [OF this] obtain db' mp' where
    "repeat_step clear_step s = Some (db', mp')"
    "linked ms_next (mp_nodes mp') (mp_freelist mp') (rev xs @ fs)" "distinct (rev xs @ fs)"
    by (auto simp: s)
  then show ?thesis using databuffer_zero_inv [of mp' "rev xs @ fs"] by (simp add: databuffer_clear_def)
qed

lemma readheader_waits: 
  assumes "db_header (fst s) = 0" "db_size (fst s) < n"
  shows "databuffer_readheader s n = Some (-1, s)"
  using assms by (simp add: databuffer_readheader_def)

lemma be_header_bounds: "0 \<le> be_header bs \<and> be_header bs < 256 ^ length bs"
proof (induction bs rule: rev_induct)
  case Nil
  then show ?case by (simp add: be_header_def)
next
  case (snoc b bs)
  have "uint b < 256" using uint_lt2p [of b] by simp
  with snoc show ?case by (simp add: be_header_def)
qed

lemma readheader_frame:
  assumes inv: "db_inv s" and h: "db_header (fst s) = 0" "length hdr = 2 \<or> length hdr = 4 \<and> be_header hdr < 2 ^ 31"
    and c: "db_content s = hdr @ payload @ rest" "be_header hdr = int (length payload)"
  shows "\<exists>s'. databuffer_readheader s (int (length hdr)) = Some (int (length payload), s') \<and> db_inv s' \<and>
    db_content s' = payload @ rest \<and> db_header (fst s') = int (length payload)"
proof -
  have n: "0 < length hdr" using h(2) by auto
  obtain db mp where r: "databuffer_read s (int (length hdr)) = Some (hdr, db, mp)" "db_inv (db, mp)"
    "db_content (db, mp) = payload @ rest"
    using databuffer_read_ok [OF inv n] c(1) by auto
  let ?s = "(db\<lparr>db_header := int (length payload)\<rparr>, mp)"
  have sz: "db_size (fst s) = int (length (db_content s))" "db_size db = int (length (db_content (db, mp)))"
    using inv r(2) by (simp_all add: db_inv_def)
  have eq: "db_content ?s = db_content (db, mp)" by (simp add: db_content_def)
  have inv': "db_inv ?s"
    using r(2) unfolding db_inv_def eq by simp
  have "sint (word_of_int (int (length payload)) :: u32) = int (length payload)" if "length hdr \<noteq> 2"
    using that h(2) c(2) unfolding signed_of_int of_int_eq_id id_apply by (intro signed_take_bit_int_eq_self) simp_all
  moreover have "length hdr \<noteq> 2 \<Longrightarrow> load hdr 3 \<noteq> None" using h(2) by (auto simp: load_def)
  ultimately have "databuffer_readheader s (int (length hdr)) = Some (int (length payload), ?s)"
    using h(1) r(1,3) sz c by (cases "length hdr = 2") (auto simp: databuffer_readheader_def)
  then show ?thesis using inv' eq r(3) by auto
qed

lemma databuffer_reset_ok:
  assumes "db_inv s"
  shows "db_inv (databuffer_reset s)" "db_content (databuffer_reset s) = db_content s"
    "db_header (fst (databuffer_reset s)) = 0"
proof -
  show c: "db_content (databuffer_reset s) = db_content s" by (simp add: databuffer_reset_def db_content_def)
  show "db_inv (databuffer_reset s)" using assms unfolding db_inv_def c
    by (cases s) (simp add: databuffer_reset_def)
qed (simp add: databuffer_reset_def)

definition messagepool_init :: messagepool where
  "messagepool_init = \<lparr>mp_nodes = [], mp_freelist = None\<rparr>"

lemma databuffer_init_inv: "db_inv (databuffer_zero, messagepool_init)"
  by (rule databuffer_zero_inv [of _ "[]"]) (simp_all add: messagepool_init_def)

lemma db_content_init: "db_content (databuffer_zero, messagepool_init) = []"
  by (simp add: db_content_def messagepool_init_def databuffer_zero_def)

section \<open>Properties\<close>

text \<open>
  C22. The receive buffer is a byte stream: however the socket cuts the data into chunks, reading
  \<open>n\<close> bytes after pushing all chunks returns the first \<open>n\<close> bytes of their concatenation and
  leaves the rest, with no copy outside a chunk, no null pointer and no failed assertion.
\<close>

theorem databuffer_stream:
  assumes "0 < n" "n \<le> length (concat cs)"
  shows "\<exists>s s'. for_each (\<lambda>c s. databuffer_push s c) cs (databuffer_zero, messagepool_init) = Some s \<and>
    databuffer_read s (int n) = Some (take n (concat cs), s') \<and> db_inv s' \<and> db_content s' = drop n (concat cs)"
proof -
  obtain s where s: "for_each (\<lambda>c s. databuffer_push s c) cs (databuffer_zero, messagepool_init) = Some s"
    "db_inv s" "db_content s = concat cs"
    using dbs.push_all_content [OF databuffer_init_inv, of cs] by (auto simp: db_content_init)
  then show ?thesis using dbs.read_content [OF s(2) assms(1)] assms(2) by auto
qed

theorem databuffer_stream_witness:
  "\<exists>s s'. for_each (\<lambda>c s. databuffer_push s c) [[1, 2], [], [3, 4, 5]] (databuffer_zero, messagepool_init) = Some s \<and>
    databuffer_read s (int 3) = Some ([1, 2, 3], s') \<and> db_inv s' \<and> db_content s' = [4, 5]"
  using databuffer_stream [of 3 "[[1, 2], [], [3, 4, 5]]"] by simp

text \<open>
  A complete package at the front of the stream is delivered: with a header of two bytes, or
  of four bytes and a length below 2^31, \<open>databuffer_readheader\<close> returns the length of the
  payload, reading that many bytes returns the payload, and after \<open>databuffer_reset\<close> the stream
  is what follows the package, ready for the next header.
\<close>

theorem databuffer_frame:
  assumes "db_inv s" "db_header (fst s) = 0" "length hdr = 2 \<or> length hdr = 4 \<and> be_header hdr < 2 ^ 31"
    and "db_content s = hdr @ payload @ rest" "be_header hdr = int (length payload)" "payload \<noteq> []"
  shows "\<exists>s1 s2. databuffer_readheader s (int (length hdr)) = Some (int (length payload), s1) \<and>
    databuffer_read s1 (int (length payload)) = Some (payload, s2) \<and> db_inv (databuffer_reset s2) \<and>
    db_content (databuffer_reset s2) = rest \<and> db_header (fst (databuffer_reset s2)) = 0"
proof -
  obtain s1 where s1: "databuffer_readheader s (int (length hdr)) = Some (int (length payload), s1)" "db_inv s1"
    "db_content s1 = payload @ rest"
    using readheader_frame [OF assms(1-5)] by blast
  obtain s2 where "databuffer_read s1 (int (length payload)) = Some (payload, s2)" "db_inv s2" "db_content s2 = rest"
    using dbs.read_content [OF s1(2), of "length payload"] assms(6) s1(3) by auto
  then show ?thesis using s1(1) databuffer_reset_ok [of s2] by blast
qed

definition frame_example :: dbuf where
  "frame_example = (\<lparr>db_header = 0, db_offset = 0, db_size = 5, db_head = Some 0, db_tail = Some 0\<rparr>,
     \<lparr>mp_nodes = [\<lparr>ms_buffer = Some [0, 2, 7, 8, 9], ms_size = 5, ms_next = None\<rparr>], mp_freelist = None\<rparr>)"

lemma frame_example_inv: "db_inv frame_example"
  by (rule db_invI [of _ "[0]" "[]"])
    (simp_all add: db_shape_def frame_example_def db_content_def node_bytes_def)

theorem databuffer_frame_witness:
  "\<exists>s1 s2. databuffer_readheader frame_example 2 = Some (2, s1) \<and>
    databuffer_read s1 2 = Some ([7, 8], s2) \<and> db_inv (databuffer_reset s2) \<and>
    db_content (databuffer_reset s2) = [9] \<and> db_header (fst (databuffer_reset s2)) = 0"
  using databuffer_frame [OF frame_example_inv, of "[0, 2]" "[7, 8]" "[9]"]
  by (simp add: frame_example_def be_header_def db_content_def node_bytes_def)

end
