(* ===== verification/Handle_Names.thy ===== *)
theory Handle_Names
  imports Fengnet_Prelude "HOL-Library.List_Lexorder" "HOL-Library.Char_ord"
begin

text \<open>
  The names of services in \<^verbatim>\<open>fengnet-src/fengnet_handle.cpp\<close>: an array of names sorted by
  \<open>strcmp\<close>, searched and extended by bisection, that doubles when it is full. The interface
  \<open>name_table\<close> states that it is a finite map from names to handles.

  A C string is the list of its characters before the terminating zero. \<open>None\<close> is a null pointer,
  an access outside the array or a failed \<open>assert\<close>.
\<close>

section \<open>Data and operations\<close>

fun strcmp :: "string \<Rightarrow> string \<Rightarrow> int" where
  "strcmp [] [] = 0"
| "strcmp [] (b # bs) = -1"
| "strcmp (a # as) [] = 1"
| "strcmp (a # as) (b # bs) = (if a = b then strcmp as bs else if a < b then -1 else 1)"

record handle_name =
  hn_name :: "string option"
  hn_handle :: u32

record name_storage =
  ns_cap :: nat
  ns_count :: nat
  ns_name :: "handle_name list"

definition MAX_SLOT_SIZE :: nat where "MAX_SLOT_SIZE = 0x40000000"

definition null_name :: handle_name where "null_name = \<lparr>hn_name = None, hn_handle = 0\<rparr>"

text \<open>
  One round of the bisection of \<open>fengnet_handle_findname\<close> and \<open>_insert_name\<close>: it ends with the
  handle of the name (\<open>Inl\<close>) or with the final value of \<open>begin\<close> (\<open>Inr\<close>).
\<close>

definition bisect_step :: "handle_name list \<Rightarrow> string \<Rightarrow> int \<times> int \<Rightarrow> (int \<times> int + (u32 + int)) option" where
  "bisect_step names name s = (case s of (b, e) \<Rightarrow>
     if b \<le> e then do {
       let mid = (b + e) div 2;
       n \<leftarrow> load names (nat mid);
       str \<leftarrow> hn_name n;
       let c = strcmp str name;
       Some (if c = 0 then Inr (Inl (hn_handle n))
             else if c < 0 then Inl (mid + 1, e) else Inl (b, mid - 1))
     }
     else Some (Inr (Inr b)))"

definition bisect :: "name_storage \<Rightarrow> string \<Rightarrow> (u32 + int) option" where
  "bisect s name = repeat_step (bisect_step (ns_name s) name) (0, int (ns_count s) - 1)"

definition fengnet_handle_findname :: "name_storage \<Rightarrow> string \<Rightarrow> u32 option" where
  "fengnet_handle_findname s name = do {
     r \<leftarrow> bisect s name;
     Some (case r of Inl h \<Rightarrow> h | Inr _ \<Rightarrow> 0)
   }"

text \<open>Making room at \<open>before\<close>: into an array of twice the size, or by shifting in place.\<close>

definition copy_names :: "handle_name list \<Rightarrow> nat \<Rightarrow> nat list \<Rightarrow> handle_name list \<Rightarrow> handle_name list option" where
  "copy_names src d = for_each (\<lambda>i arr. do { x \<leftarrow> load src i; store arr (i + d) x })"

definition shift_names :: "nat list \<Rightarrow> handle_name list \<Rightarrow> handle_name list option" where
  "shift_names = for_each (\<lambda>i arr. do { x \<leftarrow> load arr (i - 1); store arr i x })"

definition insert_name_before :: "name_storage \<Rightarrow> string \<Rightarrow> u32 \<Rightarrow> nat \<Rightarrow> name_storage option" where
  "insert_name_before s name handle before = do {
     (cap, arr) \<leftarrow> (if ns_count s \<ge> ns_cap s then
         let cap = ns_cap s * 2 in
         if \<not> cap \<le> MAX_SLOT_SIZE then None
         else do {
           n \<leftarrow> copy_names (ns_name s) 0 [0..<before] (replicate cap null_name);
           n \<leftarrow> copy_names (ns_name s) 1 [before..<ns_count s] n;
           Some (cap, n)
         }
       else do {
         n \<leftarrow> shift_names (rev [before + 1..<ns_count s + 1]) (ns_name s);
         Some (ns_cap s, n)
       });
     arr \<leftarrow> store arr before \<lparr>hn_name = Some name, hn_handle = handle\<rparr>;
     Some \<lparr>ns_cap = cap, ns_count = ns_count s + 1, ns_name = arr\<rparr>
   }"

text \<open>The inner option is the result: \<open>None\<close> when the name is taken.\<close>

definition insert_name :: "name_storage \<Rightarrow> string \<Rightarrow> u32 \<Rightarrow> (string option \<times> name_storage) option" where
  "insert_name s name handle = do {
     r \<leftarrow> bisect s name;
     (case r of
        Inl _ \<Rightarrow> Some (None, s)
      | Inr b \<Rightarrow> do {
          s1 \<leftarrow> insert_name_before s name handle (nat b);
          Some (Some name, s1)
        })
   }"

definition fengnet_handle_namehandle :: "name_storage \<Rightarrow> u32 \<Rightarrow> string \<Rightarrow> (string option \<times> name_storage) option" where
  "fengnet_handle_namehandle s handle name = insert_name s name handle"

text \<open>The loop of \<open>fengnet_handle_retire\<close> that drops the names of a handle.\<close>

definition drop_name :: "u32 \<Rightarrow> nat \<Rightarrow> handle_name list \<times> nat \<Rightarrow> (handle_name list \<times> nat) option" where
  "drop_name handle i s = (case s of (arr, j) \<Rightarrow> do {
     x \<leftarrow> load arr i;
     if hn_handle x = handle then Some (arr, j)
     else if i \<noteq> j then do { arr \<leftarrow> store arr j x; Some (arr, j + 1) }
     else Some (arr, j + 1)
   })"

definition drop_names :: "name_storage \<Rightarrow> u32 \<Rightarrow> name_storage option" where
  "drop_names s handle = do {
     (arr, j) \<leftarrow> for_each (drop_name handle) [0..<ns_count s] (ns_name s, 0);
     Some (s\<lparr>ns_name := arr, ns_count := j\<rparr>)
   }"

definition names_init :: name_storage where
  "names_init = \<lparr>ns_cap = 2, ns_count = 0, ns_name = replicate 2 null_name\<rparr>"

section \<open>The interface\<close>

locale name_table =
  fixes insert :: "'s \<Rightarrow> u32 \<Rightarrow> string \<Rightarrow> (string option \<times> 's) option"
    and find :: "'s \<Rightarrow> string \<Rightarrow> u32 option"
    and drop_handle :: "'s \<Rightarrow> u32 \<Rightarrow> 's option"
    and names :: "'s \<Rightarrow> string \<rightharpoonup> u32"
    and invar :: "'s \<Rightarrow> bool"
    and room :: "'s \<Rightarrow> nat"
  assumes find_spec: "invar s \<Longrightarrow> find s k = Some (case names s k of None \<Rightarrow> 0 | Some h \<Rightarrow> h)"
    and insert_old: "invar s \<Longrightarrow> names s k = Some h' \<Longrightarrow> insert s h k = Some (None, s)"
    and insert_new: "invar s \<Longrightarrow> names s k = None \<Longrightarrow> room s \<noteq> 0 \<Longrightarrow>
      \<exists>s'. insert s h k = Some (Some k, s') \<and> invar s' \<and> names s' = (names s)(k \<mapsto> h) \<and> room s' = room s - 1"
    and drop_spec: "invar s \<Longrightarrow>
      \<exists>s'. drop_handle s h = Some s' \<and> invar s' \<and> names s' = (\<lambda>k. if names s k = Some h then None else names s k)"
begin

text \<open>Registering names that are all new succeeds, and every one is then found.\<close>

lemma insert_all:
  assumes "invar s" "distinct (map fst kvs)" "\<And>k. k \<in> set (map fst kvs) \<Longrightarrow> names s k = None" "length kvs \<le> room s"
  shows "\<exists>s'. for_each (\<lambda>(k, h) s. map_option snd (insert s h k)) kvs s = Some s' \<and> invar s' \<and>
    names s' = names s ++ map_of kvs"
  using assms
proof (induction kvs arbitrary: s)
  case Nil
  then show ?case by simp
next
  case (Cons kv kvs)
  obtain k h where kv: "kv = (k, h)" by (cases kv)
  obtain s1 where s1: "insert s h k = Some (Some k, s1)" "invar s1" "names s1 = (names s)(k \<mapsto> h)"
    "room s1 = room s - 1"
    using insert_new [of s k h] Cons.prems kv by (auto simp: Suc_le_eq)
  have "\<exists>s'. for_each (\<lambda>(k, h) s. map_option snd (insert s h k)) kvs s1 = Some s' \<and> invar s' \<and>
      names s' = names s1 ++ map_of kvs"
    using Cons.prems s1 kv by (intro Cons.IH) auto
  moreover have "names s1 ++ map_of kvs = names s ++ map_of (kv # kvs)"
  proof -
    have "map_of kvs k = None" using Cons.prems(2) kv by (simp add: map_of_eq_None_iff)
    then show ?thesis using s1(3) kv by (auto simp: map_add_def fun_eq_iff split: option.splits)
  qed
  ultimately obtain s' where "for_each (\<lambda>(k, h) s. map_option snd (insert s h k)) kvs s1 = Some s'" "invar s'"
    "names s' = names s ++ map_of (kv # kvs)" by (auto simp del: map_of.simps)
  then show ?case using s1(1) kv by (intro exI [of _ s']) (simp del: map_of.simps)
qed

end

section \<open>The sorted array implements it\<close>

definition entry_of :: "handle_name \<Rightarrow> string \<times> u32" where
  "entry_of n = (case hn_name n of None \<Rightarrow> ([], 0) | Some k \<Rightarrow> (k, hn_handle n))"

definition entries :: "name_storage \<Rightarrow> (string \<times> u32) list" where
  "entries s = map entry_of (take (ns_count s) (ns_name s))"

definition name_map :: "name_storage \<Rightarrow> string \<rightharpoonup> u32" where
  "name_map s = map_of (entries s)"

definition names_inv :: "name_storage \<Rightarrow> bool" where
  "names_inv s \<longleftrightarrow> length (ns_name s) = ns_cap s \<and> ns_count s \<le> ns_cap s \<and> 0 < ns_cap s \<and>
     ns_cap s \<le> MAX_SLOT_SIZE \<and> (\<exists>i. ns_cap s = 2 ^ i) \<and>
     (\<forall>n\<in>set (take (ns_count s) (ns_name s)). hn_name n \<noteq> None) \<and>
     sorted_wrt (<) (map fst (entries s))"

lemma strcmp_zero [simp]: "strcmp a b = 0 \<longleftrightarrow> a = b"
  by (induction a b rule: strcmp.induct) auto

lemma strcmp_neg [simp]: "strcmp a b < 0 \<longleftrightarrow> a < b"
  by (induction a b rule: strcmp.induct) auto

lemma length_entries: "names_inv s \<Longrightarrow> length (entries s) = ns_count s"
  by (simp add: names_inv_def entries_def)

lemma sorted_distinct: "sorted_wrt (<) xs \<Longrightarrow> distinct (xs :: string list)"
  by (induction xs) auto


lemma entry_at:
  assumes "names_inv s" "i < ns_count s"
  shows "\<exists>n. load (ns_name s) i = Some n \<and> hn_name n = Some (fst (entries s ! i)) \<and> hn_handle n = snd (entries s ! i)"
proof -
  have i: "i < length (ns_name s)" using assms by (auto simp: names_inv_def)
  then have "ns_name s ! i \<in> set (take (ns_count s) (ns_name s))"
    using assms(2) by (auto simp: in_set_conv_nth)
  then have "hn_name (ns_name s ! i) \<noteq> None" using assms(1) unfolding names_inv_def by blast
  then show ?thesis using i assms(2) by (auto simp: load_def entries_def entry_of_def)
qed

lemma entries_less:
  assumes "names_inv s" "i < j" "j < ns_count s"
  shows "fst (entries s ! i) < fst (entries s ! j)"
  using assms sorted_wrt_nth_less [of "(<)" "map fst (entries s)" i j]
  by (simp add: length_entries names_inv_def [of s])

lemma name_map_nth:
  assumes "names_inv s" "i < ns_count s"
  shows "name_map s (fst (entries s ! i)) = Some (snd (entries s ! i))"
proof -
  have "distinct (map fst (entries s))" using assms(1) unfolding names_inv_def by (blast intro: sorted_distinct)
  then show ?thesis using assms by (simp add: name_map_def map_of_is_SomeI length_entries)
qed

lemma name_map_eq_None:
  assumes "names_inv s"
  shows "name_map s k = None \<longleftrightarrow> (\<forall>i<ns_count s. fst (entries s ! i) \<noteq> k)"
  using length_entries [OF assms] by (force simp: name_map_def map_of_eq_None_iff in_set_conv_nth)

text \<open>The bisection ends with the name or with the place where it belongs.\<close>

definition bisect_result :: "name_storage \<Rightarrow> string \<Rightarrow> u32 + int \<Rightarrow> bool" where
  "bisect_result s k r = (case r of
     Inl h \<Rightarrow> name_map s k = Some h
   | Inr b \<Rightarrow> 0 \<le> b \<and> nat b \<le> ns_count s \<and> (\<forall>i<nat b. fst (entries s ! i) < k) \<and>
       (\<forall>i. nat b \<le> i \<longrightarrow> i < ns_count s \<longrightarrow> k < fst (entries s ! i)))"

lemma bisect_ok:
  assumes inv: "names_inv s"
  shows "\<exists>r. bisect s k = Some r \<and> bisect_result s k r"
proof -
  let ?P = "\<lambda>(b, e). 0 \<le> b \<and> b \<le> e + 1 \<and> e < int (ns_count s) \<and> (\<forall>i<nat b. fst (entries s ! i) < k) \<and>
    (\<forall>i. nat (e + 1) \<le> i \<longrightarrow> i < ns_count s \<longrightarrow> k < fst (entries s ! i))"
  show ?thesis unfolding bisect_def
  proof (rule repeat_step_total [where P = ?P and m = "\<lambda>(b, e). nat (e - b + 1)"])
    fix be assume P: "?P be"
    obtain b e where be: "be = (b, e)" by (cases be)
    show "(\<exists>be'. bisect_step (ns_name s) k be = Some (Inl be') \<and> ?P be' \<and>
        (case be' of (b, e) \<Rightarrow> nat (e - b + 1)) < (case be of (b, e) \<Rightarrow> nat (e - b + 1))) \<or>
      (\<exists>r. bisect_step (ns_name s) k be = Some (Inr r) \<and> bisect_result s k r)"
    proof (cases "b \<le> e")
      case False
      then have "e + 1 = b" using P be by simp
      moreover from this have "nat b \<le> ns_count s" using P be by auto
      ultimately show ?thesis using P be False by (simp add: bisect_step_def bisect_result_def)
    next
      case True
      define mid where "mid = (b + e) div 2"
      have m: "b \<le> mid" "mid \<le> e" "0 \<le> mid" using True P be by (auto simp: mid_def)
      have lt: "nat mid < ns_count s" using m P be by auto
      obtain n where n: "load (ns_name s) (nat mid) = Some n" "hn_name n = Some (fst (entries s ! nat mid))"
        "hn_handle n = snd (entries s ! nat mid)" using entry_at [OF inv lt] by blast
      let ?x = "fst (entries s ! nat mid)"
      have step: "bisect_step (ns_name s) k be = Some (if ?x = k then Inr (Inl (hn_handle n))
          else if ?x < k then Inl (mid + 1, e) else Inl (b, mid - 1))"
        using True n be by (simp add: bisect_step_def mid_def [symmetric] Let_def)
      consider "?x = k" | "?x < k" | "k < ?x" by fastforce
      then show ?thesis
      proof cases
        case 1
        then show ?thesis using step name_map_nth [OF inv lt] n by (simp add: bisect_result_def)
      next
        case 2
        have "fst (entries s ! i) < k" if "i < nat (mid + 1)" for i
        proof (cases "i = nat mid")
          case False
          then have "i < nat mid" using that m by linarith
          then show ?thesis using 2 entries_less [OF inv _ lt] by (meson less_trans)
        qed (use 2 in simp)
        then have "?P (mid + 1, e)" using P be m by auto
        moreover have "bisect_step (ns_name s) k be = Some (Inl (mid + 1, e))" using step 2 by simp
        ultimately show ?thesis using m be by auto
      next
        case 3
        have "k < fst (entries s ! i)" if "nat mid \<le> i" "i < ns_count s" for i
        proof (cases "i = nat mid")
          case False
          then have "nat mid < i" using that by simp
          then show ?thesis using 3 that entries_less [OF inv, of "nat mid" i] by (meson less_trans)
        qed (use 3 in simp)
        then have "?P (b, mid - 1)" using P be m by auto
        moreover have "\<not> ?x < k" "?x \<noteq> k" using 3 by auto
        moreover from this have "bisect_step (ns_name s) k be = Some (Inl (b, mid - 1))" using step by simp
        ultimately show ?thesis using m be by auto
      qed
    qed
  qed (simp add: prod.case)
qed

lemma findname_ok:
  assumes "names_inv s"
  shows "fengnet_handle_findname s k = Some (case name_map s k of None \<Rightarrow> 0 | Some h \<Rightarrow> h)"
proof -
  obtain r where r: "bisect s k = Some r" "bisect_result s k r" using bisect_ok [OF assms] by blast
  have "name_map s k = None" if "r = Inr b" for b
    using r(2) that name_map_eq_None [OF assms, of k]
    by (auto simp: bisect_result_def) (metis not_le order_less_irrefl)
  then show ?thesis using r by (cases r) (auto simp: fengnet_handle_findname_def bisect_result_def)
qed


text \<open>The two ways to make room.\<close>

lemma copy_names_ok:
  "a \<le> b \<Longrightarrow> b \<le> length src \<Longrightarrow> b + d \<le> length arr \<Longrightarrow>
   copy_names src d [a..<b] arr = Some (take (a + d) arr @ take (b - a) (drop a src) @ drop (b + d) arr)"
proof (induction b)
  case 0
  then show ?case by (simp add: copy_names_def)
next
  case (Suc b)
  show ?case
  proof (cases "a = Suc b")
    case True
    then show ?thesis by (simp add: copy_names_def)
  next
    case False
    with Suc have "copy_names src d [a..<b] arr = Some (take (a + d) arr @ take (b - a) (drop a src) @ drop (b + d) arr)"
      by simp
    moreover have "take (Suc b - a) (drop a src) = take (b - a) (drop a src) @ [src ! b]"
      using False Suc.prems by (simp add: Suc_diff_le take_Suc_conv_app_nth)
    moreover have "drop (b + d) arr = arr ! (b + d) # drop (Suc b + d) arr"
      using Suc.prems by (simp add: Cons_nth_drop_Suc)
    ultimately show ?thesis using False Suc.prems
      by (simp add: copy_names_def for_each_append mem_simps list_update_append)
  qed
qed

lemma shift_names_ok:
  "a \<le> n \<Longrightarrow> n < length arr \<Longrightarrow>
   shift_names (rev [a + 1..<n + 1]) arr = Some (take (a + 1) arr @ take (n - a) (drop a arr) @ drop (n + 1) arr)"
proof (induction n arbitrary: arr)
  case 0
  then show ?case by (simp add: shift_names_def)
next
  case (Suc n)
  show ?case
  proof (cases "a = Suc n")
    case True
    then show ?thesis by (simp add: shift_names_def)
  next
    case False
    let ?arr = "arr[Suc n := arr ! n]"
    have "shift_names (rev [a + 1..<Suc n + 1]) arr = shift_names (rev [a + 1..<n + 1]) ?arr"
      using False Suc.prems by (simp add: shift_names_def mem_simps)
    also have "\<dots> = Some (take (a + 1) ?arr @ take (n - a) (drop a ?arr) @ drop (n + 1) ?arr)"
      using Suc False by simp
    also have "take (a + 1) ?arr = take (a + 1) arr" using False Suc.prems by simp
    also have "take (n - a) (drop a ?arr) = take (n - a) (drop a arr)"
      using False Suc.prems by (simp add: drop_update_swap)
    also have "drop (n + 1) ?arr = arr ! n # drop (Suc n + 1) arr"
      using Suc.prems by (simp add: drop_update_swap Cons_nth_drop_Suc [symmetric])
    also have "take (n - a) (drop a arr) @ arr ! n # drop (Suc n + 1) arr =
        take (Suc n - a) (drop a arr) @ drop (Suc n + 1) arr"
      using False Suc.prems by (simp add: Suc_diff_le take_Suc_conv_app_nth)
    finally show ?thesis by simp
  qed
qed

definition can_grow :: "name_storage \<Rightarrow> nat" where
  "can_grow s = MAX_SLOT_SIZE - ns_count s"

lemma take_room:
  assumes "b < length x" "take b x = take b names"
  shows "take (b + 1 + length ys) ((take (b + 1) x @ ys @ zs)[b := v]) = take b names @ v # ys"
proof -
  have "take (b + 1) x = take b names @ [x ! b]" using assms by (simp add: take_Suc_conv_app_nth)
  moreover have "length (take b names) = b" using assms by (metis length_take min.absorb2 less_imp_le)
  ultimately show ?thesis by (simp add: list_update_append)
qed

lemma insert_name_before_ok:
  assumes inv: "names_inv s" and b: "b \<le> ns_count s" and room: "can_grow s \<noteq> 0"
  shows "\<exists>s'. insert_name_before s k h b = Some s' \<and> ns_count s' = ns_count s + 1 \<and>
    take (ns_count s') (ns_name s') = take b (ns_name s) @ \<lparr>hn_name = Some k, hn_handle = h\<rparr> #
      take (ns_count s - b) (drop b (ns_name s)) \<and>
    length (ns_name s') = ns_cap s' \<and> ns_count s' \<le> ns_cap s' \<and> ns_cap s' \<le> MAX_SLOT_SIZE \<and> (\<exists>i. ns_cap s' = 2 ^ i)"
proof (cases "ns_count s \<ge> ns_cap s")
  case True
  then have cnt: "ns_count s = ns_cap s" "length (ns_name s) = ns_cap s" "0 < ns_cap s"
    using inv by (simp_all add: names_inv_def)
  obtain i where i: "ns_cap s = 2 ^ i" using inv by (auto simp: names_inv_def)
  have "(2::nat) ^ i < 2 ^ 30" using room cnt(1) i by (simp add: can_grow_def MAX_SLOT_SIZE_def)
  then have "i < 30" by (simp only: power_strict_increasing_iff)
  then have "(2::nat) ^ Suc i \<le> 2 ^ 30" by (intro power_increasing) simp_all
  then have mx: "ns_cap s * 2 \<le> MAX_SLOT_SIZE" using i by (simp add: MAX_SLOT_SIZE_def)
  let ?n1 = "take b (ns_name s) @ drop b (replicate (ns_cap s * 2) null_name)"
  let ?ys = "take (ns_count s - b) (drop b (ns_name s))"
  define n2 where "n2 = take (b + 1) ?n1 @ ?ys @ drop (ns_count s + 1) ?n1"
  let ?v = "\<lparr>hn_name = Some k, hn_handle = h\<rparr>"
  have "copy_names (ns_name s) 0 [0..<b] (replicate (ns_cap s * 2) null_name) = Some ?n1"
    using copy_names_ok [of 0 b "ns_name s" 0 "replicate (ns_cap s * 2) null_name"] b cnt by simp
  moreover have "copy_names (ns_name s) 1 [b..<ns_count s] ?n1 = Some n2"
    using copy_names_ok [of b "ns_count s" "ns_name s" 1 ?n1] b cnt by (simp add: n2_def)
  moreover have len: "length n2 = ns_cap s * 2" using b cnt by (auto simp: n2_def)
  ultimately have "insert_name_before s k h b =
      Some \<lparr>ns_cap = ns_cap s * 2, ns_count = ns_count s + 1, ns_name = n2[b := ?v]\<rparr>"
    using True mx b cnt by (simp add: insert_name_before_def Let_def mem_simps)
  moreover have "take (ns_count s + 1) (n2[b := ?v]) = take b (ns_name s) @ ?v # ?ys"
    using take_room [of b ?n1 "ns_name s" ?ys _ ?v] b cnt by (simp add: n2_def)
  moreover have "\<exists>i. ns_cap s * 2 = 2 ^ i" using i by (intro exI [of _ "Suc i"]) simp
  ultimately show ?thesis using mx cnt len by simp
next
  case False
  let ?ys = "take (ns_count s - b) (drop b (ns_name s))"
  define n2 where "n2 = take (b + 1) (ns_name s) @ ?ys @ drop (ns_count s + 1) (ns_name s)"
  let ?v = "\<lparr>hn_name = Some k, hn_handle = h\<rparr>"
  have cnt: "ns_count s < ns_cap s" "length (ns_name s) = ns_cap s" "ns_cap s \<le> MAX_SLOT_SIZE" "\<exists>i. ns_cap s = 2 ^ i"
    using inv False by (simp_all add: names_inv_def)
  have "shift_names (rev [b + 1..<ns_count s + 1]) (ns_name s) = Some n2"
    unfolding n2_def using b cnt by (intro shift_names_ok) auto
  moreover have len: "length n2 = ns_cap s" using b cnt by (auto simp: n2_def)
  ultimately have "insert_name_before s k h b =
      Some \<lparr>ns_cap = ns_cap s, ns_count = ns_count s + 1, ns_name = n2[b := ?v]\<rparr>"
    using False b cnt by (simp add: insert_name_before_def mem_simps)
  moreover have "take (ns_count s + 1) (n2[b := ?v]) = take b (ns_name s) @ ?v # ?ys"
    using take_room [of b "ns_name s" "ns_name s" ?ys _ ?v] b cnt by (simp add: n2_def)
  ultimately show ?thesis using cnt len by simp
qed

lemma insert_name_ok:
  assumes inv: "names_inv s" and new: "name_map s k = None" and room: "can_grow s \<noteq> 0"
  shows "\<exists>s'. insert_name s k h = Some (Some k, s') \<and> names_inv s' \<and> name_map s' = (name_map s)(k \<mapsto> h) \<and>
    can_grow s' = can_grow s - 1"
proof -
  obtain r where r: "bisect s k = Some r" "bisect_result s k r" using bisect_ok [OF inv] by blast
  then obtain b where b: "r = Inr b" "nat b \<le> ns_count s" "\<And>i. i < nat b \<Longrightarrow> fst (entries s ! i) < k"
    "\<And>i. nat b \<le> i \<Longrightarrow> i < ns_count s \<Longrightarrow> k < fst (entries s ! i)"
    using new by (cases r) (auto simp: bisect_result_def)
  obtain s' where s': "insert_name_before s k h (nat b) = Some s'" "ns_count s' = ns_count s + 1"
    "take (ns_count s') (ns_name s') = take (nat b) (ns_name s) @ \<lparr>hn_name = Some k, hn_handle = h\<rparr> #
      take (ns_count s - nat b) (drop (nat b) (ns_name s))"
    "length (ns_name s') = ns_cap s'" "ns_count s' \<le> ns_cap s'" "ns_cap s' \<le> MAX_SLOT_SIZE" "\<exists>i. ns_cap s' = 2 ^ i"
    using insert_name_before_ok [OF inv b(2) room] by blast
  let ?l = "take (nat b) (entries s)" and ?r = "drop (nat b) (entries s)"
  have e: "entries s' = ?l @ (k, h) # ?r"
    using s'(3) b(2) by (simp add: entries_def entry_of_def take_map drop_map min_def drop_take)
  have len: "length (entries s) = ns_count s" using inv by (rule length_entries)
  have l: "\<forall>x\<in>set (map fst ?l). x < k"
    using b(2,3) len by (auto simp: in_set_conv_nth) (metis fst_conv)
  have rr: "\<forall>x\<in>set (map fst ?r). k < x"
    using b(2,4) len by (auto simp: in_set_conv_nth) (metis fst_conv add.commute le_add1 less_diff_conv)
  have "sorted_wrt (<) (map fst (entries s))" using inv by (simp add: names_inv_def)
  then have so: "sorted_wrt (<) (map fst ?l @ map fst ?r)"
    unfolding map_append [symmetric] append_take_drop_id .
  have "sorted_wrt (<) (map fst ?l @ k # map fst ?r)"
    using so l rr unfolding sorted_wrt_append sorted_wrt.simps list.set by blast
  then have "sorted_wrt (<) (map fst (entries s'))" unfolding e by simp
  moreover have "\<forall>n\<in>set (take (ns_count s') (ns_name s')). hn_name n \<noteq> None"
  proof -
    have "set (take (nat b) (ns_name s)) \<union> set (take (ns_count s - nat b) (drop (nat b) (ns_name s))) \<subseteq>
        set (take (ns_count s) (ns_name s))"
      using b(2) set_take_subset_set_take [OF b(2), of "ns_name s"] by (auto simp: drop_take [symmetric] dest: in_set_dropD)
    then show ?thesis using inv unfolding s'(3) names_inv_def by auto
  qed
  ultimately have inv': "names_inv s'" using s' by (simp add: names_inv_def)
  have "map_of ?l k = None" using l by (auto simp: map_of_eq_None_iff)
  then have "name_map s' = (map_of ?r ++ map_of ?l)(k \<mapsto> h)"
    unfolding name_map_def e by (auto simp: map_add_def fun_eq_iff split: option.splits)
  also have "map_of ?r ++ map_of ?l = name_map s"
    unfolding name_map_def by (metis append_take_drop_id map_of_append)
  finally have "name_map s' = (name_map s)(k \<mapsto> h)" .
  moreover have "insert_name s k h = Some (Some k, s')" "can_grow s' = can_grow s - 1"
    using r(1) b(1) s'(1,2) by (simp_all add: insert_name_def can_grow_def)
  ultimately show ?thesis using inv' by blast
qed

text \<open>Dropping the names of a retired handle.\<close>

lemma drop_name_step:
  "i < length arr \<Longrightarrow> j \<le> i \<Longrightarrow> drop_name h i (arr, j) =
   Some (if hn_handle (arr ! i) = h then (arr, j) else (if i = j then arr else arr[j := arr ! i], j + 1))"
  by (simp add: drop_name_def mem_simps)

lemma drop_loop_ok:
  "n \<le> length arr \<Longrightarrow> \<exists>arr'. for_each (drop_name h) [0..<n] (arr, 0) =
     Some (arr', length (filter (\<lambda>x. hn_handle x \<noteq> h) (take n arr))) \<and> length arr' = length arr \<and>
     take (length (filter (\<lambda>x. hn_handle x \<noteq> h) (take n arr))) arr' = filter (\<lambda>x. hn_handle x \<noteq> h) (take n arr) \<and>
     drop n arr' = drop n arr"
proof (induction n)
  case 0
  then show ?case by simp
next
  case (Suc n)
  let ?f = "filter (\<lambda>x. hn_handle x \<noteq> h) (take n arr)"
  obtain arr' where a: "for_each (drop_name h) [0..<n] (arr, 0) = Some (arr', length ?f)" "length arr' = length arr"
    "take (length ?f) arr' = ?f" "drop n arr' = drop n arr" using Suc by auto
  have n: "n < length arr" using Suc.prems by simp
  then have x: "arr' ! n = arr ! n" using a(2,4) by (metis Cons_nth_drop_Suc list.inject)
  have d: "drop (Suc n) arr' = drop (Suc n) arr" using a(4) by (metis drop_drop add.commute plus_1_eq_Suc)
  have j: "length ?f \<le> n" using length_filter_le [of _ "take n arr"] n by (metis length_take min.absorb4 less_imp_le min.absorb2)
  have t: "take (Suc n) arr = take n arr @ [arr ! n]" using n by (simp add: take_Suc_conv_app_nth)
  show ?case
  proof (cases "hn_handle (arr ! n) = h")
    case True
    then show ?thesis using a n x d t j by (simp add: for_each_append drop_name_step)
  next
    case False
    let ?arr = "if n = length ?f then arr' else arr'[length ?f := arr ! n]"
    have "for_each (drop_name h) [0..<Suc n] (arr, 0) = Some (?arr, length ?f + 1)"
      using a n x j False by (simp add: for_each_append drop_name_step)
    moreover have "take (length ?f + 1) ?arr = ?f @ [arr ! n]"
      using a(2,3) n x j by (auto simp: take_Suc_conv_app_nth take_Suc_list_update)
    moreover have "drop (Suc n) ?arr = drop (Suc n) arr" using d j by simp
    moreover have "length ?arr = length arr" using a(2) by simp
    ultimately show ?thesis using False t by (intro exI [of _ ?arr]) simp
  qed
qed

lemma map_of_filter_value:
  "distinct (map fst es) \<Longrightarrow>
   map_of (filter (\<lambda>e. snd e \<noteq> h) es) k = (if map_of es k = Some h then None else map_of es k)"
proof (induction es)
  case (Cons e es)
  have "map_of es (fst e) = None" using Cons.prems by (simp add: map_of_eq_None_iff)
  then show ?case using Cons by auto
qed simp

lemma drop_names_ok:
  assumes inv: "names_inv s"
  shows "\<exists>s'. drop_names s h = Some s' \<and> names_inv s' \<and>
    name_map s' = (\<lambda>k. if name_map s k = Some h then None else name_map s k)"
proof -
  let ?old = "take (ns_count s) (ns_name s)"
  let ?f = "filter (\<lambda>x. hn_handle x \<noteq> h) ?old"
  have "ns_count s \<le> length (ns_name s)" using inv by (simp add: names_inv_def)
  from drop_loop_ok [OF this, of h] obtain arr where a:
    "for_each (drop_name h) [0..<ns_count s] (ns_name s, 0) = Some (arr, length ?f)"
    "length arr = length (ns_name s)" "take (length ?f) arr = ?f" by blast
  let ?s = "s\<lparr>ns_name := arr, ns_count := length ?f\<rparr>"
  have some: "\<forall>n\<in>set ?old. hn_name n \<noteq> None" using inv by (simp add: names_inv_def)
  then have "map entry_of ?f = filter (\<lambda>e. snd e \<noteq> h) (map entry_of ?old)"
    unfolding filter_map by (intro arg_cong [where f = "map entry_of"] filter_cong) (auto simp: entry_of_def)
  then have e: "entries ?s = filter (\<lambda>e. snd e \<noteq> h) (entries s)"
    using a(3) by (simp add: entries_def)
  have so: "sorted_wrt (<) (map fst (entries s))" using inv by (simp add: names_inv_def)
  have "sorted_wrt (<) (map fst (entries ?s))"
    using so unfolding e by (simp add: sorted_wrt_map sorted_wrt_filter)
  moreover have "length ?f \<le> ns_count s" using length_filter_le [of _ ?old] by (rule order_trans) simp
  ultimately have "names_inv ?s" using inv a(2,3) some by (auto simp: names_inv_def)
  moreover have "name_map ?s = (\<lambda>k. if name_map s k = Some h then None else name_map s k)"
    using map_of_filter_value [OF sorted_distinct [OF so]] unfolding name_map_def e by blast
  ultimately show ?thesis using a(1) by (simp add: drop_names_def)
qed

lemma insert_name_taken:
  assumes "names_inv s" "name_map s k = Some h'"
  shows "insert_name s k h = Some (None, s)"
proof -
  obtain r where r: "bisect s k = Some r" "bisect_result s k r" using bisect_ok [OF assms(1)] by blast
  have "\<not> (\<exists>b. r = Inr b)"
  proof
    assume "\<exists>b. r = Inr b"
    then have "name_map s k = None" using r(2) name_map_eq_None [OF assms(1), of k]
      by (auto simp: bisect_result_def) (metis not_le order_less_irrefl)
    then show False using assms(2) by simp
  qed
  then show ?thesis using r(1) by (cases r) (auto simp: insert_name_def)
qed

interpretation hn: name_table fengnet_handle_namehandle fengnet_handle_findname drop_names name_map names_inv can_grow
  by unfold_locales
    (simp_all add: fengnet_handle_namehandle_def findname_ok insert_name_taken insert_name_ok drop_names_ok
      del: One_nat_def)

lemma names_init_ok: "names_inv names_init" "name_map names_init = Map.empty" "can_grow names_init = 0x40000000"
proof -
  show "names_inv names_init" by (auto simp: names_inv_def names_init_def MAX_SLOT_SIZE_def entries_def intro: exI [of _ 1])
qed (simp_all add: name_map_def entries_def names_init_def can_grow_def MAX_SLOT_SIZE_def)

section \<open>Properties\<close>

text \<open>
  C23. Registering any list of different names, in any order, succeeds while the array may still
  grow, and \<open>fengnet_handle_findname\<close> then returns the handle registered under each of these
  names and 0 for every other name: the array stays sorted through shifting and doubling.
\<close>

theorem names_registered_found:
  assumes "distinct (map fst kvs)" "length kvs \<le> 0x40000000"
  shows "\<exists>s. for_each (\<lambda>(k, h) s. map_option snd (fengnet_handle_namehandle s h k)) kvs names_init = Some s \<and>
    (\<forall>k. fengnet_handle_findname s k = Some (case map_of kvs k of None \<Rightarrow> 0 | Some h \<Rightarrow> h))"
proof -
  obtain s where "for_each (\<lambda>(k, h) s. map_option snd (fengnet_handle_namehandle s h k)) kvs names_init = Some s"
    "names_inv s" "name_map s = map_of kvs"
    using hn.insert_all [OF names_init_ok(1) assms(1)] assms(2) by (auto simp: names_init_ok)
  then show ?thesis using hn.find_spec by auto
qed

theorem names_registered_found_witness:
  "\<exists>s. for_each (\<lambda>(k, h) s. map_option snd (fengnet_handle_namehandle s h k))
      [(''launcher'', 4), (''.logger'', 1), (''gate'', 7)] names_init = Some s \<and>
    (\<forall>k. fengnet_handle_findname s k =
      Some (case map_of [(''launcher'', 4), (''.logger'', 1), (''gate'', 7)] k of None \<Rightarrow> 0 | Some h \<Rightarrow> h))"
  by (rule names_registered_found) simp_all

text \<open>
  Dropping the names of a handle, as retiring it does, removes exactly the names bound to it;
  a name that is taken is refused without a change.
\<close>

theorem names_of_handle_dropped:
  assumes "names_inv s"
  shows "(\<exists>s'. drop_names s h = Some s' \<and> names_inv s' \<and>
      (\<forall>k. fengnet_handle_findname s' k = (if name_map s k = Some h then Some 0 else fengnet_handle_findname s k))) \<and>
    (name_map s k \<noteq> None \<longrightarrow> fengnet_handle_namehandle s h k = Some (None, s))"
proof -
  obtain s' where s': "drop_names s h = Some s'" "names_inv s'"
    "name_map s' = (\<lambda>k. if name_map s k = Some h then None else name_map s k)"
    using hn.drop_spec [OF assms] by blast
  then have "fengnet_handle_findname s' k = (if name_map s k = Some h then Some 0 else fengnet_handle_findname s k)" for k
    using hn.find_spec [OF assms] hn.find_spec [OF s'(2)] by simp
  then show ?thesis using s'(1,2) hn.insert_old [OF assms] by blast
qed

definition names_example :: name_storage where
  "names_example = \<lparr>ns_cap = 2, ns_count = 2,
     ns_name = [\<lparr>hn_name = Some ''a'', hn_handle = 5\<rparr>, \<lparr>hn_name = Some ''b'', hn_handle = 6\<rparr>]\<rparr>"

lemma names_example_inv: "names_inv names_example"
  by (auto simp: names_inv_def names_example_def MAX_SLOT_SIZE_def entries_def entry_of_def intro: exI [of _ 1])

theorem names_of_handle_dropped_witness:
  "\<exists>s'. drop_names names_example 5 = Some s' \<and> fengnet_handle_findname s' ''a'' = Some 0 \<and>
    fengnet_handle_namehandle names_example 5 ''b'' = Some (None, names_example)"
  using names_of_handle_dropped [OF names_example_inv, of 5 "''b''"]
  by (auto simp: name_map_def names_example_def entries_def entry_of_def)

end
