(* ===== verification/Handle_Table.thy ===== *)
theory Handle_Table
  imports Handle_Names
begin

text \<open>
  The table of service handles of \<^verbatim>\<open>fengnet-src/fengnet_handle.cpp\<close>. A handle is an 8-bit harbor
  and a 24-bit index; the context of a service sits in the slot given by the low bits of its
  handle, and the table doubles when a round of probing finds no free slot.

  A pointer to a context is a number; the map \<open>ctxs\<close> gives the \<open>handle\<close> field of every context
  that is allocated, so that reading a freed one is \<open>None\<close>, like a failed \<open>assert\<close> and an access
  outside an array. Every operation is one step, since it runs under the lock of the table.
\<close>

section \<open>Data and operations\<close>

definition HANDLE_MASK :: u32 where "HANDLE_MASK = 0xffffff"
definition HANDLE_REMOTE_SHIFT :: nat where "HANDLE_REMOTE_SHIFT = 24"
definition DEFAULT_SLOT_SIZE :: nat where "DEFAULT_SLOT_SIZE = 4"

type_synonym ctx_handles = "nat \<rightharpoonup> u32"

record handle_storage =
  hs_harbor :: u32
  hs_handle_index :: u32
  hs_slot_size :: nat
  hs_slot :: "nat option list"
  hs_names :: name_storage

definition slot_hash :: "nat \<Rightarrow> u32 \<Rightarrow> nat" where
  "slot_hash n handle = unat (handle AND word_of_nat (n - 1))"

text \<open>One probe of \<open>fengnet_handle_register\<close>: the handle found, or the next one to try.\<close>

definition probe_slot :: "handle_storage \<Rightarrow> nat \<Rightarrow> u32 \<Rightarrow> (u32 + u32) option" where
  "probe_slot s i handle = (
     let handle = (if handle > HANDLE_MASK then 1 else handle) in
     do {
       c \<leftarrow> load (hs_slot s) (slot_hash (hs_slot_size s) handle);
       Some (if c = None then Inl handle else Inr (handle + 1))
     })"

text \<open>Moving a context to the table of twice the size.\<close>

definition rehash_one :: "ctx_handles \<Rightarrow> handle_storage \<Rightarrow> nat \<Rightarrow> nat option list \<Rightarrow> nat option list option" where
  "rehash_one ctxs s i new_slot = do {
     c \<leftarrow> load (hs_slot s) i;
     case c of
       None \<Rightarrow> Some new_slot
     | Some p \<Rightarrow> do {
         h \<leftarrow> ctxs p;
         let hash = slot_hash (hs_slot_size s * 2) h;
         x \<leftarrow> load new_slot hash;
         if x \<noteq> None then None else store new_slot hash (Some p)
       }
   }"

text \<open>The growth step: rehashing, then \<open>delete s->slot[i]\<close> for every old slot.\<close>

definition grow_slots :: "ctx_handles \<Rightarrow> handle_storage \<Rightarrow> (ctx_handles \<times> handle_storage) option" where
  "grow_slots ctxs s = (
     if \<not> hs_slot_size s * 2 - 1 \<le> unat HANDLE_MASK then None
     else do {
       new_slot \<leftarrow> for_each (rehash_one ctxs s) [0..<hs_slot_size s] (replicate (hs_slot_size s * 2) None);
       Some (\<lambda>p. if Some p \<in> set (hs_slot s) then None else ctxs p,
         s\<lparr>hs_slot := new_slot, hs_slot_size := hs_slot_size s * 2\<rparr>)
     })"

definition register_step :: "nat \<Rightarrow> ctx_handles \<times> handle_storage \<Rightarrow>
    (ctx_handles \<times> handle_storage + u32 \<times> ctx_handles \<times> handle_storage) option" where
  "register_step ctx st = (case st of (ctxs, s) \<Rightarrow> do {
     r \<leftarrow> for_exit (probe_slot s) [0..<hs_slot_size s] (hs_handle_index s);
     case r of
       Inl handle \<Rightarrow> do {
         slot \<leftarrow> store (hs_slot s) (slot_hash (hs_slot_size s) handle) (Some ctx);
         Some (Inr (handle OR hs_harbor s, ctxs, s\<lparr>hs_slot := slot, hs_handle_index := handle + 1\<rparr>))
       }
     | Inr _ \<Rightarrow> map_option Inl (grow_slots ctxs s)
   })"

definition fengnet_handle_register :: "ctx_handles \<Rightarrow> handle_storage \<Rightarrow> nat \<Rightarrow> (u32 \<times> ctx_handles \<times> handle_storage) option" where
  "fengnet_handle_register ctxs s ctx = repeat_step (register_step ctx) (ctxs, s)"

text \<open>The context to release after the table is unlocked is part of the result.\<close>

definition fengnet_handle_retire :: "ctx_handles \<Rightarrow> handle_storage \<Rightarrow> u32 \<Rightarrow> (int \<times> nat option \<times> handle_storage) option" where
  "fengnet_handle_retire ctxs s handle = do {
     let hash = slot_hash (hs_slot_size s) handle;
     c \<leftarrow> load (hs_slot s) hash;
     case c of
       None \<Rightarrow> Some (0, None, s)
     | Some ctx \<Rightarrow> do {
         h \<leftarrow> ctxs ctx;
         if h = handle then do {
           slot \<leftarrow> store (hs_slot s) hash None;
           names \<leftarrow> drop_names (hs_names s) handle;
           Some (1, Some ctx, s\<lparr>hs_slot := slot, hs_names := names\<rparr>)
         }
         else Some (0, None, s)
       }
   }"

definition fengnet_handle_grab :: "ctx_handles \<Rightarrow> handle_storage \<Rightarrow> u32 \<Rightarrow> nat option option" where
  "fengnet_handle_grab ctxs s handle = do {
     c \<leftarrow> load (hs_slot s) (slot_hash (hs_slot_size s) handle);
     case c of
       None \<Rightarrow> Some None
     | Some ctx \<Rightarrow> do {
         h \<leftarrow> ctxs ctx;
         Some (if h = handle then Some ctx else None)
       }
   }"

text \<open>The loops of \<open>fengnet_handle_retireall\<close>; the contexts released so far are part of the state.\<close>

definition retire_slot :: "ctx_handles \<Rightarrow> nat \<Rightarrow> nat \<times> nat list \<times> handle_storage \<Rightarrow> (nat \<times> nat list \<times> handle_storage) option" where
  "retire_slot ctxs i st = (case st of (n, rel, s) \<Rightarrow> do {
     c \<leftarrow> load (hs_slot s) i;
     case c of
       None \<Rightarrow> Some (n, rel, s)
     | Some ctx \<Rightarrow> do {
         handle \<leftarrow> ctxs ctx;
         if handle \<noteq> 0 then do {
           (_, r, s) \<leftarrow> fengnet_handle_retire ctxs s handle;
           Some (n + 1, rel @ (case r of None \<Rightarrow> [] | Some p \<Rightarrow> [p]), s)
         }
         else Some (n + 1, rel, s)
       }
   })"

definition retireall_step :: "ctx_handles \<Rightarrow> nat list \<times> handle_storage \<Rightarrow>
    (nat list \<times> handle_storage + nat list \<times> handle_storage) option" where
  "retireall_step ctxs st = (case st of (rel, s) \<Rightarrow> do {
     (n, rel, s) \<leftarrow> for_each (retire_slot ctxs) [0..<hs_slot_size s] (0, rel, s);
     Some (if n = 0 then Inr (rel, s) else Inl (rel, s))
   })"

definition fengnet_handle_retireall :: "ctx_handles \<Rightarrow> handle_storage \<Rightarrow> (nat list \<times> handle_storage) option" where
  "fengnet_handle_retireall ctxs s = repeat_step (retireall_step ctxs) ([], s)"

definition fengnet_handle_init :: "u32 \<Rightarrow> handle_storage" where
  "fengnet_handle_init harbor = \<lparr>hs_harbor = push_bit HANDLE_REMOTE_SHIFT (harbor AND 0xff), hs_handle_index = 1,
     hs_slot_size = DEFAULT_SLOT_SIZE, hs_slot = replicate DEFAULT_SLOT_SIZE None, hs_names = names_init\<rparr>"

section \<open>Invariant\<close>

definition slots_ok :: "handle_storage \<Rightarrow> bool" where
  "slots_ok s \<longleftrightarrow> length (hs_slot s) = hs_slot_size s \<and> (\<exists>k. 2 \<le> k \<and> k \<le> 23 \<and> hs_slot_size s = 2 ^ k) \<and>
     1 \<le> unat (hs_handle_index s) \<and> unat (hs_handle_index s) \<le> 2 ^ 24 \<and> take_bit 24 (hs_harbor s) = 0 \<and>
     names_inv (hs_names s)"

definition table_inv :: "ctx_handles \<Rightarrow> handle_storage \<Rightarrow> bool" where
  "table_inv ctxs s \<longleftrightarrow> slots_ok s \<and>
     (\<forall>i<hs_slot_size s. \<forall>p. hs_slot s ! i = Some p \<longrightarrow>
        (\<exists>h. ctxs p = Some h \<and> unat h mod hs_slot_size s = i \<and> take_bit 24 h \<noteq> 0))"

text \<open>The context registered under a handle.\<close>

definition handle_map :: "ctx_handles \<Rightarrow> handle_storage \<Rightarrow> u32 \<Rightarrow> nat option" where
  "handle_map ctxs s h = (case hs_slot s ! (unat h mod hs_slot_size s) of
     None \<Rightarrow> None | Some p \<Rightarrow> if ctxs p = Some h then Some p else None)"

lemma slot_hash_mod: "k \<le> 32 \<Longrightarrow> slot_hash (2 ^ k) h = unat h mod 2 ^ k"
proof -
  assume "k \<le> 32"
  have "(word_of_nat (2 ^ k - 1) :: u32) = mask k"
    by (simp add: mask_eq_exp_minus_1)
  then have "slot_hash (2 ^ k) h = unat (take_bit k h)"
    by (simp add: slot_hash_def take_bit_eq_mask)
  then show ?thesis unfolding unsigned_take_bit_eq by (simp add: take_bit_eq_mod)
qed

lemma table_slot:
  assumes "slots_ok s"
  shows "slot_hash (hs_slot_size s) h = unat h mod hs_slot_size s"
    "unat h mod hs_slot_size s < length (hs_slot s)"
  using assms by (auto simp: slots_ok_def slot_hash_mod)


lemma table_invD: "table_inv ctxs s \<Longrightarrow> slots_ok s"
  by (simp add: table_inv_def)

lemma table_entry:
  assumes "table_inv ctxs s" "hs_slot s ! (unat h mod hs_slot_size s) = Some p"
  shows "\<exists>h'. ctxs p = Some h' \<and> unat h' mod hs_slot_size s = unat h mod hs_slot_size s \<and> take_bit 24 h' \<noteq> 0"
proof -
  have "unat h mod hs_slot_size s < hs_slot_size s" using assms(1) by (auto simp: table_inv_def slots_ok_def)
  then show ?thesis using assms unfolding table_inv_def by blast
qed

lemma grab_ok:
  assumes "table_inv ctxs s"
  shows "fengnet_handle_grab ctxs s h = Some (handle_map ctxs s h)"
  using table_slot [OF table_invD [OF assms], of h] table_entry [OF assms, of h]
  by (auto simp: fengnet_handle_grab_def handle_map_def mem_simps split: option.splits)

lemma handle_map_SomeD:
  assumes "handle_map ctxs s h = Some p"
  shows "hs_slot s ! (unat h mod hs_slot_size s) = Some p" "ctxs p = Some h"
  using assms by (auto simp: handle_map_def split: option.splits if_splits)

lemma retire_ok:
  assumes inv: "table_inv ctxs s"
  shows "\<exists>s'. fengnet_handle_retire ctxs s h =
      Some (if handle_map ctxs s h = None then 0 else 1, handle_map ctxs s h, s') \<and> table_inv ctxs s' \<and>
    handle_map ctxs s' = (handle_map ctxs s)(h := None) \<and> hs_slot_size s' = hs_slot_size s \<and>
    hs_slot s' = (if handle_map ctxs s h = None then hs_slot s else (hs_slot s)[unat h mod hs_slot_size s := None]) \<and>
    name_map (hs_names s') = (if handle_map ctxs s h = None then name_map (hs_names s)
      else (\<lambda>k. if name_map (hs_names s) k = Some h then None else name_map (hs_names s) k))"
proof (cases "handle_map ctxs s h")
  case None
  then have "fengnet_handle_retire ctxs s h = Some (0, None, s)"
    using table_slot [OF table_invD [OF inv], of h] table_entry [OF inv, of h]
    by (auto simp: fengnet_handle_retire_def handle_map_def mem_simps Let_def split: option.splits if_splits)
  then show ?thesis using None inv by auto
next
  case (Some p)
  let ?i = "unat h mod hs_slot_size s"
  note p = handle_map_SomeD [OF Some]
  obtain ns where ns: "drop_names (hs_names s) h = Some ns" "names_inv ns"
    "name_map ns = (\<lambda>k. if name_map (hs_names s) k = Some h then None else name_map (hs_names s) k)"
    using hn.drop_spec [of "hs_names s" h] inv by (auto simp: table_inv_def slots_ok_def)
  let ?s = "s\<lparr>hs_slot := (hs_slot s)[?i := None], hs_names := ns\<rparr>"
  have "fengnet_handle_retire ctxs s h = Some (1, Some p, ?s)"
    using table_slot [OF table_invD [OF inv], of h] p ns(1) by (simp add: fengnet_handle_retire_def mem_simps)
  moreover have "table_inv ctxs ?s"
    using inv ns(2) unfolding table_inv_def slots_ok_def by (auto simp: nth_list_update)
  moreover have "handle_map ctxs ?s h' = ((handle_map ctxs s)(h := None)) h'" for h'
    using table_slot [OF table_invD [OF inv], of h'] table_slot [OF table_invD [OF inv], of h] p
    by (auto simp: handle_map_def nth_list_update split: option.splits)
  ultimately show ?thesis using Some ns(3) by auto
qed

section \<open>Registration\<close>

text \<open>The handle tried by the \<open>i\<close>-th probe of a round that starts at \<open>a\<close>.\<close>

definition nth_handle :: "nat \<Rightarrow> nat \<Rightarrow> nat" where
  "nth_handle a i = (if a + i < 2 ^ 24 then a + i else a + i + 1 - 2 ^ 24)"

lemma nth_handle_covers:
  assumes n: "n = 2 ^ k" "k \<le> 23" and a: "1 \<le> a" "a \<le> 2 ^ 24" and t: "0 < t" "t < n"
  shows "\<exists>i<n. nth_handle a i mod n = t"
proof -
  have dvd: "n dvd 2 ^ 24" unfolding n(1) by (rule le_imp_power_dvd) (use n(2) in simp)
  define i where "i = (t + n * a - a) mod n"
  have i: "i < n" "(a + i) mod n = t"
  proof -
    have "(a + i) mod n = (a + (t + n * a - a)) mod n" by (simp add: i_def mod_add_right_eq)
    also have "a + (t + n * a - a) = t + n * a" using t by (cases n) auto
    finally show "(a + i) mod n = t" using t by simp
    show "i < n" using t by (simp add: i_def)
  qed
  show ?thesis
  proof (cases "a + i < 2 ^ 24")
    case True
    then show ?thesis using i by (intro exI [of _ i]) (simp add: nth_handle_def)
  next
    case False
    have "i \<noteq> 0"
    proof
      assume "i = 0"
      then have "a = 2 ^ 24" using False a by simp
      then show False using i(2) \<open>i = 0\<close> dvd t by simp
    qed
    have ne: "a + i \<noteq> 2 ^ 24" using i(2) dvd t by auto
    have "nth_handle a (i - 1) = a + i - 2 ^ 24" 
    proof -
      have "\<not> a + (i - 1) < 2 ^ 24" "a + (i - 1) + 1 = a + i" using False ne \<open>i \<noteq> 0\<close> by linarith+
      then show ?thesis by (simp only: nth_handle_def if_False)
    qed
    moreover have "(a + i - 2 ^ 24) mod n = t"
    proof -
      obtain m where m: "2 ^ 24 = n * m" using dvd by (rule dvdE)
      have "a + i = (a + i - 2 ^ 24) + n * m" using False unfolding m [symmetric] by linarith
      then show ?thesis using i(2) by (metis mod_mult_self2)
    qed
    ultimately show ?thesis using i(1) by (intro exI [of _ "i - 1"]) simp
  qed
qed


lemma greater_HANDLE_MASK: "HANDLE_MASK < v \<longleftrightarrow> 2 ^ 24 \<le> unat v"
  by (auto simp: HANDLE_MASK_def word_less_nat_alt)

lemma unat_Suc_small: "unat (w :: u32) < 2 ^ 31 \<Longrightarrow> unat (w + 1) = unat w + 1"
  by (simp add: unat_word_ariths)

lemma probe_round:
  assumes ok: "slots_ok s"
  shows "\<exists>r. for_exit (probe_slot s) [0..<hs_slot_size s] (hs_handle_index s) = Some r \<and> (case r of
      Inl h \<Rightarrow> 1 \<le> unat h \<and> unat h < 2 ^ 24 \<and> hs_slot s ! (unat h mod hs_slot_size s) = None
    | Inr _ \<Rightarrow> \<forall>t. 0 < t \<longrightarrow> t < hs_slot_size s \<longrightarrow> hs_slot s ! t \<noteq> None)"
proof -
  let ?n = "hs_slot_size s" and ?a = "unat (hs_handle_index s)"
  obtain k where k: "?n = 2 ^ k" "k \<le> 23" using ok by (auto simp: slots_ok_def)
  have n: "?n \<le> 2 ^ 23" unfolding k(1) by (rule power_increasing) (use k(2) in simp_all)
  have a: "1 \<le> ?a" "?a \<le> 2 ^ 24" using ok by (simp_all add: slots_ok_def)
  let ?P = "\<lambda>ys v. (length ys < ?n \<longrightarrow> (if 2 ^ 24 \<le> unat v then 1 else unat v) = nth_handle ?a (length ys)) \<and>
    (\<forall>i<length ys. hs_slot s ! (nth_handle ?a i mod ?n) \<noteq> None)"
  have "\<exists>r. for_exit (probe_slot s) [0..<?n] (hs_handle_index s) = Some r \<and> (case r of
      Inl h \<Rightarrow> 1 \<le> unat h \<and> unat h < 2 ^ 24 \<and> hs_slot s ! (unat h mod ?n) = None
    | Inr v \<Rightarrow> ?P [0..<?n] v)"
  proof (rule for_exit_prefix)
    show "?P [] (hs_handle_index s)" using a by (auto simp: nth_handle_def)
  next
    fix ys x zs and v :: u32
    assume ys: "[0..<?n] = ys @ x # zs" and P: "?P ys v"
    let ?i = "length ys"
    have i: "?i < ?n" using arg_cong [OF ys, of length] by simp
    define w where "w = (if HANDLE_MASK < v then 1 else v)"
    have h: "unat w = nth_handle ?a ?i" using P i unfolding w_def greater_HANDLE_MASK by auto
    have b: "1 \<le> nth_handle ?a ?i" "nth_handle ?a ?i < 2 ^ 24"
      using a i n by (auto simp: nth_handle_def)
    have "probe_slot s x v = Some (if hs_slot s ! (unat w mod ?n) = None then Inl w else Inr (w + 1))"
      using table_slot [OF ok, of w] by (simp add: probe_slot_def w_def [symmetric] mem_simps)
    moreover have "?P (ys @ [x]) (w + 1)" if "hs_slot s ! (unat w mod ?n) \<noteq> None"
    proof -
      have u: "unat (w + 1) = nth_handle ?a ?i + 1" using unat_Suc_small [of w] h b(2) by simp
      have "(if 2 ^ 24 \<le> nth_handle ?a ?i + 1 then 1 else nth_handle ?a ?i + 1) = nth_handle ?a (Suc ?i)"
        using a i n by (auto simp: nth_handle_def)
      then show ?thesis using P that h unfolding u by (auto simp: less_Suc_eq)
    qed
    ultimately show "\<exists>r. probe_slot s x v = Some r \<and> (case r of
        Inl h \<Rightarrow> 1 \<le> unat h \<and> unat h < 2 ^ 24 \<and> hs_slot s ! (unat h mod ?n) = None | Inr v' \<Rightarrow> ?P (ys @ [x]) v')"
      using h b by simp
  qed
  then obtain r where r: "for_exit (probe_slot s) [0..<?n] (hs_handle_index s) = Some r" "case r of
      Inl h \<Rightarrow> 1 \<le> unat h \<and> unat h < 2 ^ 24 \<and> hs_slot s ! (unat h mod ?n) = None
    | Inr v \<Rightarrow> ?P [0..<?n] v" by blast
  have "hs_slot s ! t \<noteq> None" if "r = Inr v" "0 < t" "t < ?n" for v t
    using nth_handle_covers [OF k a that(2,3)] r(2) that(1) by auto
  then show ?thesis using r by (cases r) auto
qed


text \<open>The low bits of a new handle are those of its index: the harbor only has high bits.\<close>

lemma harbor_low:
  assumes "take_bit 24 harbor = 0" "k \<le> 24"
  shows "unat (w OR harbor :: u32) mod 2 ^ k = unat w mod 2 ^ k"
proof -
  have "take_bit k harbor = take_bit k (take_bit 24 harbor)" using assms(2) by (simp add: min_def)
  then have "take_bit k (w OR harbor) = take_bit k w" using assms(1) by (simp add: take_bit_or)
  then show ?thesis by (metis unsigned_take_bit_eq take_bit_eq_mod)
qed

text \<open>Storing a context under a free handle.\<close>

lemma store_new:
  fixes p :: nat
  assumes ok: "slots_ok s" and h: "1 \<le> unat w" "unat w < 2 ^ 24" "hs_slot s ! (unat w mod hs_slot_size s) = None"
  defines "h \<equiv> w OR hs_harbor s"
  defines "s' \<equiv> s\<lparr>hs_slot := (hs_slot s)[unat w mod hs_slot_size s := Some p], hs_handle_index := w + 1\<rparr>"
  shows "slots_ok s'" "unat h mod hs_slot_size s = unat w mod hs_slot_size s" "take_bit 24 h \<noteq> 0"
    "drop_bit 24 h = drop_bit 24 (hs_harbor s)"
proof -
  obtain k where k: "hs_slot_size s = 2 ^ k" "2 \<le> k" "k \<le> 23" using ok by (auto simp: slots_ok_def)
  have hb: "take_bit 24 (hs_harbor s) = 0" using ok by (simp add: slots_ok_def)
  show "unat h mod hs_slot_size s = unat w mod hs_slot_size s"
    unfolding h_def k(1) using k(3) by (intro harbor_low [OF hb]) simp
  have u: "unat (w + 1) = unat w + 1" using h(2) by (intro unat_Suc_small) simp
  then show "slots_ok s'" using ok h(2) by (simp add: slots_ok_def s'_def)
  have "unat h mod 2 ^ 24 = unat w" unfolding h_def using harbor_low [OF hb, of 24 w] h(2) by simp
  then have "unat (take_bit 24 h) = unat w" by (metis unsigned_take_bit_eq take_bit_eq_mod)
  then show "take_bit 24 h \<noteq> 0" using h(1) by auto
  have "unat (drop_bit 24 w) = unat w div 2 ^ 24" by (simp add: drop_bit_eq_div unat_div_distrib)
  then have "drop_bit 24 w = 0" using h(2) by (simp add: unat_eq_zero)
  then show "drop_bit 24 h = drop_bit 24 (hs_harbor s)" by (simp add: h_def drop_bit_or)
qed

lemma register_found:
  assumes ok: "slots_ok s" and free: "0 < t" "t < hs_slot_size s" "hs_slot s ! t = None"
  shows "\<exists>w. 1 \<le> unat w \<and> unat w < 2 ^ 24 \<and> hs_slot s ! (unat w mod hs_slot_size s) = None \<and>
    fengnet_handle_register ctxs s p = Some (w OR hs_harbor s, ctxs,
      s\<lparr>hs_slot := (hs_slot s)[unat w mod hs_slot_size s := Some p], hs_handle_index := w + 1\<rparr>)"
proof -
  obtain r where r: "for_exit (probe_slot s) [0..<hs_slot_size s] (hs_handle_index s) = Some r" "case r of
      Inl h \<Rightarrow> 1 \<le> unat h \<and> unat h < 2 ^ 24 \<and> hs_slot s ! (unat h mod hs_slot_size s) = None
    | Inr _ \<Rightarrow> \<forall>t. 0 < t \<longrightarrow> t < hs_slot_size s \<longrightarrow> hs_slot s ! t \<noteq> None" using probe_round [OF ok] by blast
  have "r \<noteq> Inr v" for v
  proof
    assume "r = Inr v"
    then have "hs_slot s ! t \<noteq> None" using r(2) free(1,2) by simp
    then show False using free(3) by simp
  qed
  then obtain w where w: "r = Inl w" by (cases r) auto
  then have "register_step p (ctxs, s) = Some (Inr (w OR hs_harbor s, ctxs,
      s\<lparr>hs_slot := (hs_slot s)[unat w mod hs_slot_size s := Some p], hs_handle_index := w + 1\<rparr>))"
    using r(1) table_slot [OF ok, of w] by (simp add: register_step_def mem_simps)
  then show ?thesis using r(2) w by (auto simp: fengnet_handle_register_def repeat_step_Inr)
qed

lemma register_ok:
  assumes inv: "table_inv ctxs s" and free: "0 < t" "t < hs_slot_size s" "hs_slot s ! t = None"
    and p: "Some p \<notin> set (hs_slot s)"
  shows "\<exists>h s'. fengnet_handle_register ctxs s p = Some (h, ctxs, s') \<and> take_bit 24 h \<noteq> 0 \<and>
    drop_bit 24 h = drop_bit 24 (hs_harbor s) \<and> handle_map ctxs s h = None \<and> table_inv (ctxs(p \<mapsto> h)) s' \<and>
    handle_map (ctxs(p \<mapsto> h)) s' = (handle_map ctxs s)(h \<mapsto> p)"
proof -
  have ok: "slots_ok s" using inv by (rule table_invD)
  obtain w where w: "1 \<le> unat w" "unat w < 2 ^ 24" "hs_slot s ! (unat w mod hs_slot_size s) = None"
    and reg: "fengnet_handle_register ctxs s p = Some (w OR hs_harbor s, ctxs,
      s\<lparr>hs_slot := (hs_slot s)[unat w mod hs_slot_size s := Some p], hs_handle_index := w + 1\<rparr>)"
    using register_found [OF ok free] by blast
  define h where "h = w OR hs_harbor s"
  define s' where "s' = s\<lparr>hs_slot := (hs_slot s)[unat w mod hs_slot_size s := Some p], hs_handle_index := w + 1\<rparr>"
  note new = store_new(1) [OF ok w, where p = p, folded s'_def] store_new(2-4) [OF ok w, folded h_def]
  have len: "length (hs_slot s) = hs_slot_size s" "unat w mod hs_slot_size s < hs_slot_size s"
    using ok by (auto simp: slots_ok_def)
  have np: "hs_slot s ! i \<noteq> Some p" if "i < hs_slot_size s" for i using p len that by (metis nth_mem)
  have slot: "hs_slot s' ! i = (if i = unat w mod hs_slot_size s then Some p else hs_slot s ! i)"
    "hs_slot_size s' = hs_slot_size s" for i
    using len by (auto simp: s'_def nth_list_update)
  have "table_inv (ctxs(p \<mapsto> h)) s'"
    unfolding table_inv_def slot
  proof (intro conjI allI impI)
    fix i q assume "i < hs_slot_size s" "(if i = unat w mod hs_slot_size s then Some p else hs_slot s ! i) = Some q"
    then show "\<exists>h'. (ctxs(p \<mapsto> h)) q = Some h' \<and> unat h' mod hs_slot_size s = i \<and> take_bit 24 h' \<noteq> 0"
      using inv np new(2,3) by (cases "i = unat w mod hs_slot_size s") (auto simp: table_inv_def)
  qed (rule new(1))
  moreover have "handle_map (ctxs(p \<mapsto> h)) s' h' = ((handle_map ctxs s)(h \<mapsto> p)) h'" for h'
  proof -
    have "unat h' mod hs_slot_size s < hs_slot_size s" using ok by (auto simp: slots_ok_def)
    then show ?thesis using np w(3) new(2)
      by (auto simp: handle_map_def slot split: option.splits)
  qed
  moreover have "handle_map ctxs s h = None" using w(3) new(2) by (simp add: handle_map_def)
  ultimately show ?thesis using reg new(3,4) by (auto simp: h_def s'_def)
qed


section \<open>Growth\<close>

lemma rehash_ok:
  assumes inv: "table_inv ctxs s" and m: "m \<le> hs_slot_size s"
  shows "\<exists>arr. for_each (rehash_one ctxs s) [0..<m] (replicate (hs_slot_size s * 2) None) = Some arr \<and>
    length arr = hs_slot_size s * 2 \<and>
    (\<forall>j<hs_slot_size s * 2. arr ! j = (if j mod hs_slot_size s < m then
       (case hs_slot s ! (j mod hs_slot_size s) of None \<Rightarrow> None
        | Some p \<Rightarrow> if unat (the (ctxs p)) mod (hs_slot_size s * 2) = j then Some p else None) else None))"
  using m
proof (induction m)
  case 0
  then show ?case by simp
next
  case (Suc m)
  let ?n = "hs_slot_size s"
  let ?v = "\<lambda>m j. if j mod ?n < m then (case hs_slot s ! (j mod ?n) of None \<Rightarrow> None
        | Some p \<Rightarrow> if unat (the (ctxs p)) mod (?n * 2) = j then Some p else None) else None"
  obtain arr where arr: "for_each (rehash_one ctxs s) [0..<m] (replicate (?n * 2) None) = Some arr"
    "length arr = ?n * 2" "\<And>j. j < ?n * 2 \<Longrightarrow> arr ! j = ?v m j" using Suc by auto
  obtain k where k: "?n = 2 ^ k" "k \<le> 23" and len: "length (hs_slot s) = ?n"
    using inv by (auto simp: table_inv_def slots_ok_def)
  show ?case
  proof (cases "hs_slot s ! m")
    case None
    then have "?v (Suc m) j = ?v m j" for j by (auto simp: less_Suc_eq)
    moreover have "rehash_one ctxs s m arr = Some arr"
      using None Suc.prems len by (simp add: rehash_one_def mem_simps)
    ultimately show ?thesis using arr by (intro exI [of _ arr]) (simp add: for_each_append)
  next
    case (Some p)
    obtain h where h: "ctxs p = Some h" "unat h mod ?n = m"
      using inv Some Suc.prems unfolding table_inv_def Suc_le_eq by blast
    let ?j = "unat h mod (?n * 2)"
    have hash: "slot_hash (?n * 2) h = ?j"
      using slot_hash_mod [of "Suc k" h] k by (simp add: mult.commute)
    have j: "?j < ?n * 2" "?j mod ?n = m" using h(2) k(1) by (simp_all add: mod_mod_cancel)
    then have "arr ! ?j = None" using arr(3) by simp
    then have "rehash_one ctxs s m arr = Some (arr[?j := Some p])"
      using Some h(1) hash j(1) Suc.prems len arr(2) by (simp add: rehash_one_def mem_simps)
    moreover have "arr[?j := Some p] ! i = ?v (Suc m) i" if "i < ?n * 2" for i
    proof (cases "i = ?j")
      case True
      then show ?thesis using j h(1) Some arr(2) by simp
    next
      case False
      then show ?thesis using arr(2,3) that Some h(1) by (auto simp: less_Suc_eq)
    qed
    ultimately show ?thesis using arr(1,2) by (intro exI [of _ "arr[?j := Some p]"]) (simp add: for_each_append)
  qed
qed


lemma grow_ok:
  assumes inv: "table_inv ctxs s" and sz: "hs_slot_size s * 2 \<le> 2 ^ 23"
  shows "\<exists>s'. grow_slots ctxs s = Some (\<lambda>p. if Some p \<in> set (hs_slot s) then None else ctxs p, s') \<and> slots_ok s' \<and>
    hs_slot_size s' = hs_slot_size s * 2 \<and> hs_harbor s' = hs_harbor s \<and>
    (\<exists>t. 0 < t \<and> t < hs_slot_size s' \<and> hs_slot s' ! t = None) \<and>
    (\<forall>h p. handle_map ctxs s h = Some p \<longrightarrow> hs_slot s' ! (unat h mod hs_slot_size s') = Some p)"
proof -
  let ?n = "hs_slot_size s"
  obtain k where k: "?n = 2 ^ k" "2 \<le> k" "k \<le> 23"
    using inv by (auto simp: table_inv_def slots_ok_def)
  have "(2::nat) ^ Suc k \<le> 2 ^ 23" using sz k(1) by simp
  then have k': "Suc k \<le> 23" by (simp only: power_increasing_iff)
  have n: "4 \<le> ?n" using power_increasing [OF k(2), of "2::nat"] k(1) by simp
  obtain arr where arr: "for_each (rehash_one ctxs s) [0..<?n] (replicate (?n * 2) None) = Some arr" "length arr = ?n * 2"
    "\<forall>j<?n * 2. arr ! j = (if j mod ?n < ?n then
       (case hs_slot s ! (j mod ?n) of None \<Rightarrow> None
        | Some p \<Rightarrow> if unat (the (ctxs p)) mod (?n * 2) = j then Some p else None) else None)"
    using rehash_ok [OF inv order_refl] by blast
  have nth: "arr ! j = (case hs_slot s ! (j mod ?n) of None \<Rightarrow> None
        | Some p \<Rightarrow> if unat (the (ctxs p)) mod (?n * 2) = j then Some p else None)" if "j < ?n * 2" for j
    using arr(3) that n by simp
  let ?s = "s\<lparr>hs_slot := arr, hs_slot_size := ?n * 2\<rparr>"
  have "grow_slots ctxs s = Some (\<lambda>p. if Some p \<in> set (hs_slot s) then None else ctxs p, ?s)"
    using arr(1) sz by (simp add: grow_slots_def HANDLE_MASK_def)
  moreover have "slots_ok ?s"
    using inv arr(2) k k' by (auto simp: table_inv_def slots_ok_def intro!: exI [of _ "Suc k"])
  moreover have "\<exists>t. 0 < t \<and> t < ?n * 2 \<and> arr ! t = None"
  proof -
    have "arr ! 1 = None \<or> arr ! (?n + 1) = None"
    proof -
      have "Suc ?n mod ?n = 1" using n by (simp add: mod_Suc)
      then show ?thesis using nth [of 1] nth [of "?n + 1"] n by (auto split: option.splits)
    qed
    then show ?thesis using n by (elim disjE) (auto intro: exI [of _ 1] exI [of _ "?n + 1"])
  qed
  moreover have "arr ! (unat h mod (?n * 2)) = Some p" if "handle_map ctxs s h = Some p" for h p
  proof -
    have "unat h mod (?n * 2) mod ?n = unat h mod ?n" by (simp add: mod_mod_cancel)
    then show ?thesis using nth [of "unat h mod (?n * 2)"] handle_map_SomeD [OF that] n by simp
  qed
  ultimately show ?thesis by (intro exI [of _ ?s]) simp
qed

lemma register_grows:
  assumes inv: "table_inv ctxs s" and full: "None \<notin> set (hs_slot s)" and sz: "hs_slot_size s * 2 \<le> 2 ^ 23"
  shows "\<exists>h s'. fengnet_handle_register ctxs s p =
      Some (h, \<lambda>p. if Some p \<in> set (hs_slot s) then None else ctxs p, s') \<and> slots_ok s' \<and>
    (\<forall>h p. handle_map ctxs s h = Some p \<longrightarrow> hs_slot s' ! (unat h mod hs_slot_size s') = Some p)"
proof -
  let ?ctxs = "\<lambda>p. if Some p \<in> set (hs_slot s) then None else ctxs p"
  obtain s1 t where s1: "grow_slots ctxs s = Some (?ctxs, s1)" "slots_ok s1" "0 < t" "t < hs_slot_size s1"
    "hs_slot s1 ! t = None" "\<And>h p. handle_map ctxs s h = Some p \<Longrightarrow> hs_slot s1 ! (unat h mod hs_slot_size s1) = Some p"
    using grow_ok [OF inv sz] by blast
  have ok: "slots_ok s" using inv by (rule table_invD)
  obtain r where r: "for_exit (probe_slot s) [0..<hs_slot_size s] (hs_handle_index s) = Some r" "case r of
      Inl h \<Rightarrow> 1 \<le> unat h \<and> unat h < 2 ^ 24 \<and> hs_slot s ! (unat h mod hs_slot_size s) = None
    | Inr _ \<Rightarrow> \<forall>t. 0 < t \<longrightarrow> t < hs_slot_size s \<longrightarrow> hs_slot s ! t \<noteq> None" using probe_round [OF ok] by blast
  have "r \<noteq> Inl w" for w
  proof
    assume "r = Inl w"
    then have "hs_slot s ! (unat w mod hs_slot_size s) = None" using r(2) by simp
    then show False using full nth_mem [OF table_slot(2) [OF ok, of w]] by simp
  qed
  then obtain v where "r = Inr v" by (cases r) auto
  then have "register_step p (ctxs, s) = Some (Inl (?ctxs, s1))" using r(1) s1(1) by (simp add: register_step_def)
  then have eq: "fengnet_handle_register ctxs s p = fengnet_handle_register ?ctxs s1 p"
    unfolding fengnet_handle_register_def by (rule repeat_step_Inl)
  obtain w where w: "1 \<le> unat w" "unat w < 2 ^ 24" "hs_slot s1 ! (unat w mod hs_slot_size s1) = None"
    and reg: "fengnet_handle_register ?ctxs s1 p = Some (w OR hs_harbor s1, ?ctxs,
      s1\<lparr>hs_slot := (hs_slot s1)[unat w mod hs_slot_size s1 := Some p], hs_handle_index := w + 1\<rparr>)"
    using register_found [OF s1(2-5)] by blast
  let ?s = "s1\<lparr>hs_slot := (hs_slot s1)[unat w mod hs_slot_size s1 := Some p], hs_handle_index := w + 1\<rparr>"
  have "hs_slot ?s ! (unat h mod hs_slot_size ?s) = Some q" if "handle_map ctxs s h = Some q" for h q
    using s1(6) [OF that] w(3) by (cases "unat h mod hs_slot_size s1 = unat w mod hs_slot_size s1") simp_all
  moreover have "slots_ok ?s" using store_new(1) [OF s1(2) w] .
  ultimately show ?thesis using eq reg by auto
qed


section \<open>The interface to the server\<close>

text \<open>The assignment \<open>ctx->handle = fengnet_handle_register(ctx)\<close> of \<open>fengnet_context_new\<close>.\<close>

definition context_register :: "ctx_handles \<times> handle_storage \<Rightarrow> nat \<Rightarrow> (u32 \<times> ctx_handles \<times> handle_storage) option" where
  "context_register st ctx = (case st of (ctxs, s) \<Rightarrow> do {
     (h, ctxs, s) \<leftarrow> fengnet_handle_register ctxs s ctx;
     Some (h, ctxs(ctx \<mapsto> h), s)
   })"

definition context_retire :: "ctx_handles \<times> handle_storage \<Rightarrow> u32 \<Rightarrow> (nat option \<times> ctx_handles \<times> handle_storage) option" where
  "context_retire st h = (case st of (ctxs, s) \<Rightarrow> do {
     (_, ctx, s) \<leftarrow> fengnet_handle_retire ctxs s h;
     Some (ctx, ctxs, s)
   })"

locale service_table =
  fixes add :: "'s \<Rightarrow> nat \<Rightarrow> (u32 \<times> 's) option"
    and remove :: "'s \<Rightarrow> u32 \<Rightarrow> (nat option \<times> 's) option"
    and find :: "'s \<Rightarrow> u32 \<Rightarrow> nat option option"
    and table :: "'s \<Rightarrow> u32 \<rightharpoonup> nat"
    and invar :: "'s \<Rightarrow> bool"
    and room :: "'s \<Rightarrow> bool"
  assumes find_spec: "invar s \<Longrightarrow> find s h = Some (table s h)"
    and remove_spec: "invar s \<Longrightarrow>
      \<exists>s'. remove s h = Some (table s h, s') \<and> invar s' \<and> table s' = (table s)(h := None)"
    and add_spec: "invar s \<Longrightarrow> room s \<Longrightarrow> p \<notin> ran (table s) \<Longrightarrow>
      \<exists>h s'. add s p = Some (h, s') \<and> h \<noteq> 0 \<and> table s h = None \<and> invar s' \<and> table s' = (table s)(h \<mapsto> p)"
begin

text \<open>A handle names one service for its whole life: it is found until it is removed, and not after.\<close>

lemma add_remove_life:
  assumes "invar s" "room s" "p \<notin> ran (table s)"
  shows "\<exists>h s1 s2. add s p = Some (h, s1) \<and> find s1 h = Some (Some p) \<and>
    remove s1 h = Some (Some p, s2) \<and> find s2 h = Some None \<and> table s2 = table s"
proof -
  obtain h s1 where a: "add s p = Some (h, s1)" "table s h = None" "invar s1" "table s1 = (table s)(h \<mapsto> p)"
    using add_spec [OF assms] by blast
  obtain s2 where r: "remove s1 h = Some (table s1 h, s2)" "invar s2" "table s2 = (table s1)(h := None)"
    using remove_spec [OF a(3)] by blast
  have "table s2 = table s" using a(2,4) r(3) by (auto simp: fun_eq_iff)
  then show ?thesis using a r find_spec [OF a(3), of h] find_spec [OF r(2), of h] by auto
qed

lemma add_keeps_others:
  assumes "invar s" "room s" "p \<notin> ran (table s)" "table s h' = Some q"
  shows "\<exists>h s'. add s p = Some (h, s') \<and> h \<noteq> h' \<and> find s' h' = Some (Some q)"
proof -
  obtain h s' where a: "add s p = Some (h, s')" "table s h = None" "invar s'" "table s' = (table s)(h \<mapsto> p)"
    using add_spec [OF assms(1-3)] by blast
  then show ?thesis using assms(4) find_spec [OF a(3), of h'] by auto
qed

end

definition has_room :: "handle_storage \<Rightarrow> bool" where
  "has_room s \<longleftrightarrow> None \<in> set (drop 1 (hs_slot s))"

lemma has_room_slot:
  assumes "has_room s" "slots_ok s"
  shows "\<exists>t. 0 < t \<and> t < hs_slot_size s \<and> hs_slot s ! t = None"
proof -
  have len: "length (hs_slot s) = hs_slot_size s" using assms(2) by (simp add: slots_ok_def)
  obtain i where "i < length (drop 1 (hs_slot s))" "drop 1 (hs_slot s) ! i = None"
    using assms(1) unfolding has_room_def by (metis in_set_conv_nth)
  then show ?thesis using len by (intro exI [of _ "Suc i"]) auto
qed

lemma not_registered:
  assumes inv: "table_inv ctxs s" and p: "p \<notin> ran (handle_map ctxs s)"
  shows "Some p \<notin> set (hs_slot s)"
proof
  assume "Some p \<in> set (hs_slot s)"
  then obtain i where i: "i < hs_slot_size s" "hs_slot s ! i = Some p"
    using inv by (auto simp: in_set_conv_nth table_inv_def slots_ok_def)
  then obtain h where h: "ctxs p = Some h" "unat h mod hs_slot_size s = i" using inv unfolding table_inv_def by blast
  then have "handle_map ctxs s h = Some p" using i by (simp add: handle_map_def)
  then show False using p by (auto simp: ran_def)
qed

interpretation st: service_table context_register context_retire "\<lambda>(ctxs, s). fengnet_handle_grab ctxs s"
  "\<lambda>(ctxs, s). handle_map ctxs s" "\<lambda>(ctxs, s). table_inv ctxs s" "\<lambda>(ctxs, s). has_room s"
proof unfold_locales
  fix st :: "ctx_handles \<times> handle_storage" and h p
  obtain ctxs s where st: "st = (ctxs, s)" by (cases st)
  assume inv: "case st of (ctxs, s) \<Rightarrow> table_inv ctxs s"
  show "(case st of (ctxs, s) \<Rightarrow> fengnet_handle_grab ctxs s) h = Some ((case st of (ctxs, s) \<Rightarrow> handle_map ctxs s) h)"
    using inv by (simp add: st grab_ok)
  show "\<exists>st'. context_retire st h = Some ((case st of (ctxs, s) \<Rightarrow> handle_map ctxs s) h, st') \<and>
      (case st' of (ctxs, s) \<Rightarrow> table_inv ctxs s) \<and>
      (case st' of (ctxs, s) \<Rightarrow> handle_map ctxs s) = (case st of (ctxs, s) \<Rightarrow> handle_map ctxs s)(h := None)"
    using inv retire_ok [of ctxs s h] by (auto simp: st context_retire_def)
  assume "case st of (ctxs, s) \<Rightarrow> has_room s" "p \<notin> ran (case st of (ctxs, s) \<Rightarrow> handle_map ctxs s)"
  then have "has_room s" "p \<notin> ran (handle_map ctxs s)" by (simp_all add: st)
  moreover have inv': "table_inv ctxs s" using inv by (simp add: st)
  ultimately obtain t where "0 < t" "t < hs_slot_size s" "hs_slot s ! t = None" "Some p \<notin> set (hs_slot s)"
    using has_room_slot not_registered table_invD by blast
  from register_ok [OF inv' this] obtain h s' where
    r: "fengnet_handle_register ctxs s p = Some (h, ctxs, s')" "take_bit 24 h \<noteq> 0" "handle_map ctxs s h = None"
    "table_inv (ctxs(p \<mapsto> h)) s'" "handle_map (ctxs(p \<mapsto> h)) s' = (handle_map ctxs s)(h \<mapsto> p)" by blast
  have "h \<noteq> 0" using r(2) by auto
  then show "\<exists>h st'. context_register st p = Some (h, st') \<and> h \<noteq> 0 \<and>
      (case st of (ctxs, s) \<Rightarrow> handle_map ctxs s) h = None \<and> (case st' of (ctxs, s) \<Rightarrow> table_inv ctxs s) \<and>
      (case st' of (ctxs, s) \<Rightarrow> handle_map ctxs s) = (case st of (ctxs, s) \<Rightarrow> handle_map ctxs s)(h \<mapsto> p)"
    using r by (intro exI [of _ h] exI [of _ "(ctxs(p \<mapsto> h), s')"]) (simp add: st context_register_def)
qed

section \<open>Retiring every service\<close>

fun contexts :: "nat option list \<Rightarrow> nat list" where
  "contexts [] = []"
| "contexts (None # cs) = contexts cs"
| "contexts (Some p # cs) = p # contexts cs"

lemma contexts_append [simp]: "contexts (cs @ ds) = contexts cs @ contexts ds"
  by (induction cs rule: contexts.induct) simp_all

lemma retire_round:
  assumes "table_inv ctxs s" "m \<le> hs_slot_size s"
  shows "\<exists>s'. for_each (retire_slot ctxs) [0..<m] (0, rel, s) =
      Some (length (contexts (take m (hs_slot s))), rel @ contexts (take m (hs_slot s)), s') \<and> table_inv ctxs s' \<and>
    hs_slot_size s' = hs_slot_size s \<and> hs_slot s' = replicate m None @ drop m (hs_slot s)"
  using assms(2)
proof (induction m)
  case 0
  then show ?case using assms(1) by simp
next
  case (Suc m)
  let ?cs = "contexts (take m (hs_slot s))"
  obtain s1 where s1: "for_each (retire_slot ctxs) [0..<m] (0, rel, s) = Some (length ?cs, rel @ ?cs, s1)"
    "table_inv ctxs s1" "hs_slot_size s1 = hs_slot_size s" "hs_slot s1 = replicate m None @ drop m (hs_slot s)"
    using Suc by auto
  have m: "m < length (hs_slot s)" using Suc.prems assms(1) by (simp add: table_inv_def slots_ok_def)
  have slot: "hs_slot s1 ! m = hs_slot s ! m" "m < length (hs_slot s1)" using s1(4) m by (simp_all add: nth_append)
  have t: "take (Suc m) (hs_slot s) = take m (hs_slot s) @ [hs_slot s ! m]" using m by (simp add: take_Suc_conv_app_nth)
  have d: "drop m (hs_slot s) = hs_slot s ! m # drop (Suc m) (hs_slot s)" using m by (simp add: Cons_nth_drop_Suc)
  have rep: "replicate (Suc m) None @ xs = replicate m None @ None # xs" for xs :: "nat option list"
    by (metis append.assoc append_Cons append_Nil replicate_append_same replicate_Suc)
  show ?case
  proof (cases "hs_slot s ! m")
    case None
    then have "retire_slot ctxs m (length ?cs, rel @ ?cs, s1) = Some (length ?cs, rel @ ?cs, s1)"
      using slot by (simp add: retire_slot_def mem_simps)
    then show ?thesis using s1 t d None rep by (intro exI [of _ s1]) (simp add: for_each_append)
  next
    case (Some p)
    obtain h where h: "ctxs p = Some h" "unat h mod hs_slot_size s1 = m" "take_bit 24 h \<noteq> 0"
      using s1(2,3) slot(1) Some Suc.prems unfolding table_inv_def Suc_le_eq by metis
    have hm: "handle_map ctxs s1 h = Some p" using h slot Some by (simp add: handle_map_def)
    obtain s2 where s2: "fengnet_handle_retire ctxs s1 h = Some (1, Some p, s2)" "table_inv ctxs s2"
      "hs_slot_size s2 = hs_slot_size s1" "hs_slot s2 = (hs_slot s1)[m := None]"
      using retire_ok [OF s1(2), of h] hm h(2) by auto
    have "h \<noteq> 0" using h(3) by auto
    then have "retire_slot ctxs m (length ?cs, rel @ ?cs, s1) = Some (length ?cs + 1, rel @ ?cs @ [p], s2)"
      using slot Some h(1) s2(1) by (simp add: retire_slot_def mem_simps)
    moreover have "hs_slot s2 = replicate (Suc m) None @ drop (Suc m) (hs_slot s)"
      using s2(4) s1(4) d rep by (simp add: list_update_append)
    ultimately show ?thesis using s1 s2 t Some by (intro exI [of _ s2]) (simp add: for_each_append)
  qed
qed

lemma retireall_round:
  assumes "table_inv ctxs s"
  shows "\<exists>s'. retireall_step ctxs (rel, s) =
      Some (if contexts (hs_slot s) = [] then Inr (rel, s') else Inl (rel @ contexts (hs_slot s), s')) \<and>
    table_inv ctxs s' \<and> hs_slot s' = replicate (hs_slot_size s) None"
proof -
  have len: "length (hs_slot s) = hs_slot_size s" using assms by (simp add: table_inv_def slots_ok_def)
  obtain s' where "for_each (retire_slot ctxs) [0..<hs_slot_size s] (0, rel, s) =
      Some (length (contexts (hs_slot s)), rel @ contexts (hs_slot s), s')" "table_inv ctxs s'"
    "hs_slot s' = replicate (hs_slot_size s) None"
    using retire_round [OF assms order_refl, of rel] len by auto
  then show ?thesis by (auto simp: retireall_step_def)
qed

lemma contexts_Nones: "contexts (replicate n None) = []"
  by (induction n) simp_all

lemma handle_map_empty: "hs_slot s = replicate n None \<Longrightarrow> table_inv ctxs s \<Longrightarrow> handle_map ctxs s = Map.empty"
  using table_slot(2) [OF table_invD] by (fastforce simp: handle_map_def fun_eq_iff)

section \<open>Properties\<close>

text \<open>
  C24. The life of a handle, in every well-formed table with a free slot: registering a context
  returns a handle that is not 0 and that no registered context has, grabbing that handle gives
  the context, every other registered handle still gives its own context, and retiring the handle
  hands back the context and makes the table what it was.
\<close>

theorem handle_life:
  assumes "table_inv ctxs s" "has_room s" "p \<notin> ran (handle_map ctxs s)"
  shows "\<exists>h st1 st2. context_register (ctxs, s) p = Some (h, st1) \<and> h \<noteq> 0 \<and> handle_map ctxs s h = None \<and>
    fengnet_handle_grab (fst st1) (snd st1) h = Some (Some p) \<and>
    (\<forall>h' q. handle_map ctxs s h' = Some q \<longrightarrow> fengnet_handle_grab (fst st1) (snd st1) h' = Some (Some q)) \<and>
    context_retire st1 h = Some (Some p, st2) \<and> handle_map (fst st2) (snd st2) = handle_map ctxs s"
proof -
  obtain h st1 st2 where life: "context_register (ctxs, s) p = Some (h, st1)"
    "fengnet_handle_grab (fst st1) (snd st1) h = Some (Some p)" "context_retire st1 h = Some (Some p, st2)"
    "handle_map (fst st2) (snd st2) = handle_map ctxs s"
    using st.add_remove_life [of "(ctxs, s)" p] assms by (auto simp: split_beta)
  have "h \<noteq> 0" "handle_map ctxs s h = None"
    using st.add_spec [of "(ctxs, s)" p] assms life(1) by auto
  moreover have "fengnet_handle_grab (fst st1) (snd st1) h' = Some (Some q)" if "handle_map ctxs s h' = Some q" for h' q
    using st.add_keeps_others [of "(ctxs, s)" p h' q] assms that life(1) by (auto simp: split_beta)
  ultimately show ?thesis using life
    by (intro exI [of _ h] exI [of _ st1] exI [of _ st2]) simp
qed

text \<open>
  C25. Growing the table destroys it: when every slot is taken, registering one more context
  frees all the contexts already registered (\<open>delete s->slot[i]\<close>) while the new table still
  points to them, so grabbing any handle registered before reads a freed context.
\<close>

theorem register_growth_frees_contexts:
  assumes "table_inv ctxs s" "None \<notin> set (hs_slot s)" "hs_slot_size s * 2 \<le> 2 ^ 23" "p \<notin> ran (handle_map ctxs s)"
  shows "\<exists>h st'. context_register (ctxs, s) p = Some (h, st') \<and>
    (\<forall>h' q. handle_map ctxs s h' = Some q \<longrightarrow> fst st' q = None \<and> fengnet_handle_grab (fst st') (snd st') h' = None)"
proof -
  let ?ctxs = "\<lambda>p. if Some p \<in> set (hs_slot s) then None else ctxs p"
  obtain h s' where r: "fengnet_handle_register ctxs s p = Some (h, ?ctxs, s')" "slots_ok s'"
    "\<And>h p. handle_map ctxs s h = Some p \<Longrightarrow> hs_slot s' ! (unat h mod hs_slot_size s') = Some p"
    using register_grows [OF assms(1-3)] by blast
  have "(?ctxs(p \<mapsto> h)) q = None \<and> fengnet_handle_grab (?ctxs(p \<mapsto> h)) s' h' = None"
    if q: "handle_map ctxs s h' = Some q" for h' q
  proof -
    have "q \<noteq> p" using q assms(4) by (auto simp: ran_def)
    moreover have "Some q \<in> set (hs_slot s)"
      using handle_map_SomeD(1) [OF q] nth_mem [OF table_slot(2) [OF table_invD [OF assms(1)], of h']] by simp
    ultimately show ?thesis
      using r(3) [OF q] table_slot [OF r(2), of h'] by (simp add: fengnet_handle_grab_def mem_simps)
  qed
  then show ?thesis using r(1)
    by (intro exI [of _ h] exI [of _ "(?ctxs(p \<mapsto> h), s')"]) (simp add: context_register_def)
qed

text \<open>
  C26. \<open>fengnet_handle_retireall\<close> terminates on every well-formed table: it releases every
  registered context exactly once, in the order of the slots, and leaves a table in which no
  handle is registered.
\<close>

theorem retireall_terminates:
  assumes "table_inv ctxs s"
  shows "\<exists>s'. fengnet_handle_retireall ctxs s = Some (contexts (hs_slot s), s') \<and> table_inv ctxs s' \<and>
    handle_map ctxs s' = Map.empty"
proof -
  obtain s1 where s1: "retireall_step ctxs ([], s) =
      Some (if contexts (hs_slot s) = [] then Inr ([], s1) else Inl (contexts (hs_slot s), s1))"
    "table_inv ctxs s1" "hs_slot s1 = replicate (hs_slot_size s) None"
    using retireall_round [OF assms, of "[]"] by auto
  obtain s2 where s2: "retireall_step ctxs (contexts (hs_slot s), s1) = Some (Inr (contexts (hs_slot s), s2))"
    "table_inv ctxs s2" "hs_slot s2 = replicate (hs_slot_size s1) None"
    using retireall_round [OF s1(2), of "contexts (hs_slot s)"] s1(3) contexts_Nones by auto
  show ?thesis
  proof (cases "contexts (hs_slot s) = []")
    case True
    then show ?thesis using s1 handle_map_empty [OF s1(3,2)]
      by (intro exI [of _ s1]) (simp add: fengnet_handle_retireall_def repeat_step_Inr)
  next
    case False
    then have "fengnet_handle_retireall ctxs s = Some (contexts (hs_slot s), s2)"
      using s1(1) repeat_step_Inl [of "retireall_step ctxs" "([], s)"]
        repeat_step_Inr [of "retireall_step ctxs" "(contexts (hs_slot s), s1)"] s2(1)
      by (simp add: fengnet_handle_retireall_def)
    then show ?thesis using s2(2) handle_map_empty [OF s2(3,2)] by blast
  qed
qed

section \<open>Witnesses\<close>

definition full_table :: handle_storage where
  "full_table = \<lparr>hs_harbor = 0, hs_handle_index = 5, hs_slot_size = 4,
     hs_slot = [Some 14, Some 11, Some 12, Some 13], hs_names = names_init\<rparr>"

definition full_ctxs :: ctx_handles where
  "full_ctxs = [11 \<mapsto> 1, 12 \<mapsto> 2, 13 \<mapsto> 3, 14 \<mapsto> 4]"

lemma full_table_inv: "table_inv full_ctxs full_table"
  unfolding table_inv_def
proof
  show "slots_ok full_table"
    using names_init_ok(1) by (auto simp: slots_ok_def full_table_def intro: exI [of _ 2])
next
  show "\<forall>i<hs_slot_size full_table. \<forall>p. hs_slot full_table ! i = Some p \<longrightarrow>
      (\<exists>h. full_ctxs p = Some h \<and> unat h mod hs_slot_size full_table = i \<and> take_bit 24 h \<noteq> 0)"
  proof (intro allI impI)
    fix i p assume "i < hs_slot_size full_table" and p: "hs_slot full_table ! i = Some p"
    then consider "i = 0" | "i = 1" | "i = 2" | "i = 3" by (fastforce simp: full_table_def)
    then show "\<exists>h. full_ctxs p = Some h \<and> unat h mod hs_slot_size full_table = i \<and> take_bit 24 h \<noteq> 0"
      using p by cases (simp_all add: full_table_def full_ctxs_def)
  qed
qed

lemma init_table_inv: "table_inv ctxs (fengnet_handle_init harbor)"
  using names_init_ok(1)
  by (auto simp: table_inv_def slots_ok_def fengnet_handle_init_def DEFAULT_SLOT_SIZE_def HANDLE_REMOTE_SHIFT_def
      take_bit_push_bit intro: exI [of _ 2])

lemma init_table_room: "has_room (fengnet_handle_init harbor)"
  by (simp add: has_room_def fengnet_handle_init_def DEFAULT_SLOT_SIZE_def)

lemma init_table_empty: "handle_map ctxs (fengnet_handle_init harbor) = Map.empty"
  using handle_map_empty [OF _ init_table_inv] by (simp add: fengnet_handle_init_def)

theorem handle_life_witness:
  "\<exists>h st1 st2. context_register (Map.empty, fengnet_handle_init 1) 7 = Some (h, st1) \<and> h \<noteq> 0 \<and>
    fengnet_handle_grab (fst st1) (snd st1) h = Some (Some 7) \<and> context_retire st1 h = Some (Some 7, st2)"
  using handle_life [OF init_table_inv init_table_room, of 7 Map.empty 1] by (auto simp: init_table_empty)

theorem register_growth_frees_contexts_witness:
  "\<exists>h st'. context_register (full_ctxs, full_table) 15 = Some (h, st') \<and>
    fengnet_handle_grab (fst st') (snd st') 1 = None"
proof -
  have "15 \<notin> ran (handle_map full_ctxs full_table)"
    by (auto simp: ran_def handle_map_def full_ctxs_def split: option.splits if_splits)
  moreover have "handle_map full_ctxs full_table 1 = Some 11"
    by (simp add: handle_map_def full_table_def full_ctxs_def)
  ultimately show ?thesis
    using register_growth_frees_contexts [OF full_table_inv, of 15] by (auto simp: full_table_def)
qed

theorem retireall_terminates_witness:
  "\<exists>s'. fengnet_handle_retireall full_ctxs full_table = Some ([14, 11, 12, 13], s') \<and>
    handle_map full_ctxs s' = Map.empty"
  using retireall_terminates [OF full_table_inv] by (auto simp: full_table_def)

end
