(* ===== verification/Timer_Wheel.thy ===== *)
theory Timer_Wheel
  imports Message_Queue
begin

text \<open>
  The timing wheel of \<^verbatim>\<open>fengnet-src/fengnet_timer.cpp\<close>: 256 lists for the ticks of the current
  block of 256 and four levels of 64 lists for later ones, which are redistributed when the clock
  crosses a block. \<open>pos_of\<close> is the list a node belongs to at a time; the lemmas show that \<open>add_node\<close>
  and \<open>timer_shift\<close> keep every node there.

  A list of nodes chained through \<open>next\<close> from \<open>head\<close> to \<open>tail\<close> is the list of its nodes. The times
  are 32-bit words that wrap around. The clocks of the system are parameters.
\<close>

section \<open>Data\<close>

record timer_event =
  te_handle :: u32
  te_session :: int

record timer_node =
  tn_expire :: u32
  tn_event :: timer_event

type_synonym link_list = "timer_node list"

record timer =
  tm_near :: "link_list list"
  tm_t :: "link_list list list"
  tm_lock :: bool
  tm_time :: u32
  tm_starttime :: u32
  tm_current :: u64
  tm_current_point :: u64

definition TIME_NEAR_SHIFT :: nat where "TIME_NEAR_SHIFT = 8"
definition TIME_NEAR :: u32 where "TIME_NEAR = push_bit TIME_NEAR_SHIFT 1"
definition TIME_LEVEL_SHIFT :: nat where "TIME_LEVEL_SHIFT = 6"
definition TIME_LEVEL :: u32 where "TIME_LEVEL = push_bit TIME_LEVEL_SHIFT 1"
definition TIME_NEAR_MASK :: u32 where "TIME_NEAR_MASK = TIME_NEAR - 1"
definition TIME_LEVEL_MASK :: u32 where "TIME_LEVEL_MASK = TIME_LEVEL - 1"
definition PTYPE_RESPONSE :: u64 where "PTYPE_RESPONSE = 1"
definition MESSAGE_TYPE_SHIFT :: nat where "MESSAGE_TYPE_SHIFT = 56"

lemmas timer_consts = TIME_NEAR_SHIFT_def TIME_NEAR_def TIME_LEVEL_SHIFT_def TIME_LEVEL_def
  TIME_NEAR_MASK_def TIME_LEVEL_MASK_def

section \<open>Lists and levels\<close>

definition link_clear :: "link_list \<Rightarrow> timer_node list \<times> link_list" where
  "link_clear l = (l, [])"

definition link :: "link_list \<Rightarrow> timer_node \<Rightarrow> link_list" where
  "link l node = l @ [node]"

text \<open>The loop of \<open>add_node\<close> that finds the level, with \<open>mask\<close> as its state.\<close>

definition find_level :: "u32 \<Rightarrow> u32 \<Rightarrow> nat option" where
  "find_level time current_time = do {
     r \<leftarrow> for_exit (\<lambda>i mask.
         Some (if (time OR (mask - 1)) = (current_time OR (mask - 1)) then Inl i
               else Inr (push_bit TIME_LEVEL_SHIFT mask)))
       [0..<3] (push_bit TIME_LEVEL_SHIFT TIME_NEAR);
     Some (case r of Inl i \<Rightarrow> i | Inr _ \<Rightarrow> 3)
   }"

definition link_near :: "nat \<Rightarrow> timer_node \<Rightarrow> timer \<Rightarrow> timer option" where
  "link_near k node T = do {
     l \<leftarrow> load (tm_near T) k;
     ls \<leftarrow> store (tm_near T) k (link l node);
     Some (T\<lparr>tm_near := ls\<rparr>)
   }"

definition link_level :: "nat \<Rightarrow> nat \<Rightarrow> timer_node \<Rightarrow> timer \<Rightarrow> timer option" where
  "link_level i k node T = do {
     ls \<leftarrow> load (tm_t T) i;
     l \<leftarrow> load ls k;
     ls \<leftarrow> store ls k (link l node);
     t \<leftarrow> store (tm_t T) i ls;
     Some (T\<lparr>tm_t := t\<rparr>)
   }"

definition add_node :: "timer_node \<Rightarrow> timer \<Rightarrow> timer option" where
  "add_node node T = (
     let time = tn_expire node; current_time = tm_time T in
     if (time OR TIME_NEAR_MASK) = (current_time OR TIME_NEAR_MASK)
     then link_near (unat (time AND TIME_NEAR_MASK)) node T
     else do {
       i \<leftarrow> find_level time current_time;
       link_level i (unat (drop_bit (TIME_NEAR_SHIFT + i * TIME_LEVEL_SHIFT) time AND TIME_LEVEL_MASK)) node T
     })"

definition move_list :: "timer \<Rightarrow> nat \<Rightarrow> nat \<Rightarrow> timer option" where
  "move_list T level idx = do {
     ls \<leftarrow> load (tm_t T) level;
     l \<leftarrow> load ls idx;
     let (current, l) = link_clear l;
     ls \<leftarrow> store ls idx l;
     t \<leftarrow> store (tm_t T) level ls;
     for_each add_node current (T\<lparr>tm_t := t\<rparr>)
   }"

text \<open>The loop of \<open>timer_shift\<close> over the levels, with \<open>mask\<close>, \<open>time\<close> and \<open>i\<close> as its state.\<close>

definition shift_step :: "u32 \<Rightarrow> timer \<Rightarrow> int \<times> u32 \<times> nat \<Rightarrow> (int \<times> u32 \<times> nat + timer) option" where
  "shift_step ct T s = (case s of (msk, time, i) \<Rightarrow>
     if ct AND word_of_int (msk - 1) = 0 then
       let idx = unat (time AND TIME_LEVEL_MASK) in
       if idx \<noteq> 0 then map_option Inr (move_list T i idx)
       else do {
         msk \<leftarrow> c_int (msk * 2 ^ TIME_LEVEL_SHIFT);
         Some (Inl (msk, drop_bit TIME_LEVEL_SHIFT time, i + 1))
       }
     else Some (Inr T))"

definition timer_shift :: "timer \<Rightarrow> timer option" where
  "timer_shift T = (
     let ct = tm_time T + 1; T = T\<lparr>tm_time := ct\<rparr> in
     if ct = 0 then move_list T 3 0
     else repeat_step (shift_step ct T) (uint TIME_NEAR, drop_bit TIME_NEAR_SHIFT ct, 0))"

section \<open>Locking, dispatch and the clock\<close>

text \<open>
  \<open>SpinLock\<close> is not recursive: a thread that takes a lock it holds spins for ever, which is
  \<open>None\<close>. In these functions one thread runs, so a lock that is taken stays taken.
\<close>

definition spin_lock :: "timer \<Rightarrow> timer option" where
  "spin_lock T = (if tm_lock T then None else Some (T\<lparr>tm_lock := True\<rparr>))"

definition spin_unlock :: "timer \<Rightarrow> timer" where
  "spin_unlock T = T\<lparr>tm_lock := False\<rparr>"

definition timer_add :: "timer \<Rightarrow> timer_event \<Rightarrow> int \<Rightarrow> timer option" where
  "timer_add T event time = do {
     T \<leftarrow> spin_lock T;
     T \<leftarrow> add_node \<lparr>tn_expire = word_of_int time + tm_time T, tn_event = event\<rparr> T;
     Some (spin_unlock T)
   }"

definition response_message :: "int \<Rightarrow> fengnet_message" where
  "response_message session = \<lparr>m_source = 0, m_session = session, m_data = 0,
     m_sz = push_bit MESSAGE_TYPE_SHIFT PTYPE_RESPONSE\<rparr>"

text \<open>The messages pushed, with the handle they are pushed to.\<close>

definition dispatch_list :: "timer_node list \<Rightarrow> (u32 \<times> fengnet_message) list" where
  "dispatch_list current =
     map (\<lambda>n. (te_handle (tn_event n), response_message (te_session (tn_event n)))) current"

text \<open>What \<open>timer_execute\<close> takes from the wheel before it dispatches.\<close>

definition take_due :: "timer \<Rightarrow> (timer_node list \<times> timer) option" where
  "take_due T = do {
     let idx = unat (tm_time T AND TIME_NEAR_MASK);
     l \<leftarrow> load (tm_near T) idx;
     let (current, l) = link_clear l;
     ls \<leftarrow> store (tm_near T) idx l;
     Some (current, T\<lparr>tm_near := ls\<rparr>)
   }"

definition execute_step :: "(u32 \<times> fengnet_message) list \<times> timer \<Rightarrow>
    ((u32 \<times> fengnet_message) list \<times> timer + (u32 \<times> fengnet_message) list \<times> timer) option" where
  "execute_step s = (case s of (out, T) \<Rightarrow> do {
     l \<leftarrow> load (tm_near T) (unat (tm_time T AND TIME_NEAR_MASK));
     if l = [] then Some (Inr (out, T))
     else do {
       (current, T) \<leftarrow> take_due T;
       T \<leftarrow> spin_lock T;
       Some (Inl (out @ dispatch_list current, spin_unlock T))
     }
   })"

definition timer_execute :: "timer \<Rightarrow> ((u32 \<times> fengnet_message) list \<times> timer) option" where
  "timer_execute T = repeat_step execute_step ([], T)"

definition timer_update :: "timer \<Rightarrow> ((u32 \<times> fengnet_message) list \<times> timer) option" where
  "timer_update T = do {
     T \<leftarrow> spin_lock T;
     (out1, T) \<leftarrow> timer_execute T;
     T \<leftarrow> timer_shift T;
     (out2, T) \<leftarrow> timer_execute T;
     Some (out1 @ out2, spin_unlock T)
   }"

text \<open>
  \<open>push\<close> is the result of \<open>fengnet_context_push\<close> for a handle. The result is the return value,
  the messages pushed at once and the timer.
\<close>

definition fengnet_timeout :: "(u32 \<Rightarrow> int) \<Rightarrow> timer \<Rightarrow> u32 \<Rightarrow> int \<Rightarrow> int \<Rightarrow> (int \<times> (u32 \<times> fengnet_message) list \<times> timer) option" where
  "fengnet_timeout push T handle time session = (
     if time \<le> 0 then
       Some (if push handle \<noteq> 0 then -1 else session, [(handle, response_message session)], T)
     else do {
       T \<leftarrow> timer_add T \<lparr>te_handle = handle, te_session = session\<rparr> time;
       Some (session, [], T)
     })"

text \<open>\<open>systime\<close> and \<open>gettime\<close> of the seconds and nanoseconds that \<open>clock_gettime\<close> returns.\<close>

definition systime :: "u64 \<Rightarrow> u64 \<Rightarrow> u32 \<times> u32" where
  "systime sec nsec = (ucast sec, ucast (nsec div 10000000))"

definition gettime :: "u64 \<Rightarrow> u64 \<Rightarrow> u64" where
  "gettime sec nsec = sec * 100 + nsec div 10000000"

definition fengnet_thread_time :: "u64 \<Rightarrow> u64 \<Rightarrow> u64" where
  "fengnet_thread_time sec nsec = sec * 1000000 + nsec div (1000000000 div 1000000)"

definition fengnet_updatetime :: "u64 \<Rightarrow> timer \<Rightarrow> ((u32 \<times> fengnet_message) list \<times> timer) option" where
  "fengnet_updatetime cp T = (
     if cp < tm_current_point T then Some ([], T\<lparr>tm_current_point := cp\<rparr>)
     else if cp \<noteq> tm_current_point T then
       let diff = (ucast (cp - tm_current_point T) :: u32);
           T = T\<lparr>tm_current_point := cp, tm_current := tm_current T + ucast diff\<rparr> in
       for_each (\<lambda>_ (out, T). do { (o', T) \<leftarrow> timer_update T; Some (out @ o', T) }) [0..<unat diff] ([], T)
     else Some ([], T))"

definition fengnet_starttime :: "timer \<Rightarrow> u32" where
  "fengnet_starttime T = tm_starttime T"

definition fengnet_now :: "timer \<Rightarrow> u64" where
  "fengnet_now T = tm_current T"

definition timer_create_timer :: timer where
  "timer_create_timer = \<lparr>tm_near = replicate (unat TIME_NEAR) [], tm_t = replicate 4 (replicate (unat TIME_LEVEL) []),
     tm_lock = False, tm_time = 0, tm_starttime = 0, tm_current = 0, tm_current_point = 0\<rparr>"

definition fengnet_timer_init :: "u64 \<times> u64 \<Rightarrow> u64 \<times> u64 \<Rightarrow> timer" where
  "fengnet_timer_init rt mt = (
     let (starttime, current) = systime (fst rt) (snd rt) in
     timer_create_timer\<lparr>tm_starttime := starttime, tm_current := ucast current,
       tm_current_point := gettime (fst mt) (snd mt)\<rparr>)"

section \<open>Where a node belongs\<close>

datatype pos = Near nat | Level nat nat

text \<open>The list \<open>add_node\<close> chooses at time \<open>t\<close> for a node that expires at \<open>e\<close>, on numbers.\<close>

definition pos_of :: "nat \<Rightarrow> nat \<Rightarrow> pos" where
  "pos_of t e = (if e div 2 ^ 8 = t div 2 ^ 8 then Near (e mod 2 ^ 8)
     else if e div 2 ^ 14 = t div 2 ^ 14 then Level 0 (e div 2 ^ 8 mod 2 ^ 6)
     else if e div 2 ^ 20 = t div 2 ^ 20 then Level 1 (e div 2 ^ 14 mod 2 ^ 6)
     else if e div 2 ^ 26 = t div 2 ^ 26 then Level 2 (e div 2 ^ 20 mod 2 ^ 6)
     else Level 3 (e div 2 ^ 26 mod 2 ^ 6))"

text \<open>The list \<open>timer_shift\<close> redistributes when the clock reaches \<open>t\<close>.\<close>

definition moved :: "nat \<Rightarrow> pos option" where
  "moved t = (if t = 0 then Some (Level 3 0)
     else if t mod 2 ^ 8 \<noteq> 0 then None
     else if t mod 2 ^ 14 \<noteq> 0 then Some (Level 0 (t div 2 ^ 8 mod 2 ^ 6))
     else if t mod 2 ^ 20 \<noteq> 0 then Some (Level 1 (t div 2 ^ 14 mod 2 ^ 6))
     else if t mod 2 ^ 26 \<noteq> 0 then Some (Level 2 (t div 2 ^ 20 mod 2 ^ 6))
     else Some (Level 3 (t div 2 ^ 26 mod 2 ^ 6)))"

text \<open>Only nodes in the redistributed list change place when the clock advances.\<close>

lemma div_crossing:
  fixes t :: nat
  shows "(t + 1) mod m \<noteq> 0 \<Longrightarrow> (t + 1) div m = t div m"
    "(t + 1) mod m = 0 \<Longrightarrow> 0 < m \<Longrightarrow> t + 1 \<le> e \<Longrightarrow> e div m \<noteq> t div m"
proof -
  show "(t + 1) mod m \<noteq> 0 \<Longrightarrow> (t + 1) div m = t div m"
    by (metis Suc_eq_plus1 div_Suc)
  assume *: "(t + 1) mod m = 0" "0 < m" "t + 1 \<le> e"
  then have "(t + 1) div m = t div m + 1" by (metis Suc_eq_plus1 div_Suc)
  moreover have "(t + 1) div m \<le> e div m" using *(3) by (rule div_le_mono)
  ultimately show "e div m \<noteq> t div m" by simp
qed

lemma div_up:
  fixes e t :: nat
  assumes "e div 2 ^ a = t div 2 ^ a" "a \<le> b"
  shows "e div 2 ^ b = t div 2 ^ b"
proof -
  have "x div 2 ^ b = x div 2 ^ a div 2 ^ (b - a)" for x :: nat
    using assms(2) by (simp add: div_mult2_eq [symmetric] power_add [symmetric])
  then show ?thesis using assms(1) by metis
qed

lemma mod_up: "(x :: nat) mod 2 ^ a \<noteq> 0 \<Longrightarrow> a \<le> b \<Longrightarrow> x mod 2 ^ b \<noteq> 0"
  by (metis dvd_trans le_imp_power_dvd mod_0_imp_dvd mod_eq_0_iff_dvd)

lemma pos_of_same:
  assumes "\<And>k. k \<in> {8, 14, 20, 26} \<Longrightarrow> e div 2 ^ k = t' div 2 ^ k \<longleftrightarrow> e div 2 ^ k = t div 2 ^ k"
  shows "pos_of t' e = pos_of t e"
proof -
  have "e div 2 ^ 8 = t' div 2 ^ 8 \<longleftrightarrow> e div 2 ^ 8 = t div 2 ^ 8" "e div 2 ^ 14 = t' div 2 ^ 14 \<longleftrightarrow> e div 2 ^ 14 = t div 2 ^ 14"
    "e div 2 ^ 20 = t' div 2 ^ 20 \<longleftrightarrow> e div 2 ^ 20 = t div 2 ^ 20" "e div 2 ^ 26 = t' div 2 ^ 26 \<longleftrightarrow> e div 2 ^ 26 = t div 2 ^ 26"
    by (rule assms; simp)+
  then show ?thesis by (simp only: pos_of_def)
qed

text \<open>The clock stays below \<open>e\<close>: \<open>j\<close> is the lowest level it does not cross, \<open>i\<close> the one before.\<close>

lemma pos_of_next:
  assumes e: "t + 1 \<le> e" and ne: "Some (pos_of t e) \<noteq> moved (t + 1)"
  shows "pos_of (t + 1) e = pos_of t e"
proof (rule pos_of_same)
  fix k :: nat assume k: "k \<in> {8, 14, 20, 26}"
  let ?t = "t + 1"
  show "e div 2 ^ k = ?t div 2 ^ k \<longleftrightarrow> e div 2 ^ k = t div 2 ^ k"
  proof (cases "?t mod 2 ^ k = 0")
    case False
    then show ?thesis using div_crossing(1) by simp
  next
    case True
    have nt: "e div 2 ^ l \<noteq> t div 2 ^ l" if "?t mod 2 ^ l = 0" for l
      using div_crossing(2) [OF that _ e] by simp
    have zero: "?t mod 2 ^ l = 0" if "l \<le> m" "?t mod 2 ^ m = 0" for l m
      using mod_up [of ?t l m] that by blast
    have "e div 2 ^ k \<noteq> ?t div 2 ^ k"
    proof
      assume eq: "e div 2 ^ k = ?t div 2 ^ k"
      have up: "e div 2 ^ l = ?t div 2 ^ l" if "k \<le> l" for l using div_up [OF eq that] .
      have same: "e div 2 ^ l = t div 2 ^ l" if "k \<le> l" "?t mod 2 ^ l \<noteq> 0" for l
        using up [OF that(1)] div_crossing(1) [OF that(2)] by simp
      have "?t mod 2 ^ 8 = 0" using zero [of 8 k] True k by auto
      then consider (a) "?t mod 2 ^ 26 = 0" | (b) "?t mod 2 ^ 20 = 0" "?t mod 2 ^ 26 \<noteq> 0"
        | (c) "?t mod 2 ^ 14 = 0" "?t mod 2 ^ 20 \<noteq> 0" | (d) "?t mod 2 ^ 8 = 0" "?t mod 2 ^ 14 \<noteq> 0"
        by blast
      then have "Some (pos_of t e) = moved ?t"
      proof cases
        case a
        have "e div 2 ^ 8 \<noteq> t div 2 ^ 8" "e div 2 ^ 14 \<noteq> t div 2 ^ 14" "e div 2 ^ 20 \<noteq> t div 2 ^ 20" "e div 2 ^ 26 \<noteq> t div 2 ^ 26"
          by (rule nt, rule zero [OF _ a], simp)+
        moreover have "e div 2 ^ 26 = ?t div 2 ^ 26" by (rule up) (use k in auto)
        ultimately show ?thesis using zero [OF _ a, of 8] zero [OF _ a, of 14] zero [OF _ a, of 20] a
          by (simp only: pos_of_def moved_def if_True if_False add_eq_0_iff_both_eq_0 one_neq_zero simp_thms)
      next
        case b
        have "k \<noteq> 26" using True b by metis
        then have k': "k \<le> 20" using k by auto
        have "e div 2 ^ 8 \<noteq> t div 2 ^ 8" "e div 2 ^ 14 \<noteq> t div 2 ^ 14" "e div 2 ^ 20 \<noteq> t div 2 ^ 20"
          by (rule nt, rule zero [OF _ b(1)], simp)+
        moreover have "e div 2 ^ 26 = t div 2 ^ 26" by (rule same [OF _ b(2)]) (use k' in simp)
        ultimately show ?thesis using zero [OF _ b(1), of 8] zero [OF _ b(1), of 14] up [OF k'] b
          by (simp only: pos_of_def moved_def if_True if_False add_eq_0_iff_both_eq_0 one_neq_zero simp_thms)
      next
        case c
        have "k \<noteq> 26" "k \<noteq> 20" using True c zero [of 20 26] by auto
        then have k': "k \<le> 14" using k by auto
        have "e div 2 ^ 8 \<noteq> t div 2 ^ 8" "e div 2 ^ 14 \<noteq> t div 2 ^ 14"
          by (rule nt, rule zero [OF _ c(1)], simp)+
        moreover have "e div 2 ^ 20 = t div 2 ^ 20" by (rule same [OF _ c(2)]) (use k' in simp)
        ultimately show ?thesis using zero [OF _ c(1), of 8] up [OF k'] c
          by (simp only: pos_of_def moved_def if_True if_False add_eq_0_iff_both_eq_0 one_neq_zero simp_thms)
      next
        case d
        have "k \<noteq> 26" "k \<noteq> 20" "k \<noteq> 14" using True d zero [of 14 20] zero [of 14 26] by auto
        then have k': "k \<le> 8" using k by auto
        have "e div 2 ^ 8 \<noteq> t div 2 ^ 8" by (rule nt) (rule d(1))
        moreover have "e div 2 ^ 14 = t div 2 ^ 14" by (rule same [OF _ d(2)]) (use k' in simp)
        ultimately show ?thesis using up [OF k'] d
          by (simp only: pos_of_def moved_def if_True if_False add_eq_0_iff_both_eq_0 one_neq_zero simp_thms)
      qed
      then show False using ne by simp
    qed
    then show ?thesis using nt [OF True] by simp
  qed
qed


lemma pos_of_level3:
  assumes "e div 2 ^ 26 \<noteq> t div 2 ^ 26"
  shows "pos_of t e = Level 3 (e div 2 ^ 26 mod 2 ^ 6)"
proof -
  have n: "e div 2 ^ k \<noteq> t div 2 ^ k" if "k \<le> 26" for k using assms div_up [of e k t 26] that by blast
  have "e div 2 ^ 8 \<noteq> t div 2 ^ 8" "e div 2 ^ 14 \<noteq> t div 2 ^ 14" "e div 2 ^ 20 \<noteq> t div 2 ^ 20"
    by (rule n, simp)+
  then show ?thesis using assms by (simp only: pos_of_def if_False)
qed

lemma pos_of_far:
  assumes "e + 2 ^ 31 < t"
  shows "pos_of t e = Level 3 (e div 2 ^ 26 mod 2 ^ 6)"
proof (rule pos_of_level3)
  have "(e + 2 ^ 26) div 2 ^ 26 \<le> t div 2 ^ 26" by (rule div_le_mono) (use assms in simp)
  then show "e div 2 ^ 26 \<noteq> t div 2 ^ 26" by simp
qed

lemma unat_next: "(t :: u32) + 1 \<noteq> 0 \<Longrightarrow> unat (t + 1) = unat t + 1"
  using unatSuc [of t] by (simp add: add.commute)

text \<open>The same for 32-bit times, for a node that expires within \<open>2 ^ 31\<close> ticks, across the wrap.\<close>

lemma pos_next:
  fixes t e :: u32
  assumes d: "0 < unat (e - t)" "unat (e - t) < 2 ^ 31"
    and ne: "Some (pos_of (unat t) (unat e)) \<noteq> moved (unat (t + 1))"
  shows "pos_of (unat (t + 1)) (unat e) = pos_of (unat t) (unat e)"
proof (cases "unat t < unat e")
  case True
  have "t + 1 \<noteq> 0"
  proof
    assume "t + 1 = 0"
    then have "t = - 1" by (simp add: eq_neg_iff_add_eq_0)
    then have "e \<le> t" by simp
    then show False using True by (simp add: word_le_nat_alt)
  qed
  then show ?thesis using pos_of_next [of "unat t" "unat e"] True ne by (simp add: unat_next)
next
  case False
  have "unat t \<noteq> unat e"
  proof
    assume "unat t = unat e"
    then have "t = e" by (simp only: word_unat_eq_iff)
    then show False using d(1) by simp
  qed
  then have "unat (e - t) = unat e + 2 ^ 32 - unat t" using False by (simp add: unat_sub_if')
  then have far: "unat e + 2 ^ 31 < unat t" using d(2) unsigned_less [of t, where ?'a = nat] by simp
  show ?thesis
  proof (cases "t + 1 = 0")
    case True
    then have "unat e div 2 ^ 26 mod 2 ^ 6 \<noteq> 0" using ne pos_of_far [OF far] by (auto simp: moved_def)
    then have "unat e div 2 ^ 26 \<noteq> 0 div 2 ^ 26" by (metis div_0 mod_0)
    then show ?thesis using True pos_of_far [OF far] pos_of_level3 [of "unat e" 0] by simp
  next
    case nz: False
    then have "unat e + 2 ^ 31 < unat (t + 1)" using far by (simp add: unat_next)
    then show ?thesis using pos_of_far far by metis
  qed
qed

section \<open>The wheel as a table of lists\<close>

definition valid_pos :: "pos \<Rightarrow> bool" where
  "valid_pos p = (case p of Near k \<Rightarrow> k < 256 | Level i k \<Rightarrow> i < 4 \<and> k < 64)"

definition bucket :: "timer \<Rightarrow> pos \<Rightarrow> timer_node list" where
  "bucket T p = (case p of Near k \<Rightarrow> tm_near T ! k | Level i k \<Rightarrow> tm_t T ! i ! k)"

definition set_bucket :: "timer \<Rightarrow> pos \<Rightarrow> timer_node list \<Rightarrow> timer" where
  "set_bucket T p l = (case p of Near k \<Rightarrow> T\<lparr>tm_near := (tm_near T)[k := l]\<rparr>
     | Level i k \<Rightarrow> T\<lparr>tm_t := (tm_t T)[i := (tm_t T ! i)[k := l]]\<rparr>)"

definition wheel_shape :: "timer \<Rightarrow> bool" where
  "wheel_shape T \<longleftrightarrow> length (tm_near T) = 256 \<and> length (tm_t T) = 4 \<and> (\<forall>ls\<in>set (tm_t T). length ls = 64)"

lemma wheel_level: "wheel_shape T \<Longrightarrow> i < 4 \<Longrightarrow> length (tm_t T ! i) = 64"
  by (simp add: wheel_shape_def)

lemma shape_set_bucket [simp]: "wheel_shape T \<Longrightarrow> wheel_shape (set_bucket T p l)"
proof (cases p)
  case (Level i k)
  assume T: "wheel_shape T"
  have "set ((tm_t T)[i := (tm_t T ! i)[k := l]]) \<subseteq> insert ((tm_t T ! i)[k := l]) (set (tm_t T))"
    by (rule set_update_subset_insert)
  moreover have "i < 4 \<Longrightarrow> length ((tm_t T ! i)[k := l]) = 64" using wheel_level [OF T] by simp
  moreover have "\<not> i < 4 \<Longrightarrow> (tm_t T)[i := (tm_t T ! i)[k := l]] = tm_t T"
    using T by (intro list_update_beyond) (simp add: wheel_shape_def)
  ultimately show ?thesis using T Level by (cases "i < 4") (auto simp: wheel_shape_def set_bucket_def)
qed (simp add: wheel_shape_def set_bucket_def)

lemma time_set_bucket [simp]: "tm_time (set_bucket T p l) = tm_time T" "tm_lock (set_bucket T p l) = tm_lock T"
  by (simp_all add: set_bucket_def split: pos.splits)

lemma bucket_set_bucket:
  assumes "wheel_shape T" "valid_pos p" "valid_pos q"
  shows "bucket (set_bucket T p l) q = (if q = p then l else bucket T q)"
  using assms wheel_level [OF assms(1)]
  by (auto simp: wheel_shape_def bucket_def set_bucket_def valid_pos_def nth_list_update split: pos.splits)

lemma unat_drop_bit: "unat (drop_bit k (w :: u32)) = unat w div 2 ^ k"
proof -
  have "take_bit 32 (unat w) = unat w" using unsigned_less [of w, where ?'a = nat] by (intro take_bit_nat_eq_self) simp
  then show ?thesis by (simp add: unsigned_drop_bit_eq drop_bit_eq_div [of k "unat w", symmetric])
qed

lemma unat_and_mask: "unat (w AND mask k :: u32) = unat w mod 2 ^ k"
  by (simp only: take_bit_eq_mask [symmetric] unsigned_take_bit_eq take_bit_eq_mod [of k "unat w"])

lemma window_eq:
  fixes e t :: u32
  shows "(e OR mask k) = (t OR mask k) \<longleftrightarrow> unat e div 2 ^ k = unat t div 2 ^ k"
proof -
  have "(e OR mask k) = (t OR mask k) \<longleftrightarrow> drop_bit k e = drop_bit k t"
  proof
    assume eq: "(e OR mask k) = (t OR mask k)"
    have "bit e (k + n) = bit t (k + n)" for n
      using arg_cong [OF eq, of "\<lambda>w. bit w (k + n)"] by (simp add: bit_simps)
    then show "drop_bit k e = drop_bit k t" by (intro bit_word_eqI) (simp add: bit_simps)
  next
    assume eq: "drop_bit k e = drop_bit k t"
    have "bit e n = bit t n" if "k \<le> n" for n
      using arg_cong [OF eq, of "\<lambda>w. bit w (n - k)"] that by (simp add: bit_simps)
    then show "(e OR mask k) = (t OR mask k)" by (intro bit_word_eqI) (auto simp: bit_simps not_less)
  qed
  also have "\<dots> \<longleftrightarrow> unat (drop_bit k e) = unat (drop_bit k t)" by (simp only: word_unat_eq_iff)
  finally show ?thesis by (simp only: unat_drop_bit)
qed


lemma near_window: "(e OR TIME_NEAR_MASK) = (t OR TIME_NEAR_MASK) \<longleftrightarrow> unat e div 2 ^ 8 = unat t div 2 ^ 8"
  "unat (e AND TIME_NEAR_MASK) = unat e mod 2 ^ 8"
proof -
  have m: "TIME_NEAR_MASK = mask 8" by (simp add: timer_consts mask_eq_exp_minus_1)
  show "(e OR TIME_NEAR_MASK) = (t OR TIME_NEAR_MASK) \<longleftrightarrow> unat e div 2 ^ 8 = unat t div 2 ^ 8"
    unfolding m by (rule window_eq)
  show "unat (e AND TIME_NEAR_MASK) = unat e mod 2 ^ 8" unfolding m by (rule unat_and_mask)
qed

lemma level_index: "unat (drop_bit k e AND TIME_LEVEL_MASK) = unat e div 2 ^ k mod 2 ^ 6"
proof -
  have m: "TIME_LEVEL_MASK = mask 6" by (simp add: timer_consts mask_eq_exp_minus_1)
  show ?thesis unfolding m by (simp only: unat_and_mask unat_drop_bit)
qed

lemma find_level_eq:
  "find_level e t = Some (if unat e div 2 ^ 14 = unat t div 2 ^ 14 then 0 else if unat e div 2 ^ 20 = unat t div 2 ^ 20 then 1
     else if unat e div 2 ^ 26 = unat t div 2 ^ 26 then 2 else 3)"
proof -
  let ?m1 = "push_bit TIME_LEVEL_SHIFT TIME_NEAR"
  let ?m2 = "push_bit TIME_LEVEL_SHIFT ?m1"
  let ?m3 = "push_bit TIME_LEVEL_SHIFT ?m2"
  have "?m1 - 1 = mask 14" "?m2 - 1 = mask 20" "?m3 - 1 = mask 26"
    by (simp_all add: timer_consts mask_eq_exp_minus_1)
  then have w: "((e OR (?m1 - 1)) = (t OR (?m1 - 1))) = (unat e div 2 ^ 14 = unat t div 2 ^ 14)"
    "((e OR (?m2 - 1)) = (t OR (?m2 - 1))) = (unat e div 2 ^ 20 = unat t div 2 ^ 20)"
    "((e OR (?m3 - 1)) = (t OR (?m3 - 1))) = (unat e div 2 ^ 26 = unat t div 2 ^ 26)"
    by (simp_all only: window_eq)
  have u: "[0..<3] = [0, 1, 2 :: nat]" by (simp add: upt_rec)
  show ?thesis
    by (cases "unat e div 2 ^ 14 = unat t div 2 ^ 14"; cases "unat e div 2 ^ 20 = unat t div 2 ^ 20";
        cases "unat e div 2 ^ 26 = unat t div 2 ^ 26")
      (simp_all only: find_level_def u for_exit.simps w if_True if_False Option.bind.simps sum.case simp_thms)
qed

abbreviation node_pos :: "timer \<Rightarrow> timer_node \<Rightarrow> pos" where
  "node_pos T n \<equiv> pos_of (unat (tm_time T)) (unat (tn_expire n))"

lemma valid_pos_of: "valid_pos (pos_of t e)"
  by (simp add: pos_of_def valid_pos_def)

lemma link_near_eq:
  assumes "wheel_shape T" "k < 256"
  shows "link_near k n T = Some (set_bucket T (Near k) (bucket T (Near k) @ [n]))"
  using assms by (simp add: link_near_def link_def bucket_def set_bucket_def wheel_shape_def mem_simps)

lemma link_level_eq:
  assumes "wheel_shape T" "i < 4" "k < 64"
  shows "link_level i k n T = Some (set_bucket T (Level i k) (bucket T (Level i k) @ [n]))"
  using assms wheel_level [OF assms(1,2)]
  by (simp add: link_level_def link_def bucket_def set_bucket_def wheel_shape_def mem_simps)

lemma add_node_eq:
  assumes T: "wheel_shape T"
  shows "add_node n T = Some (set_bucket T (node_pos T n) (bucket T (node_pos T n) @ [n]))"
proof -
  let ?e = "unat (tn_expire n)" and ?t = "unat (tm_time T)"
  have lv: "link_level i (?e div 2 ^ k mod 2 ^ 6) n T = Some (set_bucket T (Level i (?e div 2 ^ k mod 2 ^ 6))
      (bucket T (Level i (?e div 2 ^ k mod 2 ^ 6)) @ [n]))" if "i < 4" for i k
    using that by (intro link_level_eq [OF T]) simp_all
  have nr: "link_near (?e mod 2 ^ 8) n T = Some (set_bucket T (Near (?e mod 2 ^ 8)) (bucket T (Near (?e mod 2 ^ 8)) @ [n]))"
    by (intro link_near_eq [OF T]) simp
  have sh: "TIME_NEAR_SHIFT + 0 * TIME_LEVEL_SHIFT = 8" "TIME_NEAR_SHIFT + 1 * TIME_LEVEL_SHIFT = 14"
    "TIME_NEAR_SHIFT + 2 * TIME_LEVEL_SHIFT = 20" "TIME_NEAR_SHIFT + 3 * TIME_LEVEL_SHIFT = 26"
    by (simp_all add: timer_consts)
  have i4: "(0 :: nat) < 4" "(1 :: nat) < 4" "(2 :: nat) < 4" "(3 :: nat) < 4" by simp_all
  show ?thesis
    unfolding add_node_def Let_def near_window find_level_eq Option.bind.simps pos_of_def nr
    by (cases "?e div 2 ^ 8 = ?t div 2 ^ 8"; cases "?e div 2 ^ 14 = ?t div 2 ^ 14"; cases "?e div 2 ^ 20 = ?t div 2 ^ 20";
        cases "?e div 2 ^ 26 = ?t div 2 ^ 26")
      (simp_all only: if_True if_False simp_thms sh level_index lv [OF i4(1)] lv [OF i4(2)] lv [OF i4(3)] lv [OF i4(4)])
qed


text \<open>\<open>timer_shift\<close> advances the clock and redistributes the list \<open>moved\<close> names.\<close>

definition redistribute :: "timer \<Rightarrow> pos \<Rightarrow> timer option" where
  "redistribute T p = for_each add_node (bucket T p) (set_bucket T p [])"

lemma move_list_eq:
  assumes "wheel_shape T" "i < 4" "k < 64"
  shows "move_list T i k = redistribute T (Level i k)"
  using assms wheel_level [OF assms(1,2)]
  by (simp add: move_list_def redistribute_def link_clear_def bucket_def set_bucket_def wheel_shape_def mem_simps)

lemma mod_digit: "(x :: nat) mod 2 ^ (a + 6) = 2 ^ a * (x div 2 ^ a mod 2 ^ 6) + x mod 2 ^ a"
  by (simp only: power_add mod_mult2_eq)

lemma shift_step_eq:
  assumes T: "wheel_shape T" and i: "i < 4" and k: "k = 8 + 6 * i" and z: "unat ct mod 2 ^ k = 0"
  shows "shift_step ct T (2 ^ k, drop_bit k ct, i) =
    (if unat ct div 2 ^ k mod 2 ^ 6 \<noteq> 0 then map_option Inr (redistribute T (Level i (unat ct div 2 ^ k mod 2 ^ 6)))
     else do { m \<leftarrow> c_int (2 ^ (k + 6)); Some (Inl (m, drop_bit (k + 6) ct, i + 1)) })"
proof -
  have "ct AND word_of_int (2 ^ k - 1) = 0"
  proof -
    have "(word_of_int (2 ^ k - 1) :: u32) = mask k" by (simp add: mask_eq_exp_minus_1)
    moreover have "unat (ct AND mask k) = 0" using z by (simp only: unat_and_mask)
    ultimately show ?thesis by (simp add: unat_eq_zero)
  qed
  moreover have "move_list T i (unat ct div 2 ^ k mod 2 ^ 6) = redistribute T (Level i (unat ct div 2 ^ k mod 2 ^ 6))"
    using i by (intro move_list_eq [OF T]) simp_all
  moreover have "(2::int) ^ k * 2 ^ TIME_LEVEL_SHIFT = 2 ^ (k + 6)" by (simp add: timer_consts power_add)
  moreover have "drop_bit TIME_LEVEL_SHIFT (drop_bit k ct) = drop_bit (k + 6) ct"
    by (simp add: timer_consts drop_bit_drop_bit add.commute)
  ultimately show ?thesis
    by (simp only: shift_step_def prod.case if_True level_index Let_def simp_thms)
qed

lemma shift_step_stop:
  assumes "unat ct mod 2 ^ k \<noteq> 0"
  shows "shift_step ct T (2 ^ k, w, i) = Some (Inr T)"
proof -
  have "(word_of_int (2 ^ k - 1) :: u32) = mask k" by (simp add: mask_eq_exp_minus_1)
  moreover have "unat (ct AND mask k) \<noteq> 0" using assms by (simp only: unat_and_mask) simp
  then have "ct AND mask k \<noteq> 0" by (metis unat_0)
  ultimately show ?thesis by (simp add: shift_step_def)
qed

lemma shift_loop:
  assumes T: "wheel_shape T" and i: "i < 4" and k: "k = 8 + 6 * i" and z: "unat ct mod 2 ^ k = 0"
  shows "repeat_step (shift_step ct T) (2 ^ k, drop_bit k ct, i) =
    (if unat ct div 2 ^ k mod 2 ^ 6 \<noteq> 0 then redistribute T (Level i (unat ct div 2 ^ k mod 2 ^ 6))
     else if k + 6 < 31 then repeat_step (shift_step ct T) (2 ^ (k + 6), drop_bit (k + 6) ct, i + 1) else None)"
proof (cases "unat ct div 2 ^ k mod 2 ^ 6 = 0")
  case False
  then show ?thesis using shift_step_eq [OF assms]
    by (subst repeat_step.simps) (cases "redistribute T (Level i (unat ct div 2 ^ k mod 2 ^ 6))", simp_all only: if_True simp_thms option.map option.case sum.case)
next
  case True
  have "c_int (2 ^ (k + 6)) = (if k + 6 < 31 then Some (2 ^ (k + 6)) else None)"
  proof (cases "k + 6 < 31")
    case True
    then have "(2::int) ^ (k + 6) < 2 ^ 31" by (intro power_strict_increasing) simp_all
    moreover have "- (2 ^ 31) \<le> (2::int) ^ (k + 6)" by (rule order_trans [of _ 0]) simp_all
    ultimately show ?thesis using True by (simp only: c_int_def if_True simp_thms)
  next
    case False
    then have "(2::int) ^ 31 \<le> 2 ^ (k + 6)" by (intro power_increasing) simp_all
    then show ?thesis using False unfolding c_int_def by auto
  qed
  then show ?thesis using shift_step_eq [OF assms] True
    by (subst repeat_step.simps) (cases "k + 6 < 31", simp_all only: if_True if_False simp_thms option.case sum.case Option.bind.simps)
qed


lemma timer_shift_eq:
  assumes "wheel_shape T"
  shows "timer_shift T = (case moved (unat (tm_time T + 1)) of
      None \<Rightarrow> Some (T\<lparr>tm_time := tm_time T + 1\<rparr>)
    | Some p \<Rightarrow> redistribute (T\<lparr>tm_time := tm_time T + 1\<rparr>) p)"
proof -
  let ?ct = "tm_time T + 1"
  let ?T = "T\<lparr>tm_time := ?ct\<rparr>" and ?u = "unat ?ct"
  have T: "wheel_shape ?T" using assms by (simp add: wheel_shape_def)
  show ?thesis
  proof (cases "?ct = 0")
    case True
    then show ?thesis using move_list_eq [OF T, of 3 0] by (simp add: timer_shift_def moved_def Let_def)
  next
    case False
    then have nz: "?u \<noteq> 0" by (simp add: unat_eq_zero)
    have start: "timer_shift T = repeat_step (shift_step ?ct ?T) (2 ^ 8, drop_bit 8 ?ct, 0)"
      using False by (simp add: timer_shift_def Let_def timer_consts)
    define loop where "loop i = repeat_step (shift_step ?ct ?T) (2 ^ (8 + 6 * i), drop_bit (8 + 6 * i) ?ct, i)" for i
    have zero: "?u mod 2 ^ a = 0" if "?u mod 2 ^ b = 0" "a \<le> b" for a b
      using mod_up [of ?u a b] that by blast
    have pass: "loop i = loop j" if "i < 3" "?u mod 2 ^ (8 + 6 * i + 6) = 0" "j = i + 1" for i j
    proof -
      have z: "?u mod 2 ^ (8 + 6 * i) = 0" using zero [OF that(2)] by simp
      then have "?u div 2 ^ (8 + 6 * i) mod 2 ^ 6 = 0" using that(2) mod_digit [of ?u "8 + 6 * i"] by simp
      then show ?thesis using shift_loop [OF T _ refl z] that(1,3) by (simp add: loop_def ac_simps)
    qed
    have stop: "loop i = redistribute ?T (Level i (?u div 2 ^ (8 + 6 * i) mod 2 ^ 6))"
      if "i < 4" "?u mod 2 ^ (8 + 6 * i) = 0" "?u mod 2 ^ (8 + 6 * i + 6) \<noteq> 0" for i
    proof -
      have "?u div 2 ^ (8 + 6 * i) mod 2 ^ 6 \<noteq> 0" using that(2,3) mod_digit [of ?u "8 + 6 * i"] by auto
      then show ?thesis using shift_loop [OF T that(1) refl that(2)] by (simp add: loop_def)
    qed
    have start: "timer_shift T = loop 0"
      using False by (simp add: timer_shift_def Let_def timer_consts loop_def)
    have "?u mod 2 ^ 32 = ?u" using unsigned_less [of ?ct, where ?'a = nat] by simp
    then have top: "?u mod 2 ^ 32 \<noteq> 0" using nz by simp
    consider (a) "?u mod 2 ^ 8 \<noteq> 0" | (b) "?u mod 2 ^ 8 = 0" "?u mod 2 ^ 14 \<noteq> 0"
      | (c) "?u mod 2 ^ 14 = 0" "?u mod 2 ^ 20 \<noteq> 0" | (d) "?u mod 2 ^ 20 = 0" "?u mod 2 ^ 26 \<noteq> 0"
      | (e) "?u mod 2 ^ 26 = 0" by blast
    then show ?thesis
    proof cases
      case a
      then have "repeat_step (shift_step ?ct ?T) (2 ^ 8, drop_bit 8 ?ct, 0) = Some ?T"
        by (intro repeat_step_Inr shift_step_stop)
      then show ?thesis using nz a start by (simp add: moved_def loop_def)
    next
      case b
      then have "moved ?u = Some (Level 0 (?u div 2 ^ 8 mod 2 ^ 6))" using nz by (simp add: moved_def)
      then show ?thesis using stop [of 0] b start by simp
    next
      case c
      then have "moved ?u = Some (Level 1 (?u div 2 ^ 14 mod 2 ^ 6))" using nz zero [OF c(1), of 8] by (simp add: moved_def)
      then show ?thesis using pass [of 0 1] stop [of 1] c start by simp
    next
      case d
      then have "moved ?u = Some (Level 2 (?u div 2 ^ 20 mod 2 ^ 6))"
        using nz zero [OF d(1), of 8] zero [OF d(1), of 14] by (simp add: moved_def)
      moreover have "loop 0 = loop 1" "loop 1 = loop 2"
        by (rule pass; use d zero [OF d(1), of 14] in simp)+
      ultimately show ?thesis using stop [of 2] d start by simp
    next
      case e
      then have "moved ?u = Some (Level 3 (?u div 2 ^ 26 mod 2 ^ 6))"
        using nz zero [OF e, of 8] zero [OF e, of 14] zero [OF e, of 20] by (simp add: moved_def)
      moreover have "loop 0 = loop 1" "loop 1 = loop 2" "loop 2 = loop 3"
        by (rule pass; use e zero [OF e, of 14] zero [OF e, of 20] in simp)+
      ultimately show ?thesis using stop [of 3] e top start by simp
    qed
  qed
qed


end
