(* ===== verification/Timer_Clock.thy ===== *)
theory Timer_Clock
  imports Timer_Wheel "HOL-Library.Multiset"
begin

text \<open>
  What the timing wheel of \<open>Timer_Wheel\<close> promises. The interface \<open>tick_clock\<close> is an abstract timer: a
  multiset of pending events, of which every tick takes out exactly those due. The wheel
  implements it, which gives punctuality; the locking around it gives the hang of the last
  property.
\<close>

section \<open>The events of the wheel\<close>

definition pending :: "timer \<Rightarrow> timer_node multiset" where
  "pending T = mset (concat (tm_near T)) + mset (concat (concat (tm_t T)))"

abbreviation delay :: "timer \<Rightarrow> timer_node \<Rightarrow> nat" where
  "delay T n \<equiv> unat (tn_expire n - tm_time T)"

definition placed :: "nat \<Rightarrow> timer \<Rightarrow> bool" where
  "placed lo T \<longleftrightarrow> wheel_shape T \<and>
     (\<forall>p. valid_pos p \<longrightarrow> (\<forall>n\<in>set (bucket T p). node_pos T n = p \<and> lo \<le> delay T n \<and> delay T n < 2 ^ 31))"

lemma mset_concat_update:
  "k < length xs \<Longrightarrow> mset (concat (xs[k := l])) + mset (xs ! k) = mset (concat xs) + mset l"
proof (induction xs arbitrary: k)
  case (Cons x xs)
  then show ?case by (cases k) (auto simp: ac_simps)
qed simp

lemma mset_concat_update2:
  "i < length xss \<Longrightarrow> k < length (xss ! i) \<Longrightarrow>
   mset (concat (concat (xss[i := (xss ! i)[k := l]]))) + mset (xss ! i ! k) = mset (concat (concat xss)) + mset l"
proof (induction xss arbitrary: i)
  case (Cons xs xss)
  show ?case
  proof (cases i)
    case 0
    then show ?thesis using Cons.prems mset_concat_update [of k xs l] by (simp add: ac_simps)
  next
    case (Suc j)
    then show ?thesis using Cons by (simp add: ac_simps)
  qed
qed simp

lemma pending_set_bucket:
  assumes "wheel_shape T" "valid_pos p"
  shows "pending (set_bucket T p l) + mset (bucket T p) = pending T + mset l"
proof (cases p)
  case (Near k)
  then show ?thesis using assms mset_concat_update [of k "tm_near T" l]
    by (simp add: pending_def set_bucket_def bucket_def valid_pos_def wheel_shape_def ac_simps)
next
  case (Level i k)
  then have ik: "i < length (tm_t T)" "k < length (tm_t T ! i)"
    using assms wheel_level [OF assms(1)] by (auto simp: valid_pos_def wheel_shape_def)
  show ?thesis using Level mset_concat_update2 [OF ik, of l]
    by (simp add: pending_def set_bucket_def bucket_def ac_simps)
qed

lemma in_pending:
  assumes "wheel_shape T"
  shows "n \<in># pending T \<longleftrightarrow> (\<exists>p. valid_pos p \<and> n \<in> set (bucket T p))"
proof
  assume "n \<in># pending T"
  then consider l where "l \<in> set (tm_near T)" "n \<in> set l" | ls l where "ls \<in> set (tm_t T)" "l \<in> set ls" "n \<in> set l"
    by (auto simp: pending_def)
  then show "\<exists>p. valid_pos p \<and> n \<in> set (bucket T p)"
  proof cases
    case 1
    then obtain k where "k < 256" "tm_near T ! k = l" using assms by (auto simp: wheel_shape_def in_set_conv_nth)
    then show ?thesis using 1 by (intro exI [of _ "Near k"]) (simp add: valid_pos_def bucket_def)
  next
    case 2
    then obtain i where i: "i < 4" "tm_t T ! i = ls" using assms by (auto simp: wheel_shape_def in_set_conv_nth)
    then obtain k where "k < 64" "ls ! k = l" using 2 wheel_level [OF assms] by (metis in_set_conv_nth)
    then show ?thesis using 2 i by (intro exI [of _ "Level i k"]) (simp add: valid_pos_def bucket_def)
  qed
next
  assume "\<exists>p. valid_pos p \<and> n \<in> set (bucket T p)"
  then obtain p where p: "valid_pos p" "n \<in> set (bucket T p)" by blast
  have "pending T = pending (set_bucket T p []) + mset (bucket T p)"
    using pending_set_bucket [OF assms p(1), of "[]"] by simp
  then show "n \<in># pending T" using p(2) by simp
qed

lemma add_node_ok:
  assumes "placed lo T" "lo \<le> delay T n" "delay T n < 2 ^ 31"
  shows "\<exists>T'. add_node n T = Some T' \<and> placed lo T' \<and> pending T' = add_mset n (pending T) \<and>
    tm_time T' = tm_time T \<and> tm_lock T' = tm_lock T"
proof -
  let ?p = "node_pos T n"
  let ?T = "set_bucket T ?p (bucket T ?p @ [n])"
  have T: "wheel_shape T" using assms(1) by (simp add: placed_def)
  have v: "valid_pos ?p" by (rule valid_pos_of)
  have "placed lo ?T" using assms T
    by (auto simp: placed_def bucket_set_bucket [OF T v])
  moreover have "pending ?T = add_mset n (pending T)"
    using pending_set_bucket [OF T v, of "bucket T ?p @ [n]"] by simp
  ultimately show ?thesis using add_node_eq [OF T] by simp
qed

lemma add_nodes_ok:
  assumes "placed lo T" "\<And>n. n \<in> set ns \<Longrightarrow> lo \<le> delay T n \<and> delay T n < 2 ^ 31"
  shows "\<exists>T'. for_each add_node ns T = Some T' \<and> placed lo T' \<and> pending T' = pending T + mset ns \<and>
    tm_time T' = tm_time T \<and> tm_lock T' = tm_lock T"
  using assms
proof (induction ns arbitrary: T)
  case (Cons n ns)
  obtain T1 where T1: "add_node n T = Some T1" "placed lo T1" "pending T1 = add_mset n (pending T)"
    "tm_time T1 = tm_time T" "tm_lock T1 = tm_lock T"
    using add_node_ok [OF Cons.prems(1), of n] Cons.prems(2) by auto
  then show ?case using Cons.IH [OF T1(2)] Cons.prems(2) by auto
qed simp


lemma delay_next: "0 < unat (e - t :: u32) \<Longrightarrow> unat (e - (t + 1)) = unat (e - t) - 1"
proof -
  assume "0 < unat (e - t)"
  then have "e - t \<noteq> 0" by auto
  then have "unat (e - t - 1) = unat (e - t) - 1" by (rule unat_minus_one)
  then show ?thesis by (simp add: diff_diff_eq)
qed

lemma redistribute_ok:
  assumes T: "wheel_shape T" "valid_pos p"
    and n: "\<And>q n. valid_pos q \<Longrightarrow> n \<in> set (bucket T q) \<Longrightarrow> delay T n < 2 ^ 31"
    and o: "\<And>q n. valid_pos q \<Longrightarrow> q \<noteq> p \<Longrightarrow> n \<in> set (bucket T q) \<Longrightarrow> node_pos T n = q"
  shows "\<exists>T'. redistribute T p = Some T' \<and> placed 0 T' \<and> pending T' = pending T \<and>
    tm_time T' = tm_time T \<and> tm_lock T' = tm_lock T"
proof -
  let ?T = "set_bucket T p []"
  have "placed 0 ?T" using T n o by (auto simp: placed_def bucket_set_bucket)
  moreover have "\<And>m. m \<in> set (bucket T p) \<Longrightarrow> 0 \<le> delay ?T m \<and> delay ?T m < 2 ^ 31" using n [OF T(2)] by simp
  ultimately obtain T' where "for_each add_node (bucket T p) ?T = Some T'" "placed 0 T'"
    "pending T' = pending ?T + mset (bucket T p)" "tm_time T' = tm_time ?T" "tm_lock T' = tm_lock ?T"
    using add_nodes_ok [of 0 ?T "bucket T p"] by blast
  then show ?thesis using pending_set_bucket [OF T, of "[]"] by (simp add: redistribute_def)
qed

lemma moved_valid: "moved t = Some p \<Longrightarrow> valid_pos p"
  by (auto simp: moved_def valid_pos_def split: if_splits)

lemma timer_shift_ok:
  assumes pl: "placed 1 T"
  shows "\<exists>T'. timer_shift T = Some T' \<and> placed 0 T' \<and> pending T' = pending T \<and>
    tm_time T' = tm_time T + 1 \<and> tm_lock T' = tm_lock T"
proof -
  let ?T = "T\<lparr>tm_time := tm_time T + 1\<rparr>"
  have T: "wheel_shape T" using pl by (simp add: placed_def)
  then have T1: "wheel_shape ?T" by (simp add: wheel_shape_def)
  have b: "bucket ?T q = bucket T q" for q by (simp add: bucket_def split: pos.splits)
  have pd: "pending ?T = pending T" by (simp add: pending_def)
  have old: "node_pos T n = q" "0 < delay T n" "delay T n < 2 ^ 31" if "valid_pos q" "n \<in> set (bucket T q)" for q n
    using pl that unfolding placed_def One_nat_def Suc_le_eq by blast+
  have d: "delay ?T n < 2 ^ 31" if "valid_pos q" "n \<in> set (bucket ?T q)" for q n
    using delay_next [OF old(2)] old(3) that unfolding b by fastforce
  have same: "node_pos ?T n = q" if "valid_pos q" "Some q \<noteq> moved (unat (tm_time T + 1))" "n \<in> set (bucket ?T q)" for q n
    using pos_next [of "tn_expire n" "tm_time T"] old [of q n] that unfolding b by simp
  show ?thesis
  proof (cases "moved (unat (tm_time T + 1))")
    case None
    then have "timer_shift T = Some ?T" using timer_shift_eq [OF T] by simp
    moreover have "placed 0 ?T" unfolding placed_def using T1 d same None by simp
    ultimately show ?thesis using pd by simp
  next
    case (Some p)
    then have "\<exists>T'. redistribute ?T p = Some T' \<and> placed 0 T' \<and> pending T' = pending ?T \<and>
        tm_time T' = tm_time ?T \<and> tm_lock T' = tm_lock ?T"
      using T1 d same by (intro redistribute_ok) (auto intro: moved_valid)
    then show ?thesis using timer_shift_eq [OF T] Some pd by simp
  qed
qed

text \<open>What is taken out is what is due.\<close>

lemma near_due:
  assumes "placed 0 T" "valid_pos p" "n \<in> set (bucket T p)"
  shows "tn_expire n = tm_time T \<longleftrightarrow> p = Near (unat (tm_time T) mod 2 ^ 8)"
proof -
  let ?e = "unat (tn_expire n)" and ?t = "unat (tm_time T)"
  have p: "pos_of ?t ?e = p" using assms by (simp add: placed_def)
  have "?e = ?t" if "p = Near (?t mod 2 ^ 8)"
  proof -
    have "?e div 2 ^ 8 = ?t div 2 ^ 8" "?e mod 2 ^ 8 = ?t mod 2 ^ 8"
      using p that by (auto simp: pos_of_def split: if_splits)
    then show ?thesis by (metis div_mult_mod_eq)
  qed
  moreover have "p = Near (?t mod 2 ^ 8)" if "?e = ?t" using p that by (simp add: pos_of_def)
  ultimately show ?thesis by (auto simp: word_unat_eq_iff)
qed

lemma take_due_ok:
  assumes pl: "placed 0 T"
  shows "\<exists>ds T'. take_due T = Some (ds, T') \<and> placed 1 T' \<and> tm_time T' = tm_time T \<and> tm_lock T' = tm_lock T \<and>
    ds = bucket T (Near (unat (tm_time T) mod 2 ^ 8)) \<and>
    mset ds = filter_mset (\<lambda>n. tn_expire n = tm_time T) (pending T) \<and>
    pending T' = filter_mset (\<lambda>n. tn_expire n \<noteq> tm_time T) (pending T)"
proof -
  define p where "p = Near (unat (tm_time T) mod 2 ^ 8)"
  let ?T = "set_bucket T p []"
  have T: "wheel_shape T" using pl by (simp add: placed_def)
  have v: "valid_pos p" by (simp add: valid_pos_def p_def)
  have due: "tn_expire n = tm_time T" if "n \<in> set (bucket T p)" for n using near_due [OF pl v that] by (simp add: p_def)
  have notdue: "tn_expire n \<noteq> tm_time T" if "valid_pos q" "n \<in> set (bucket ?T q)" for q n
  proof -
    have "q \<noteq> p" "n \<in> set (bucket T q)"
      using that(2) bucket_set_bucket [OF T v that(1), of "[]"] by (cases "q = p"; simp)+
    then show ?thesis using near_due [OF pl that(1)] unfolding p_def by blast
  qed
  have "take_due T = Some (bucket T p, ?T)"
    using T by (simp add: p_def take_due_def near_window link_clear_def bucket_def set_bucket_def wheel_shape_def mem_simps Let_def)
  moreover have "placed 1 ?T"
  proof -
    have "0 < delay T n" if "valid_pos q" "n \<in> set (bucket ?T q)" for q n
      using notdue [OF that] by (auto intro: gr0I simp: unat_eq_zero)
    then show ?thesis using pl T unfolding placed_def
      by (auto simp: bucket_set_bucket [OF T v] Suc_le_eq)
  qed
  moreover have eq: "pending T = pending ?T + mset (bucket T p)"
    using pending_set_bucket [OF T v, of "[]"] by simp
  moreover have "\<forall>n\<in>#pending ?T. tn_expire n \<noteq> tm_time T"
    using notdue in_pending [of ?T] T by auto
  then have "filter_mset (\<lambda>n. tn_expire n = tm_time T) (pending ?T) = {#}"
    "filter_mset (\<lambda>n. tn_expire n \<noteq> tm_time T) (pending ?T) = pending ?T"
    by (auto simp: filter_mset_eq_conv)
  moreover have "\<forall>n\<in>#mset (bucket T p). tn_expire n = tm_time T" using due by simp
  then have "filter_mset (\<lambda>n. tn_expire n = tm_time T) (mset (bucket T p)) = mset (bucket T p)"
    "filter_mset (\<lambda>n. tn_expire n \<noteq> tm_time T) (mset (bucket T p)) = {#}"
    by (auto simp: filter_mset_eq_conv)
  ultimately show ?thesis
    by (intro exI [of _ "bucket T p"] exI [of _ ?T]) (simp add: p_def)
qed


section \<open>The interface\<close>

lemma unat_of_nat_small: "n < 2 ^ 32 \<Longrightarrow> unat (word_of_nat n :: u32) = n"
  by (simp add: unat_of_nat)

primrec run_ticks :: "('s \<Rightarrow> ('d \<times> 's) option) \<Rightarrow> nat \<Rightarrow> 's \<Rightarrow> ('d list \<times> 's) option" where
  "run_ticks tick 0 s = Some ([], s)"
| "run_ticks tick (Suc k) s = do {
     (d, s) \<leftarrow> tick s;
     (ds, s) \<leftarrow> run_ticks tick k s;
     Some (d # ds, s)
   }"

locale tick_clock =
  fixes add :: "'s \<Rightarrow> timer_event \<Rightarrow> int \<Rightarrow> 's option"
    and tick :: "'s \<Rightarrow> (timer_node list \<times> 's) option"
    and now :: "'s \<Rightarrow> u32"
    and events :: "'s \<Rightarrow> timer_node multiset"
    and invar :: "'s \<Rightarrow> bool"
  assumes add_spec: "invar s \<Longrightarrow> 0 < n \<Longrightarrow> n < 2 ^ 31 \<Longrightarrow>
      \<exists>s'. add s e n = Some s' \<and> invar s' \<and> now s' = now s \<and>
        events s' = add_mset \<lparr>tn_expire = word_of_int n + now s, tn_event = e\<rparr> (events s)"
    and tick_spec: "invar s \<Longrightarrow>
      \<exists>ds s'. tick s = Some (ds, s') \<and> invar s' \<and> now s' = now s + 1 \<and>
        mset ds = filter_mset (\<lambda>n. tn_expire n = now s + 1) (events s) \<and>
        events s' = filter_mset (\<lambda>n. tn_expire n \<noteq> now s + 1) (events s)"
begin

text \<open>Tick \<open>j\<close> of a run delivers exactly the events due at that time, each once.\<close>

lemma run_ticks_spec:
  assumes "invar s" "k < 2 ^ 32"
  shows "\<exists>dss s'. run_ticks tick k s = Some (dss, s') \<and> length dss = k \<and> invar s' \<and>
    (\<forall>j<k. mset (dss ! j) = filter_mset (\<lambda>n. tn_expire n = now s + word_of_nat (Suc j)) (events s))"
  using assms
proof (induction k arbitrary: s)
  case 0
  then show ?case by simp
next
  case (Suc k)
  obtain ds s1 where t: "tick s = Some (ds, s1)" "invar s1" "now s1 = now s + 1"
    "mset ds = filter_mset (\<lambda>n. tn_expire n = now s + 1) (events s)"
    "events s1 = filter_mset (\<lambda>n. tn_expire n \<noteq> now s + 1) (events s)"
    using tick_spec [OF Suc.prems(1)] by blast
  obtain dss s' where r: "run_ticks tick k s1 = Some (dss, s')" "length dss = k" "invar s'"
    "\<And>j. j < k \<Longrightarrow> mset (dss ! j) = filter_mset (\<lambda>n. tn_expire n = now s1 + word_of_nat (Suc j)) (events s1)"
    using Suc.IH [OF t(2)] Suc.prems(2) by auto
  have "mset ((ds # dss) ! j) = filter_mset (\<lambda>n. tn_expire n = now s + word_of_nat (Suc j)) (events s)" if "j < Suc k" for j
  proof (cases j)
    case 0
    then show ?thesis using t(4) by simp
  next
    case (Suc i)
    have "unat (word_of_nat (Suc i) :: u32) = Suc i"
      using that Suc Suc.prems(2) by (intro unat_of_nat_small) simp
    then have "(word_of_nat (Suc i) :: u32) \<noteq> 0" by (metis nat.distinct(1) unat_0)
    then have ne: "now s + 1 + word_of_nat (Suc i) \<noteq> now s + 1" by simp
    have "mset ((ds # dss) ! j) = filter_mset (\<lambda>n. tn_expire n = now s1 + word_of_nat (Suc i)) (events s1)"
      using r(4) [of i] that Suc by simp
    also have "\<dots> = filter_mset (\<lambda>n. tn_expire n = now s + 1 + word_of_nat (Suc i)) (events s)"
      unfolding t(3,5) filter_filter_mset using ne by (intro filter_mset_cong) auto
    also have "now s + 1 + word_of_nat (Suc i) = now s + word_of_nat (Suc j)" using Suc by simp
    finally show ?thesis .
  qed
  then show ?case using t(1) r(1-3) by auto
qed

text \<open>An event added with a delay of \<open>n\<close> ticks comes out at the \<open>n\<close>-th tick and not before.\<close>

lemma fires_on_time:
  assumes "invar s" "0 < n" "n < 2 ^ 31"
  shows "\<exists>s1 dss s'. add s e (int n) = Some s1 \<and> run_ticks tick n s1 = Some (dss, s') \<and> length dss = n \<and>
    \<lparr>tn_expire = word_of_nat n + now s, tn_event = e\<rparr> \<in> set (dss ! (n - 1)) \<and>
    (\<forall>j<n - 1. \<lparr>tn_expire = word_of_nat n + now s, tn_event = e\<rparr> \<notin> set (dss ! j))"
proof -
  let ?n = "\<lparr>tn_expire = word_of_nat n + now s, tn_event = e\<rparr>"
  obtain s1 where a: "add s e (int n) = Some s1" "invar s1" "now s1 = now s" "events s1 = add_mset ?n (events s)"
    using add_spec [OF assms(1), of "int n" e] assms(2,3) by auto
  obtain dss s' where r: "run_ticks tick n s1 = Some (dss, s')" "length dss = n"
    "\<And>j. j < n \<Longrightarrow> mset (dss ! j) = filter_mset (\<lambda>n. tn_expire n = now s + word_of_nat (Suc j)) (events s1)"
    using run_ticks_spec [OF a(2), of n] assms(3) a(3) by auto
  have "?n \<in># mset (dss ! (n - 1))" using r(3) [of "n - 1"] assms(2) a(4) by (simp add: add.commute)
  moreover have "?n \<notin># mset (dss ! j)" if "j < n - 1" for j
  proof -
    have "(word_of_nat n :: u32) \<noteq> word_of_nat (Suc j)"
    proof
      assume "(word_of_nat n :: u32) = word_of_nat (Suc j)"
      then have "unat (word_of_nat n :: u32) = unat (word_of_nat (Suc j) :: u32)" by (rule arg_cong)
      then have "n = Suc j" using that assms(3) by (subst (asm) (1 2) unat_of_nat_small) simp_all
      then show False using that by simp
    qed
    then show ?thesis using r(3) [of j] that by (simp add: add.commute)
  qed
  ultimately show ?thesis using a(1) r(1,2) by auto
qed

end

section \<open>The wheel implements it\<close>

text \<open>The work of \<open>timer_update\<close> on the wheel: the clock advances and what is due is taken out.\<close>

definition wheel_tick :: "timer \<Rightarrow> (timer_node list \<times> timer) option" where
  "wheel_tick T = do { T \<leftarrow> timer_shift T; take_due T }"

definition wheel_ready :: "timer \<Rightarrow> bool" where
  "wheel_ready T \<longleftrightarrow> placed 1 T \<and> \<not> tm_lock T"

lemma placed_lock [simp]: "placed lo (T\<lparr>tm_lock := b\<rparr>) = placed lo T"
proof -
  have "bucket (T\<lparr>tm_lock := b\<rparr>) p = bucket T p" for p by (simp add: bucket_def split: pos.splits)
  then show ?thesis by (simp add: placed_def wheel_shape_def)
qed

lemma pending_lock [simp]: "pending (T\<lparr>tm_lock := b\<rparr>) = pending T"
  by (simp add: pending_def)

lemma timer_add_ok:
  assumes "wheel_ready T" "0 < n" "n < 2 ^ 31"
  shows "\<exists>T'. timer_add T e n = Some T' \<and> wheel_ready T' \<and> tm_time T' = tm_time T \<and>
    pending T' = add_mset \<lparr>tn_expire = word_of_int n + tm_time T, tn_event = e\<rparr> (pending T)"
proof -
  let ?T = "T\<lparr>tm_lock := True\<rparr>"
  let ?n = "\<lparr>tn_expire = word_of_int n + tm_time T, tn_event = e\<rparr>"
  have "unat (word_of_int n :: u32) = nat n"
    using assms(2,3) unat_of_nat_small [of "nat n"] by simp
  then have d: "delay ?T ?n = nat n" by simp
  have dl: "1 \<le> delay ?T ?n" "delay ?T ?n < 2 ^ 31" unfolding d using assms(2,3) by (simp_all add: nat_less_iff)
  have pl: "placed 1 ?T" using assms(1) by (simp add: wheel_ready_def)
  obtain T' where T': "add_node ?n ?T = Some T'" "placed 1 T'" "pending T' = add_mset ?n (pending ?T)" "tm_time T' = tm_time ?T"
    using add_node_ok [OF pl dl] by blast
  then show ?thesis using assms(1)
    by (simp add: timer_add_def spin_lock_def spin_unlock_def wheel_ready_def)
qed

lemma wheel_tick_ok:
  assumes "wheel_ready T"
  shows "\<exists>ds T'. wheel_tick T = Some (ds, T') \<and> wheel_ready T' \<and> tm_time T' = tm_time T + 1 \<and>
    mset ds = filter_mset (\<lambda>n. tn_expire n = tm_time T + 1) (pending T) \<and>
    pending T' = filter_mset (\<lambda>n. tn_expire n \<noteq> tm_time T + 1) (pending T)"
proof -
  obtain T1 where T1: "timer_shift T = Some T1" "placed 0 T1" "pending T1 = pending T" "tm_time T1 = tm_time T + 1"
    "tm_lock T1 = tm_lock T" using timer_shift_ok assms by (auto simp: wheel_ready_def)
  then show ?thesis using take_due_ok [OF T1(2)] assms by (auto simp: wheel_tick_def wheel_ready_def)
qed

interpretation tw: tick_clock timer_add wheel_tick tm_time pending wheel_ready
  by unfold_locales (fact timer_add_ok, fact wheel_tick_ok)

lemma timer_create_ready: "wheel_ready timer_create_timer" "pending timer_create_timer = {#}"
proof -
  have "wheel_shape timer_create_timer" by (simp add: wheel_shape_def timer_create_timer_def timer_consts)
  moreover have p: "pending timer_create_timer = {#}" by (simp add: pending_def timer_create_timer_def)
  ultimately show "wheel_ready timer_create_timer"
    using in_pending [of timer_create_timer] by (auto simp: wheel_ready_def placed_def timer_create_timer_def)
  show "pending timer_create_timer = {#}" by (rule p)
qed

lemma timer_create_time: "tm_time timer_create_timer = 0"
  by (simp add: timer_create_timer_def)

text \<open>The locking: the update hangs as soon as an event is due.\<close>

lemma timer_execute_empty:
  assumes "wheel_shape T" "bucket T (Near (unat (tm_time T) mod 2 ^ 8)) = []"
  shows "timer_execute T = Some ([], T)"
  using assms unfolding timer_execute_def
  by (intro repeat_step_Inr) (simp add: execute_step_def near_window bucket_def wheel_shape_def mem_simps)

lemma timer_execute_locked:
  assumes "wheel_shape T" "bucket T (Near (unat (tm_time T) mod 2 ^ 8)) \<noteq> []" "tm_lock T"
  shows "timer_execute T = None"
proof -
  have "execute_step ([], T) = None"
    using assms by (simp add: execute_step_def take_due_def link_clear_def spin_lock_def near_window bucket_def
        wheel_shape_def mem_simps Let_def)
  then show ?thesis unfolding timer_execute_def by (subst repeat_step.simps) simp
qed

lemma placed_bucket_now:
  assumes "placed 1 T"
  shows "bucket T (Near (unat (tm_time T) mod 2 ^ 8)) = []"
proof (rule ccontr)
  let ?p = "Near (unat (tm_time T) mod 2 ^ 8)"
  assume "bucket T ?p \<noteq> []"
  then obtain n where n: "n \<in> set (bucket T ?p)" by (meson list.set_sel(1))
  have v: "valid_pos ?p" by (simp add: valid_pos_def)
  have "placed 0 T" using assms unfolding placed_def by auto
  then have "tn_expire n = tm_time T" using near_due [OF _ v n] by simp
  moreover have "1 \<le> delay T n" using assms v n unfolding placed_def by blast
  ultimately show False by simp
qed

section \<open>Properties\<close>



text \<open>
  C28. Every advance of the clock takes out exactly the events that expire at the new time, each
  exactly once, and keeps all others pending: no event is lost, duplicated or delayed.
\<close>

theorem wheel_tick_exact:
  assumes "wheel_ready T"
  shows "\<exists>ds T'. wheel_tick T = Some (ds, T') \<and> wheel_ready T' \<and> tm_time T' = tm_time T + 1 \<and>
    mset ds = filter_mset (\<lambda>n. tn_expire n = tm_time T + 1) (pending T) \<and> pending T = mset ds + pending T'"
  using tw.tick_spec [OF assms] by (metis multiset_partition)

theorem wheel_tick_exact_witness:
  "\<exists>ds T'. wheel_tick timer_create_timer = Some (ds, T') \<and> wheel_ready T' \<and> ds = [] \<and> pending T' = {#}"
  using wheel_tick_exact [OF timer_create_ready(1)] by (auto simp: timer_create_ready(2))

text \<open>
  C29. \<open>timer_update\<close> returns if and only if no event is due at the next tick: as soon as one is,
  \<open>timer_execute\<close> takes the lock that \<open>timer_update\<close> holds and the timer thread spins for ever,
  so no timeout is ever delivered.
\<close>

theorem timer_update_hangs_when_due:
  assumes "wheel_ready T"
  shows "timer_update T = None \<longleftrightarrow> (\<exists>n. n \<in># pending T \<and> tn_expire n = tm_time T + 1)"
proof -
  let ?T = "T\<lparr>tm_lock := True\<rparr>"
  have pl: "placed 1 ?T" using assms by (simp add: wheel_ready_def)
  then have "timer_execute ?T = Some ([], ?T)"
    by (intro timer_execute_empty placed_bucket_now) (simp_all add: placed_def)
  moreover obtain T1 where T1: "timer_shift ?T = Some T1" "placed 0 T1" "pending T1 = pending T" "tm_time T1 = tm_time T + 1"
    "tm_lock T1" using timer_shift_ok [OF pl] by auto
  moreover have "spin_lock T = Some ?T" using assms by (simp add: wheel_ready_def spin_lock_def)
  ultimately have up: "timer_update T = do { (out, T) \<leftarrow> timer_execute T1; Some (out, spin_unlock T) }"
    by (simp add: timer_update_def)
  have sh: "wheel_shape T1" using T1(2) by (simp add: placed_def)
  let ?b = "bucket T1 (Near (unat (tm_time T1) mod 2 ^ 8))"
  have "mset ?b = filter_mset (\<lambda>n. tn_expire n = tm_time T1) (pending T1)" using take_due_ok [OF T1(2)] by blast
  then have "?b = [] \<longleftrightarrow> \<not> (\<exists>n. n \<in># pending T \<and> tn_expire n = tm_time T + 1)"
    using T1(3,4) by (metis (mono_tags, lifting) filter_mset_eq_mempty_iff mset_zero_iff)
  then show ?thesis
    using up timer_execute_empty [OF sh] timer_execute_locked [OF sh _ T1(5)] by (cases "?b = []") auto
qed

theorem timer_update_hangs_when_due_witness: "\<exists>T. timer_add timer_create_timer \<lparr>te_handle = 5, te_session = 9\<rparr> 1 = Some T \<and> timer_update T = None"
proof -
  obtain T where T: "timer_add timer_create_timer \<lparr>te_handle = 5, te_session = 9\<rparr> 1 = Some T" "wheel_ready T"
    "tm_time T = 0" "pending T = {#\<lparr>tn_expire = 1, tn_event = \<lparr>te_handle = 5, te_session = 9\<rparr>\<rparr>#}"
    using tw.add_spec [OF timer_create_ready(1), of 1 "\<lparr>te_handle = 5, te_session = 9\<rparr>"]
    by (auto simp: timer_create_ready(2) timer_create_time)
  then show ?thesis using timer_update_hangs_when_due [OF T(2)] by auto
qed

end
