(* ===== verification/Netpack.thy ===== *)
theory Netpack
  imports Ring_Buffer
begin

text \<open>
  The package framing of \<^verbatim>\<open>lualib-src/lua-netpack.cpp\<close>: every package on a socket is a big-endian
  16-bit length and that many bytes. The filter cuts the data of a socket into packages; a package
  that is not complete waits in a hash table under the id of its socket, complete packages are
  returned or put into a growing ring.

  The userdata of the Lua side is \<open>None\<close> as long as it has not been created. A list chained
  through \<open>next\<close> is the list of its elements, a buffer is its bytes, and memory from \<open>malloc\<close>
  starts as zeros. The outer \<open>None\<close> is an access outside a buffer, a failed \<open>assert\<close> or signed overflow.
\<close>

section \<open>Data\<close>

definition QUEUESIZE :: nat where "QUEUESIZE = 1024"
definition HASHSIZE :: nat where "HASHSIZE = 4096"

record netpack =
  np_id :: int
  np_size :: int
  np_buffer :: bytes

record uncomplete =
  uc_pack :: netpack
  uc_read :: int
  uc_header :: int

record npqueue =
  nq_cap :: nat
  nq_head :: nat
  nq_tail :: nat
  nq_hash :: "uncomplete list list"
  nq_queue :: "netpack list"

definition zero_pack :: netpack where
  "zero_pack = \<lparr>np_id = 0, np_size = 0, np_buffer = []\<rparr>"

section \<open>Operations\<close>

text \<open>\<open>lclear\<close> frees everything the queue holds; the packages freed from the ring are the result.\<close>

definition lclear :: "npqueue option \<Rightarrow> (netpack list \<times> npqueue option) option" where
  "lclear s = (case s of
     None \<Rightarrow> Some ([], None)
   | Some q \<Rightarrow> do {
       let tail = (if nq_head q > nq_tail q then nq_tail q + nq_cap q else nq_tail q);
       freed \<leftarrow> for_each (\<lambda>i ps. do { p \<leftarrow> load (nq_queue q) (i mod nq_cap q); Some (ps @ [p]) }) [nq_head q..<tail] [];
       Some (freed, Some (q\<lparr>nq_hash := replicate HASHSIZE [], nq_head := 0, nq_tail := 0\<rparr>))
     })"

definition hash_fd :: "int \<Rightarrow> nat option" where
  "hash_fd fd = do {
     let a = fd div 2 ^ 24;
     let b = fd div 2 ^ 12;
     s \<leftarrow> c_int (a + b);
     s \<leftarrow> c_int (s + fd);
     Some (nat (s mod 2 ^ 32) mod HASHSIZE)
   }"

text \<open>Unlinking the first entry of a socket from a chain.\<close>

fun take_uc :: "int \<Rightarrow> uncomplete list \<Rightarrow> (uncomplete \<times> uncomplete list) option" where
  "take_uc fd [] = None"
| "take_uc fd (uc # ucs) = (if np_id (uc_pack uc) = fd then Some (uc, ucs)
     else map_option (\<lambda>(u, r). (u, uc # r)) (take_uc fd ucs))"

definition find_uncomplete :: "npqueue option \<Rightarrow> int \<Rightarrow> (uncomplete option \<times> npqueue option) option" where
  "find_uncomplete s fd = (case s of
     None \<Rightarrow> Some (None, None)
   | Some q \<Rightarrow> do {
       h \<leftarrow> hash_fd fd;
       ucs \<leftarrow> load (nq_hash q) h;
       case take_uc fd ucs of
         None \<Rightarrow> Some (None, Some q)
       | Some (uc, rest) \<Rightarrow> do {
           hs \<leftarrow> store (nq_hash q) h rest;
           Some (Some uc, Some (q\<lparr>nq_hash := hs\<rparr>))
         }
     })"

definition get_queue :: "npqueue option \<Rightarrow> npqueue" where
  "get_queue s = (case s of
     Some q \<Rightarrow> q
   | None \<Rightarrow> \<lparr>nq_cap = QUEUESIZE, nq_head = 0, nq_tail = 0, nq_hash = replicate HASHSIZE [],
       nq_queue = replicate QUEUESIZE zero_pack\<rparr>)"

definition np_expand_queue :: "npqueue \<Rightarrow> npqueue" where
  "np_expand_queue q = \<lparr>nq_cap = nq_cap q + QUEUESIZE, nq_head = 0, nq_tail = nq_cap q, nq_hash = nq_hash q,
     nq_queue = map (\<lambda>i. nq_queue q ! ((nq_head q + i) mod nq_cap q)) [0..<nq_cap q] @ replicate QUEUESIZE zero_pack\<rparr>"

definition push_data :: "npqueue option \<Rightarrow> int \<Rightarrow> bytes \<Rightarrow> int \<Rightarrow> npqueue option" where
  "push_data s fd buffer sz = do {
     let q = get_queue s;
     buf \<leftarrow> store (nq_queue q) (nq_tail q) \<lparr>np_id = fd, np_size = sz, np_buffer = buffer\<rparr>;
     let t = nq_tail q + 1;
     let t = (if t \<ge> nq_cap q then t - nq_cap q else t);
     let q = q\<lparr>nq_queue := buf, nq_tail := t\<rparr>;
     Some (if nq_head q = nq_tail q then np_expand_queue q else q)
   }"

text \<open>The caller of \<open>save_uncomplete\<close> fills in the fields, which are here part of the argument.\<close>

definition save_uncomplete :: "npqueue option \<Rightarrow> uncomplete \<Rightarrow> npqueue option" where
  "save_uncomplete s uc = do {
     let q = get_queue s;
     h \<leftarrow> hash_fd (np_id (uc_pack uc));
     ucs \<leftarrow> load (nq_hash q) h;
     hs \<leftarrow> store (nq_hash q) h (uc # ucs);
     Some (q\<lparr>nq_hash := hs\<rparr>)
   }"

definition uc_first_byte :: "int \<Rightarrow> byte \<Rightarrow> uncomplete" where
  "uc_first_byte fd b = \<lparr>uc_pack = \<lparr>np_id = fd, np_size = 0, np_buffer = []\<rparr>, uc_read = -1, uc_header = uint b\<rparr>"

definition uc_partial :: "int \<Rightarrow> int \<Rightarrow> bytes \<Rightarrow> int \<Rightarrow> uncomplete" where
  "uc_partial fd sz buffer n = \<lparr>uc_pack = \<lparr>np_id = fd, np_size = sz, np_buffer = buffer\<rparr>, uc_read = n, uc_header = 0\<rparr>"

definition read_size :: "bytes \<Rightarrow> int option" where
  "read_size buffer = do {
     b0 \<leftarrow> load buffer 0;
     b1 \<leftarrow> load buffer 1;
     Some (push_bit 8 (uint b0) OR uint b1)
   }"

definition save_partial :: "npqueue option \<Rightarrow> int \<Rightarrow> int \<Rightarrow> bytes \<Rightarrow> npqueue option" where
  "save_partial s fd pack_size buffer = do {
     mem \<leftarrow> store_n (replicate (nat pack_size) 0) 0 buffer;
     save_uncomplete s (uc_partial fd pack_size mem (int (length buffer)))
   }"

function push_more :: "npqueue option \<Rightarrow> int \<Rightarrow> bytes \<Rightarrow> npqueue option" where
  "push_more s fd buffer = (
     if length buffer = 1 then do {
       b \<leftarrow> load buffer 0;
       save_uncomplete s (uc_first_byte fd b)
     }
     else do {
       pack_size \<leftarrow> read_size buffer;
       let rest = drop 2 buffer;
       if int (length rest) < pack_size then save_partial s fd pack_size rest
       else do {
         data \<leftarrow> load_n rest 0 (nat pack_size);
         q \<leftarrow> push_data s fd data pack_size;
         let rest = drop (nat pack_size) rest;
         if rest \<noteq> [] then push_more (Some q) fd rest else Some q
       }
     })"
  by pat_completeness auto
termination by (relation "measure (\<lambda>(s, fd, buffer). length buffer)") auto

definition close_uncomplete :: "npqueue option \<Rightarrow> int \<Rightarrow> npqueue option option" where
  "close_uncomplete s fd = map_option snd (find_uncomplete s fd)"

text \<open>What \<open>filter_data\<close> hands to Lua: nothing, one package, or that the queue has packages.\<close>

datatype filtered = F_None | F_Data int bytes int | F_More

text \<open>Filling an uncomplete package: the byte that completes its header, then its data.\<close>

definition fill_header :: "uncomplete \<Rightarrow> bytes \<Rightarrow> (uncomplete \<times> bytes) option" where
  "fill_header uc buffer = (
     if uc_read uc < 0 then
       if uc_read uc \<noteq> -1 then None
       else do {
         b \<leftarrow> load buffer 0;
         let pack_size = uint b OR push_bit 8 (uc_header uc);
         Some (uc\<lparr>uc_pack := (uc_pack uc)\<lparr>np_size := pack_size, np_buffer := replicate (nat pack_size) 0\<rparr>, uc_read := 0\<rparr>,
           drop 1 buffer)
       }
     else Some (uc, buffer))"

definition fill_data :: "npqueue option \<Rightarrow> int \<Rightarrow> uncomplete \<Rightarrow> bytes \<Rightarrow> (filtered \<times> npqueue option) option" where
  "fill_data s fd uc buffer = do {
     let need = np_size (uc_pack uc) - uc_read uc;
     if int (length buffer) < need then do {
       mem \<leftarrow> store_n (np_buffer (uc_pack uc)) (nat (uc_read uc)) buffer;
       q \<leftarrow> save_uncomplete s
         (uc\<lparr>uc_pack := (uc_pack uc)\<lparr>np_buffer := mem\<rparr>, uc_read := uc_read uc + int (length buffer)\<rparr>);
       Some (F_None, Some q)
     }
     else do {
       data \<leftarrow> load_n buffer 0 (nat need);
       mem \<leftarrow> store_n (np_buffer (uc_pack uc)) (nat (uc_read uc)) data;
       let rest = drop (nat need) buffer;
       if rest = [] then Some (F_Data fd mem (np_size (uc_pack uc)), s)
       else do {
         q \<leftarrow> push_data s fd mem (np_size (uc_pack uc));
         q \<leftarrow> push_more (Some q) fd rest;
         Some (F_More, Some q)
       }
     }
   }"

definition filter_data :: "npqueue option \<Rightarrow> int \<Rightarrow> bytes \<Rightarrow> (filtered \<times> npqueue option) option" where
  "filter_data s fd buffer = do {
     (uc, s) \<leftarrow> find_uncomplete s fd;
     case uc of
       Some uc \<Rightarrow> do {
         (uc, buffer) \<leftarrow> fill_header uc buffer;
         fill_data s fd uc buffer
       }
     | None \<Rightarrow>
         if length buffer = 1 then do {
           b \<leftarrow> load buffer 0;
           q \<leftarrow> save_uncomplete s (uc_first_byte fd b);
           Some (F_None, Some q)
         }
         else do {
           pack_size \<leftarrow> read_size buffer;
           let rest = drop 2 buffer;
           if int (length rest) < pack_size then do {
             q \<leftarrow> save_partial s fd pack_size rest;
             Some (F_None, Some q)
           }
           else if int (length rest) = pack_size then Some (F_Data fd rest (int (length rest)), s)
           else do {
             data \<leftarrow> load_n rest 0 (nat pack_size);
             q \<leftarrow> push_data s fd data pack_size;
             q \<leftarrow> push_more (Some q) fd (drop (nat pack_size) rest);
             Some (F_More, Some q)
           }
         }
   }"

text \<open>
  \<open>lfilter\<close> on a socket message; the buffer of a message without data is the string after it. A
  string of length -1, which Lua refuses, is \<open>None\<close>.
\<close>

datatype fengnet_socket_type = ST_Data | ST_Connect | ST_Close | ST_Accept | ST_Error | ST_Udp | ST_Warning

record fengnet_socket_message =
  sm_type :: fengnet_socket_type
  sm_id :: int
  sm_ud :: int
  sm_buffer :: "bytes option"
  sm_string :: bytes

datatype filter_result = R_Filtered filtered | R_Init int bytes int | R_Close int | R_Open int bytes
  | R_Error int bytes | R_Warning int int | R_Nothing

definition padding :: "fengnet_socket_message \<Rightarrow> bytes option" where
  "padding m = (case sm_buffer m of None \<Rightarrow> Some (sm_string m) | Some _ \<Rightarrow> None)"

definition lfilter :: "npqueue option \<Rightarrow> fengnet_socket_message \<Rightarrow> (filter_result \<times> npqueue option) option" where
  "lfilter s m = (case sm_type m of
     ST_Data \<Rightarrow> (case sm_buffer m of
         None \<Rightarrow> None
       | Some buffer \<Rightarrow> do {
           data \<leftarrow> load_n buffer 0 (nat (sm_ud m));
           (r, s) \<leftarrow> filter_data s (sm_id m) data;
           Some (R_Filtered r, s)
         })
   | ST_Connect \<Rightarrow> do { str \<leftarrow> padding m; Some (R_Init (sm_id m) str (sm_ud m), s) }
   | ST_Close \<Rightarrow> do { s \<leftarrow> close_uncomplete s (sm_id m); Some (R_Close (sm_id m), s) }
   | ST_Accept \<Rightarrow> do { str \<leftarrow> padding m; Some (R_Open (sm_ud m) str, s) }
   | ST_Error \<Rightarrow> do { s \<leftarrow> close_uncomplete s (sm_id m); str \<leftarrow> padding m; Some (R_Error (sm_id m) str, s) }
   | ST_Warning \<Rightarrow> Some (R_Warning (sm_id m) (sm_ud m), s)
   | ST_Udp \<Rightarrow> Some (R_Nothing, s))"

definition lpop :: "npqueue option \<Rightarrow> (netpack option \<times> npqueue option) option" where
  "lpop s = (case s of
     None \<Rightarrow> Some (None, None)
   | Some q \<Rightarrow>
       if nq_head q = nq_tail q then Some (None, Some q)
       else do {
         np \<leftarrow> load (nq_queue q) (nq_head q);
         Some (Some np, Some (q\<lparr>nq_head := (if nq_head q + 1 \<ge> nq_cap q then 0 else nq_head q + 1)\<rparr>))
       })"

definition write_size :: "int \<Rightarrow> bytes" where
  "write_size len = [word_of_int ((len div 2 ^ 8) AND 0xff), word_of_int (len AND 0xff)]"

text \<open>\<open>None\<close> is the Lua error for data of 64 KB or more.\<close>

definition lpack :: "bytes \<Rightarrow> bytes option" where
  "lpack data = (if length data \<ge> 0x10000 then None else Some (write_size (int (length data)) @ data))"

definition ltostring :: "bytes option \<Rightarrow> nat \<Rightarrow> bytes option" where
  "ltostring p sz = (case p of None \<Rightarrow> Some [] | Some data \<Rightarrow> load_n data 0 sz)"

section \<open>The specification\<close>

text \<open>The complete packages at the front of a stream, and the rest of it.\<close>

definition pack_len :: "bytes \<Rightarrow> nat" where
  "pack_len s = unat (s ! 0) * 256 + unat (s ! 1)"

function frames :: "bytes \<Rightarrow> bytes list \<times> bytes" where
  "frames s = (
     if length s < 2 \<or> length s < 2 + pack_len s then ([], s)
     else let (fs, r) = frames (drop (2 + pack_len s) s) in (take (pack_len s) (drop 2 s) # fs, r))"
  by pat_completeness auto
termination by (relation "measure length") auto

declare frames.simps [simp del] push_more.simps [simp del]

lemma frames_partial: "length s < 2 \<or> length s < 2 + pack_len s \<Longrightarrow> frames s = ([], s)"
  by (subst frames.simps) simp

lemma frames_complete:
  assumes "length s = 2 + pack_len s"
  shows "frames (s @ t) = (drop 2 s # fst (frames t), snd (frames t))"
proof -
  have l: "pack_len (s @ t) = pack_len s" using assms by (auto simp: pack_len_def nth_append)
  show ?thesis using assms by (subst frames.simps) (auto simp: l split: prod.splits)
qed

lemma word_or_sum: "push_bit 8 (uint (a :: byte)) OR uint (b :: byte) = uint a * 256 + uint b"
proof -
  have "push_bit 8 (uint a) AND uint b = 0"
    by (rule bit_eqI) (auto simp: bit_simps bit_uint_iff dest: bit_imp_le_length)
  from disjunctive_add_eq_or [OF this] show ?thesis by (simp add: push_bit_eq_mult)
qed


lemma read_size_ok: "2 \<le> length s \<Longrightarrow> read_size s = Some (int (pack_len s))"
proof -
  assume "2 \<le> length s"
  then have "load s 0 = Some (s ! 0)" "load s 1 = Some (s ! 1)" by (auto simp: load_def)
  then show ?thesis by (simp add: read_size_def word_or_sum pack_len_def)
qed

section \<open>Invariant and abstraction\<close>

definition uc_ok :: "uncomplete \<Rightarrow> bool" where
  "uc_ok uc \<longleftrightarrow> (uc_read uc = -1 \<and> (\<exists>b :: byte. uc_header uc = uint b)) \<or>
     (0 \<le> uc_read uc \<and> uc_read uc < np_size (uc_pack uc) \<and> np_size (uc_pack uc) < 0x10000 \<and>
      int (length (np_buffer (uc_pack uc))) = np_size (uc_pack uc))"

text \<open>The bytes of the stream an uncomplete package stands for.\<close>

definition uc_bytes :: "uncomplete \<Rightarrow> bytes" where
  "uc_bytes uc = (if uc_read uc = -1 then [word_of_int (uc_header uc)]
     else write_size (np_size (uc_pack uc)) @ take (nat (uc_read uc)) (np_buffer (uc_pack uc)))"

abbreviation uc_id :: "uncomplete \<Rightarrow> int" where "uc_id uc \<equiv> np_id (uc_pack uc)"

definition chain_ok :: "nat \<Rightarrow> uncomplete list \<Rightarrow> bool" where
  "chain_ok h ucs \<longleftrightarrow> distinct (map uc_id ucs) \<and> (\<forall>uc\<in>set ucs. uc_ok uc \<and> hash_fd (uc_id uc) = Some h)"

definition np_ok :: "npqueue \<Rightarrow> bool" where
  "np_ok q \<longleftrightarrow> length (nq_queue q) = nq_cap q \<and> nq_head q < nq_cap q \<and> nq_tail q < nq_cap q \<and>
     length (nq_hash q) = HASHSIZE \<and> (\<forall>h<HASHSIZE. chain_ok h (nq_hash q ! h))"

definition queue_inv :: "npqueue option \<Rightarrow> bool" where
  "queue_inv s \<longleftrightarrow> np_ok (get_queue s)"

definition queued :: "npqueue option \<Rightarrow> netpack list" where
  "queued s = (let q = get_queue s in ring_list (nq_queue q) (nq_head q) (ring_len (nq_head q) (nq_tail q) (nq_cap q)))"

definition lookup_uc :: "npqueue option \<Rightarrow> int \<Rightarrow> uncomplete option" where
  "lookup_uc s fd = (case hash_fd fd of
     None \<Rightarrow> None | Some h \<Rightarrow> find (\<lambda>uc. uc_id uc = fd) (nq_hash (get_queue s) ! h))"

definition waiting :: "npqueue option \<Rightarrow> int \<Rightarrow> bytes" where
  "waiting s fd = (case lookup_uc s fd of None \<Rightarrow> [] | Some uc \<Rightarrow> uc_bytes uc)"

lemma get_queue_Some [simp]: "get_queue (Some q) = q"
  by (simp add: get_queue_def)

lemma queue_inv_Some [simp]: "queue_inv (Some q) = np_ok q"
  by (simp add: queue_inv_def)

lemma queue_inv_init: "queue_inv None" "queued None = []" "lookup_uc None fd = None" "waiting None fd = []"
proof -
  have [simp]: "h < HASHSIZE" if "hash_fd fd = Some h" for h fd
    using that by (auto simp: hash_fd_def HASHSIZE_def c_int_def Let_def split: Option.bind_splits if_splits)
  show "queue_inv None" "queued None = []"
    by (simp_all add: queue_inv_def np_ok_def get_queue_def QUEUESIZE_def chain_ok_def queued_def ring_len_def Let_def)
  show l: "lookup_uc None fd = None" by (simp add: lookup_uc_def get_queue_def split: option.splits)
  show "waiting None fd = []" by (simp add: waiting_def l)
qed

lemma hash_fd_less: "hash_fd fd = Some h \<Longrightarrow> h < HASHSIZE"
  by (auto simp: hash_fd_def HASHSIZE_def c_int_def Let_def split: Option.bind_splits if_splits)

lemma take_uc_find:
  "take_uc fd ucs = (case find (\<lambda>uc. uc_id uc = fd) ucs of None \<Rightarrow> None
     | Some uc \<Rightarrow> Some (uc, remove1 uc ucs))"
proof (induction ucs)
  case (Cons a ucs)
  have "uc \<noteq> a" if "find (\<lambda>uc. uc_id uc = fd) ucs = Some uc" "uc_id a \<noteq> fd" for uc
    using that find_Some_iff [of "\<lambda>uc. uc_id uc = fd" ucs uc] by auto
  then show ?case using Cons by (auto split: option.splits)
qed simp

text \<open>Changing one chain of the hash table.\<close>

abbreviation set_chain :: "npqueue \<Rightarrow> nat \<Rightarrow> uncomplete list \<Rightarrow> npqueue" where
  "set_chain q h ucs \<equiv> q\<lparr>nq_hash := (nq_hash q)[h := ucs]\<rparr>"

lemma set_chain_ok: "np_ok q \<Longrightarrow> chain_ok h ucs \<Longrightarrow> np_ok (set_chain q h ucs)"
  by (cases "h < HASHSIZE") (auto simp: np_ok_def nth_list_update)

lemma queued_set_chain [simp]: "queued (Some (set_chain q h ucs)) = queued (Some q)"
  by (simp add: queued_def)

lemma lookup_set_chain:
  assumes "np_ok q" "hash_fd fd = Some h"
  shows "lookup_uc (Some (set_chain q h' ucs)) fd =
    (if h' = h then find (\<lambda>uc. uc_id uc = fd) ucs else lookup_uc (Some q) fd)"
  using assms hash_fd_less [OF assms(2)] by (simp add: lookup_uc_def np_ok_def)

lemma find_uncomplete_ok:
  assumes inv: "queue_inv s" and h: "hash_fd fd = Some h"
  shows "\<exists>s'. find_uncomplete s fd = Some (lookup_uc s fd, s') \<and> queue_inv s' \<and> queued s' = queued s \<and>
    lookup_uc s' fd = None \<and> (\<forall>fd'. fd' \<noteq> fd \<longrightarrow> lookup_uc s' fd' = lookup_uc s fd')"
proof (cases s)
  case None
  then show ?thesis using inv by (intro exI [of _ None]) (simp add: find_uncomplete_def queue_inv_init)
next
  case (Some q)
  have q: "np_ok q" using inv Some by simp
  let ?ucs = "nq_hash q ! h"
  have ch: "chain_ok h ?ucs" "h < length (nq_hash q)" using q hash_fd_less [OF h] by (auto simp: np_ok_def)
  have lk: "lookup_uc s fd = find (\<lambda>uc. uc_id uc = fd) ?ucs" using h Some by (simp add: lookup_uc_def)
  show ?thesis
  proof (cases "lookup_uc s fd")
    case n: None
    then have "find_uncomplete s fd = Some (None, s)"
      using Some h ch lk by (simp add: find_uncomplete_def mem_simps take_uc_find)
    then show ?thesis using inv n by auto
  next
    case sm: (Some uc)
    let ?q = "set_chain q h (remove1 uc ?ucs)"
    have uc: "uc \<in> set ?ucs" "uc_id uc = fd" using sm lk by (auto simp: find_Some_iff)
    have "find_uncomplete s fd = Some (Some uc, Some ?q)"
      using Some h ch lk sm by (simp add: find_uncomplete_def mem_simps take_uc_find)
    moreover have d: "distinct (map uc_id ?ucs)" using ch by (simp add: chain_ok_def)
    then have "chain_ok h (remove1 uc ?ucs)"
      using ch by (auto simp: chain_ok_def distinct_map inj_on_def dest: notin_set_remove1 intro: distinct_remove1) 
    then have "np_ok ?q" by (rule set_chain_ok [OF q])
    moreover have "lookup_uc (Some ?q) fd = None"
      using lookup_set_chain [OF q h] d uc by (auto simp: find_None_iff distinct_map inj_on_def)
    moreover have "lookup_uc (Some ?q) fd' = lookup_uc s fd'" if "fd' \<noteq> fd" for fd'
    proof -
      have "find (\<lambda>u. uc_id u = fd') (remove1 uc us) = find (\<lambda>u. uc_id u = fd') us" for us
        using that uc(2) by (induction us) auto
      then show ?thesis using Some h lookup_set_chain [OF q, of fd'] by (cases "hash_fd fd'") (auto simp: lookup_uc_def)
    qed
    ultimately show ?thesis using sm Some by (intro exI [of _ "Some ?q"]) simp
  qed
qed


text \<open>The relation between the states before and after data of \<open>fd\<close>: what is queued, and what waits.\<close>

definition pack_of :: "int \<Rightarrow> bytes \<Rightarrow> netpack" where
  "pack_of fd data = \<lparr>np_id = fd, np_size = int (length data), np_buffer = data\<rparr>"

definition queues :: "int \<Rightarrow> npqueue option \<Rightarrow> npqueue option \<Rightarrow> bytes list \<Rightarrow> bytes \<Rightarrow> bool" where
  "queues fd s s' ps r \<longleftrightarrow> queue_inv s' \<and> queued s' = queued s @ map (pack_of fd) ps \<and> waiting s' fd = r \<and>
     (\<forall>fd'. fd' \<noteq> fd \<longrightarrow> lookup_uc s' fd' = lookup_uc s fd')"

lemma lookup_uc_cong: "nq_hash (get_queue s) = nq_hash (get_queue s') \<Longrightarrow> lookup_uc s = lookup_uc s'"
  by (rule ext) (simp add: lookup_uc_def split: option.splits)

lemma waiting_cong: "lookup_uc s fd = lookup_uc s' fd \<Longrightarrow> waiting s fd = waiting s' fd"
  by (simp add: waiting_def)

lemma get_queue_abs [simp]:
  "queued (Some (get_queue s)) = queued s" "lookup_uc (Some (get_queue s)) = lookup_uc s"
  by (simp add: queued_def) (rule lookup_uc_cong, simp)

lemma save_uncomplete_ok:
  assumes inv: "queue_inv s" and h: "hash_fd fd = Some h" and uc: "uc_ok uc" "uc_id uc = fd"
    and none: "lookup_uc s fd = None"
  shows "\<exists>q. save_uncomplete s uc = Some q \<and> queues fd s (Some q) [] (uc_bytes uc)"
proof -
  let ?q = "get_queue s" let ?ucs = "nq_hash ?q ! h"
  let ?q' = "set_chain ?q h (uc # ?ucs)"
  have q: "np_ok ?q" using inv by (simp add: queue_inv_def)
  have ch: "chain_ok h ?ucs" "h < length (nq_hash ?q)" using q hash_fd_less [OF h] by (auto simp: np_ok_def)
  have run: "save_uncomplete s uc = Some ?q'"
    using uc h ch by (simp add: save_uncomplete_def mem_simps Let_def)
  have "fd \<notin> set (map uc_id ?ucs)" using none h by (auto simp: lookup_uc_def find_None_iff)
  then have "np_ok ?q'" using ch uc h by (intro set_chain_ok q) (auto simp: chain_ok_def)
  moreover have "lookup_uc (Some ?q') fd = Some uc" using lookup_set_chain [OF q h] uc by simp
  moreover have "lookup_uc (Some ?q') fd' = lookup_uc s fd'" if "fd' \<noteq> fd" for fd'
    using lookup_set_chain [OF q, of fd'] that uc(2) by (cases "hash_fd fd'") (auto simp: lookup_uc_def)
  ultimately show ?thesis using run by (auto simp: queues_def waiting_def)
qed

lemma push_data_ok:
  assumes "queue_inv s"
  shows "\<exists>q. push_data s (np_id p) (np_buffer p) (np_size p) = Some q \<and> np_ok q \<and>
    queued (Some q) = queued s @ [p] \<and> lookup_uc (Some q) = lookup_uc s"
proof -
  define q where "q = get_queue s"
  let ?cap = "nq_cap q" and ?h = "nq_head q" and ?t = "nq_tail q"
  let ?buf = "(nq_queue q)[?t := p]" and ?t' = "Suc ?t mod nq_cap q"
  let ?q' = "q\<lparr>nq_queue := ?buf, nq_tail := ?t'\<rparr>"
  let ?n = "ring_len ?h ?t ?cap"
  have ok: "np_ok q" using assms by (simp add: q_def queue_inv_def)
  then have b: "length (nq_queue q) = ?cap" "?h < ?cap" "?t < ?cap" by (auto simp: np_ok_def)
  have n: "?n < ?cap" "(?h + ?n) mod ?cap = ?t" using b by (auto simp: ring_len_less ring_tail)
  have eta: "\<lparr>np_id = np_id p, np_size = np_size p, np_buffer = np_buffer p\<rparr> = p" by simp
  have run: "push_data s (np_id p) (np_buffer p) (np_size p) = Some (if ?h = ?t' then np_expand_queue ?q' else ?q')"
  proof (cases "Suc ?t < ?cap")
    case True
    then show ?thesis using b by (simp add: push_data_def q_def [symmetric] mem_simps Let_def eta)
  next
    case False
    then have "Suc ?t = ?cap" using b by simp
    then show ?thesis using b by (simp add: push_data_def q_def [symmetric] mem_simps Let_def eta)
  qed
  have push: "ring_list ?buf ?h (Suc ?n) = queued s @ [p]"
    using ring_list_push [of ?h "nq_queue q" ?n p] b n by (simp add: queued_def q_def [symmetric] Let_def)
  have lk: "lookup_uc (Some q'') = lookup_uc s" if "nq_hash q'' = nq_hash q" for q''
    by (rule lookup_uc_cong) (simp add: that q_def)
  show ?thesis
  proof (cases "?h = ?t'")
    case True
    have full: "Suc ?n = ?cap" using ring_len_full b True by blast
    have l: "map (\<lambda>i. ?buf ! ((?h + i) mod ?cap)) [0..<?cap] = queued s @ [p]"
      using push b by (simp add: ring_list_def full)
    have len: "length (queued s @ [p]) = ?cap" using push full by (metis length_ring_list)
    have q': "np_expand_queue ?q' = \<lparr>nq_cap = ?cap + QUEUESIZE, nq_head = 0, nq_tail = ?cap, nq_hash = nq_hash q,
        nq_queue = (queued s @ [p]) @ replicate QUEUESIZE zero_pack\<rparr>"
      using l by (simp add: np_expand_queue_def)
    have "queued (Some (np_expand_queue ?q')) = queued s @ [p]"
      using ring_list_straight [of "queued s @ [p]" "replicate QUEUESIZE zero_pack"] len
      by (simp add: queued_def q' ring_len_def)
    moreover have "np_ok (np_expand_queue ?q')" using ok len b by (simp add: np_ok_def q' QUEUESIZE_def)
    moreover have "lookup_uc (Some (np_expand_queue ?q')) = lookup_uc s" by (rule lk) (simp add: q')
    ultimately show ?thesis using run True by simp
  next
    case False
    have "queued (Some ?q') = queued s @ [p]"
      using push b False by (simp add: queued_def ring_len_push)
    moreover have "np_ok ?q'" using ok b by (auto simp: np_ok_def)
    moreover have "lookup_uc (Some ?q') = lookup_uc s" by (rule lk) simp
    ultimately show ?thesis using run False by simp
  qed
qed

lemma write_size_word: "write_size (uint (a :: byte) * 256 + uint (b :: byte)) = [a, b]"
proof -
  have r: "0 \<le> uint a" "uint a < 256" "0 \<le> uint b" "uint b < 256"
    using uint_ge_0 uint_lt2p [of a] uint_lt2p [of b] by auto
  have m: "x AND 255 = x mod 256" for x :: int using take_bit_eq_mask [of 8 x] by (simp add: take_bit_eq_mod mask_eq_exp_minus_1)
  show ?thesis using r by (simp add: write_size_def m)
qed

lemma write_size_ok: "n < 0x10000 \<Longrightarrow> length (write_size (int n)) = 2 \<and> pack_len (write_size (int n) @ t) = n"
proof -
  assume n: "n < 0x10000"
  define a b :: byte where "a = of_nat (n div 256)" and "b = of_nat (n mod 256)"
  have u: "unat a = n div 256" "unat b = n mod 256" using n by (auto simp: a_def b_def unat_of_nat)
  have "int n = uint a * 256 + uint b" using u by (simp add: uint_nat of_nat_div of_nat_mod)
  then have "write_size (int n) = [a, b]" using write_size_word by simp
  then show ?thesis using u by (simp add: pack_len_def)
qed

lemma write_size_pack_len: "2 \<le> length s \<Longrightarrow> write_size (int (pack_len s)) @ drop 2 s = s"
proof -
  assume "2 \<le> length s"
  then obtain a b t where s: "s = a # b # t" by (metis Suc_le_length_iff numeral_2_eq_2)
  show ?thesis using write_size_word [of a b] by (simp add: s pack_len_def)
qed

lemma pack_len_less: "pack_len s < 0x10000"
  using unsigned_less [of "s ! 0", where ?'a = nat] unsigned_less [of "s ! 1", where ?'a = nat] by (simp add: pack_len_def)


section \<open>Cutting a stream into packages\<close>

lemma frames_append:
  "frames (s @ t) = (fst (frames s) @ fst (frames (snd (frames s) @ t)), snd (frames (snd (frames s) @ t)))"
proof (induction s rule: frames.induct)
  case (1 s)
  show ?case
  proof (cases "length s < 2 \<or> length s < 2 + pack_len s")
    case True
    then show ?thesis by (simp add: frames_partial)
  next
    case False
    let ?p = "take (2 + pack_len s) s" and ?r = "drop (2 + pack_len s) s"
    have l: "length ?p = 2 + pack_len ?p" using False by (simp add: pack_len_def)
    have s: "frames (s @ u) = (drop 2 ?p # fst (frames (?r @ u)), snd (frames (?r @ u)))" for u
      using frames_complete [OF l, of "?r @ u"] by (simp add: append_assoc [symmetric] del: append_assoc)
    show ?thesis using 1 [OF False] s [of t] s [of "[]"] by simp
  qed
qed

lemma frames_waiting: "uc_ok uc \<Longrightarrow> frames (uc_bytes uc) = ([], uc_bytes uc)"
proof -
  assume ok: "uc_ok uc"
  show ?thesis
  proof (cases "uc_read uc = -1")
    case True
    then show ?thesis by (simp add: uc_bytes_def frames_partial)
  next
    case False
    obtain n where "np_size (uc_pack uc) = int n" "n < 0x10000" "nat (uc_read uc) < n"
      using ok False by (auto simp: uc_ok_def intro: that [of "nat (np_size (uc_pack uc))"])
    then show ?thesis using ok False write_size_ok [of n]
      by (auto simp: uc_bytes_def uc_ok_def intro!: frames_partial)
  qed
qed

lemma frames_pack:
  "length m < 0x10000 \<Longrightarrow> frames (write_size (int (length m)) @ m @ t) = (m # fst (frames t), snd (frames t))"
  using frames_complete [of "write_size (int (length m)) @ m" t] write_size_ok [of "length m" m] by simp

section \<open>The queue and the filter\<close>

lemma save_first_byte_ok:
  assumes "queue_inv s" "hash_fd fd = Some h" "lookup_uc s fd = None"
  shows "\<exists>q. save_uncomplete s (uc_first_byte fd b) = Some q \<and> queues fd s (Some q) [] [b]"
  using save_uncomplete_ok [OF assms(1,2) _ _ assms(3), of "uc_first_byte fd b"]
  by (auto simp: uc_first_byte_def uc_ok_def uc_bytes_def)

lemma save_partial_ok:
  assumes "queue_inv s" "hash_fd fd = Some h" "lookup_uc s fd = None"
    and buf: "2 \<le> length buf" "length buf < 2 + pack_len buf"
  shows "\<exists>q. save_partial s fd (int (pack_len buf)) (drop 2 buf) = Some q \<and> queues fd s (Some q) [] buf"
proof -
  let ?mem = "drop 2 buf @ replicate (pack_len buf - length (drop 2 buf)) 0"
  let ?uc = "uc_partial fd (int (pack_len buf)) ?mem (int (length (drop 2 buf)))"
  have l: "length (drop 2 buf) < pack_len buf" using buf by simp
  then have st: "store_n (replicate (pack_len buf) 0) 0 (drop 2 buf) = Some ?mem"
    by (simp add: mem_simps)
  have "uc_ok ?uc" using l pack_len_less [of buf] by (simp add: uc_ok_def uc_partial_def)
  moreover have "uc_bytes ?uc = buf"
    using write_size_pack_len [OF buf(1)] by (simp add: uc_bytes_def uc_partial_def)
  ultimately show ?thesis using save_uncomplete_ok [OF assms(1,2) _ _ assms(3), of ?uc]
    by (simp add: save_partial_def st uc_partial_def del: length_drop)
qed

lemma queues_after_push:
  assumes "queued s1 = queued s @ map (pack_of fd) ps" "lookup_uc s1 = lookup_uc s" "queues fd s1 s2 ps' r"
  shows "queues fd s s2 (ps @ ps') r"
  using assms by (simp add: queues_def)

lemma push_more_ok:
  "queue_inv s \<Longrightarrow> hash_fd fd = Some h \<Longrightarrow> lookup_uc s fd = None \<Longrightarrow> buf \<noteq> [] \<Longrightarrow>
   \<exists>q. push_more s fd buf = Some q \<and> queues fd s (Some q) (fst (frames buf)) (snd (frames buf))"
proof (induction buf arbitrary: s rule: frames.induct)
  case (1 buf)
  consider "length buf = 1" | "2 \<le> length buf" "length buf < 2 + pack_len buf" | "2 + pack_len buf \<le> length buf"
    using 1(5) by (metis One_nat_def Suc_1 Suc_leI le_neq_implies_less length_greater_0_conv not_le)
  then show ?case
  proof cases
    case 1
    then obtain b where "buf = [b]" by (auto simp: length_Suc_conv)
    then show ?thesis using save_first_byte_ok [OF "1.prems"(1-3)]
      by (subst push_more.simps) (simp add: load_def frames_partial)
  next
    case 2
    then show ?thesis using save_partial_ok [OF "1.prems"(1-3) 2]
      by (subst push_more.simps) (auto simp: read_size_ok frames_partial Let_def)
  next
    case 3
    let ?d = "take (pack_len buf) (drop 2 buf)" and ?r = "drop (2 + pack_len buf) buf"
    have len: "length ?d = pack_len buf" using 3 by simp
    obtain q where q: "push_data s fd ?d (int (pack_len buf)) = Some q" "np_ok q"
      "queued (Some q) = queued s @ [pack_of fd ?d]" "lookup_uc (Some q) = lookup_uc s"
      using push_data_ok [OF "1.prems"(1), of "pack_of fd ?d"] len by (auto simp: pack_of_def)
    have step: "push_more s fd buf = (if ?r \<noteq> [] then push_more (Some q) fd ?r else Some q)"
      using 3 q(1) by (subst push_more.simps) (simp add: read_size_ok load_n_Some Let_def add.commute)
    have fr: "frames buf = (?d # fst (frames ?r), snd (frames ?r))"
      using 3 by (subst frames.simps) (simp split: prod.splits)
    show ?thesis
    proof (cases "?r = []")
      case True
      then show ?thesis using step fr q "1.prems"
        by (auto simp: queues_def frames_partial waiting_def)
    next
      case False
      have "\<exists>q'. push_more (Some q) fd ?r = Some q' \<and> queues fd (Some q) (Some q') (fst (frames ?r)) (snd (frames ?r))"
        using 3 False q "1.prems" by (intro "1.IH") auto
      then show ?thesis using step fr False q queues_after_push [of "Some q" s fd "[?d]"] by auto
    qed
  qed
qed


text \<open>What the filter answers when the packages \<open>fs\<close> are complete and \<open>r\<close> is left.\<close>

definition answer :: "int \<Rightarrow> bytes list \<Rightarrow> bytes \<Rightarrow> filtered" where
  "answer fd fs r = (if fs = [] then F_None
     else if tl fs = [] \<and> r = [] then F_Data fd (hd fs) (int (length (hd fs))) else F_More)"

definition filters :: "int \<Rightarrow> npqueue option \<Rightarrow> bytes \<Rightarrow> (filtered \<times> npqueue option) option \<Rightarrow> bool" where
  "filters fd s stream res \<longleftrightarrow> (\<exists>s'. let (fs, r) = frames stream in
     res = Some (answer fd fs r, s') \<and> queues fd s s' (if answer fd fs r = F_More then fs else []) r)"

lemma filters_none:
  "frames stream = ([], stream) \<Longrightarrow> queues fd s (Some q) [] stream \<Longrightarrow> filters fd s stream (Some (F_None, Some q))"
  by (auto simp: filters_def answer_def)

lemma filters_one:
  "frames stream = ([m], []) \<Longrightarrow> queue_inv s \<Longrightarrow> lookup_uc s fd = None \<Longrightarrow>
   filters fd s stream (Some (F_Data fd m (int (length m)), s))"
  by (simp add: filters_def answer_def queues_def waiting_def)

lemma filters_more:
  assumes inv: "queue_inv s" "hash_fd fd = Some h" "lookup_uc s fd = None"
    and fr: "frames stream = (m # fst (frames rest), snd (frames rest))" and ne: "rest \<noteq> []"
  shows "filters fd s stream (do {
     q \<leftarrow> push_data s fd m (int (length m));
     q \<leftarrow> push_more (Some q) fd rest;
     Some (F_More, Some q) })"
proof -
  obtain q where q: "push_data s fd m (int (length m)) = Some q" "np_ok q"
    "queued (Some q) = queued s @ [pack_of fd m]" "lookup_uc (Some q) = lookup_uc s"
    using push_data_ok [OF inv(1), of "pack_of fd m"] by (auto simp: pack_of_def)
  obtain q' where q': "push_more (Some q) fd rest = Some q'"
    "queues fd (Some q) (Some q') (fst (frames rest)) (snd (frames rest))"
    using push_more_ok [of "Some q" fd h rest] q inv ne by auto
  have "fst (frames rest) \<noteq> [] \<or> snd (frames rest) \<noteq> []"
    using ne by (subst (1 2) frames.simps) (auto split: prod.splits)
  then have "answer fd (m # fst (frames rest)) (snd (frames rest)) = F_More" by (auto simp: answer_def)
  then show ?thesis
    using q q' fr queues_after_push [of "Some q" s fd "[m]"] by (auto simp: filters_def)
qed

text \<open>A package being filled: its header is known, \<open>read\<close> bytes of its data are there.\<close>

definition filling :: "uncomplete \<Rightarrow> bool" where
  "filling uc \<longleftrightarrow> 0 \<le> uc_read uc \<and> uc_read uc \<le> np_size (uc_pack uc) \<and> np_size (uc_pack uc) < 0x10000 \<and>
     int (length (np_buffer (uc_pack uc))) = np_size (uc_pack uc)"

lemma fill_header_ok:
  assumes "uc_ok uc" "c \<noteq> []"
  shows "\<exists>uc' c'. fill_header uc c = Some (uc', c') \<and> filling uc' \<and> uc_id uc' = uc_id uc \<and>
    uc_bytes uc' @ c' = uc_bytes uc @ c"
proof (cases "uc_read uc = -1")
  case True
  then obtain a :: byte where a: "uc_header uc = uint a" using assms(1) by (auto simp: uc_ok_def)
  obtain b c' where c: "c = b # c'" using assms(2) by (cases c) auto
  have n: "uint b OR push_bit 8 (uint a) = uint a * 256 + uint b" using word_or_sum [of a b] by (simp add: or.commute)
  have "uint a < 256" "uint b < 256" using uint_lt2p [of a] uint_lt2p [of b] by auto
  then have "0 \<le> uint a * 256 + uint b" "uint a * 256 + uint b < 0x10000" by auto
  moreover define uc' where "uc' = uc\<lparr>uc_pack := (uc_pack uc)\<lparr>np_size := uint a * 256 + uint b,
    np_buffer := replicate (nat (uint a * 256 + uint b)) 0\<rparr>, uc_read := 0\<rparr>"
  moreover have "fill_header uc c = Some (uc', c')"
    using True a by (simp add: fill_header_def c load_def n uc'_def Let_def)
  ultimately show ?thesis using True a
    by (intro exI [of _ uc'] exI [of _ c']) (simp add: c filling_def uc_bytes_def write_size_word)
next
  case False
  then show ?thesis using assms by (auto simp: fill_header_def uc_ok_def filling_def)
qed

lemma fill_data_ok:
  assumes inv: "queue_inv s" "hash_fd fd = Some h" "lookup_uc s fd = None" and uc: "filling uc" "uc_id uc = fd"
  shows "filters fd s (uc_bytes uc @ c) (fill_data s fd uc c)"
proof -
  let ?buf = "np_buffer (uc_pack uc)"
  define n k where "n = nat (np_size (uc_pack uc))" and "k = nat (uc_read uc)"
  have nk: "np_size (uc_pack uc) = int n" "uc_read uc = int k" "k \<le> n" "n < 0x10000" "length ?buf = n"
    using uc by (auto simp: filling_def n_def k_def)
  have bytes: "uc_bytes uc = write_size (int n) @ take k ?buf" using nk by (simp add: uc_bytes_def)
  show ?thesis
  proof (cases "length c < n - k")
    case True
    let ?mem = "take k ?buf @ c @ drop (k + length c) ?buf"
    let ?uc = "uc\<lparr>uc_pack := (uc_pack uc)\<lparr>np_buffer := ?mem\<rparr>, uc_read := int k + int (length c)\<rparr>"
    have st: "store_n ?buf k c = Some ?mem" using True nk by (simp add: mem_simps)
    have ok: "uc_ok ?uc" using True nk by (simp add: uc_ok_def)
    have b: "uc_bytes ?uc = uc_bytes uc @ c" using nk True by (simp add: uc_bytes_def nat_int_add)
    obtain q where q: "save_uncomplete s ?uc = Some q" "queues fd s (Some q) [] (uc_bytes uc @ c)"
      using save_uncomplete_ok [OF inv(1,2) ok _ inv(3)] uc(2) b by auto
    have "fill_data s fd uc c = Some (F_None, Some q)"
    proof -
      have "int (length c) < int n - int k" using True nk by linarith
      then show ?thesis using nk st q(1) by (simp add: fill_data_def Let_def)
    qed
    then show ?thesis using filters_none [of "uc_bytes uc @ c"] frames_waiting [OF ok] b q(2) by simp
  next
    case False
    let ?m = "take k ?buf @ take (n - k) c" and ?r = "drop (n - k) c"
    have m: "length ?m = n" using False nk by simp
    have ld: "load_n c 0 (n - k) = Some (take (n - k) c)" "store_n ?buf k (take (n - k) c) = Some ?m"
      using False nk by (auto simp: mem_simps)
    have fr: "frames (uc_bytes uc @ c) = (?m # fst (frames ?r), snd (frames ?r))"
      using frames_pack [of ?m ?r] m nk by (simp add: bytes)
    have run: "fill_data s fd uc c = (if ?r = [] then Some (F_Data fd ?m (int (length ?m)), s)
      else do { q \<leftarrow> push_data s fd ?m (int (length ?m)); q \<leftarrow> push_more (Some q) fd ?r; Some (F_More, Some q) })"
      using False nk ld m by (simp add: fill_data_def Let_def nat_diff_distrib' flip: of_nat_diff)
    show ?thesis
    proof (cases "?r = []")
      case True
      then show ?thesis using filters_one [OF _ inv(1,3), of "uc_bytes uc @ c" ?m] fr run by (simp add: frames_partial)
    next
      case False
      then show ?thesis using filters_more [OF inv fr False] run by simp
    qed
  qed
qed

lemma filters_change:
  assumes "filters fd s1 stream res" "queued s1 = queued s" "\<forall>fd'. fd' \<noteq> fd \<longrightarrow> lookup_uc s1 fd' = lookup_uc s fd'"
  shows "filters fd s stream res"
  using assms by (auto simp: filters_def queues_def split: prod.splits)

lemma lookup_uc_ok: "queue_inv s \<Longrightarrow> lookup_uc s fd = Some uc \<Longrightarrow> uc_ok uc \<and> uc_id uc = fd"
proof -
  assume inv: "queue_inv s" and "lookup_uc s fd = Some uc"
  then obtain h where h: "hash_fd fd = Some h" "find (\<lambda>uc. uc_id uc = fd) (nq_hash (get_queue s) ! h) = Some uc"
    by (auto simp: lookup_uc_def split: option.splits)
  then have "uc \<in> set (nq_hash (get_queue s) ! h)" "uc_id uc = fd" by (auto simp: find_Some_iff)
  then show ?thesis using inv hash_fd_less [OF h(1)] by (auto simp: queue_inv_def np_ok_def chain_ok_def)
qed

lemma filter_data_ok:
  assumes inv: "queue_inv s" "hash_fd fd = Some h" and c: "c \<noteq> []"
  shows "filters fd s (waiting s fd @ c) (filter_data s fd c)"
proof -
  obtain s1 where s1: "find_uncomplete s fd = Some (lookup_uc s fd, s1)" "queue_inv s1" "queued s1 = queued s"
    "lookup_uc s1 fd = None" "\<forall>fd'. fd' \<noteq> fd \<longrightarrow> lookup_uc s1 fd' = lookup_uc s fd'"
    using find_uncomplete_ok [OF inv] by blast
  show ?thesis
  proof (cases "lookup_uc s fd")
    case (Some uc)
    obtain uc' c' where f: "fill_header uc c = Some (uc', c')" "filling uc'" "uc_id uc' = uc_id uc"
      "uc_bytes uc' @ c' = uc_bytes uc @ c"
      using fill_header_ok [of uc c] lookup_uc_ok [OF inv(1) Some] c by blast
    have "filters fd s1 (waiting s fd @ c) (filter_data s fd c)"
      using fill_data_ok [OF s1(2) inv(2) s1(4) f(2), of c'] f lookup_uc_ok [OF inv(1) Some] s1(1) Some
      by (simp add: filter_data_def waiting_def)
    then show ?thesis using s1 by (rule_tac filters_change)
  next
    case None
    have w: "waiting s fd = []" by (simp add: waiting_def None)
    consider "length c = 1" | "2 \<le> length c" "length c < 2 + pack_len c" | "2 + pack_len c \<le> length c"
      using c by (metis One_nat_def Suc_1 Suc_leI le_neq_implies_less length_greater_0_conv not_le)
    then have "filters fd s1 c (filter_data s fd c)"
    proof cases
      case 1
      then obtain b where b: "c = [b]" by (auto simp: length_Suc_conv)
      obtain q where "save_uncomplete s1 (uc_first_byte fd b) = Some q" "queues fd s1 (Some q) [] [b]"
        using save_first_byte_ok [OF s1(2) inv(2) s1(4)] by blast
      then show ?thesis using b filters_none [of "[b]"] s1(1) None
        by (simp add: filter_data_def load_def frames_partial)
    next
      case 2
      obtain q where "save_partial s1 fd (int (pack_len c)) (drop 2 c) = Some q" "queues fd s1 (Some q) [] c"
        using save_partial_ok [OF s1(2) inv(2) s1(4) 2] by blast
      then show ?thesis using filters_none [of c] s1(1) None 2
        by (auto simp: filter_data_def read_size_ok frames_partial Let_def)
    next
      case 3
      let ?m = "take (pack_len c) (drop 2 c)" and ?r = "drop (2 + pack_len c) c"
      have fr: "frames c = (?m # fst (frames ?r), snd (frames ?r))"
        using 3 by (subst frames.simps) (simp split: prod.splits)
      have run: "filter_data s fd c = (if ?r = [] then Some (F_Data fd ?m (int (length ?m)), s1)
        else do { q \<leftarrow> push_data s1 fd ?m (int (length ?m)); q \<leftarrow> push_more (Some q) fd ?r; Some (F_More, Some q) })"
        using 3 s1(1) None
        by (auto simp: filter_data_def read_size_ok load_n_Some Let_def add.commute of_nat_diff)
      show ?thesis
      proof (cases "?r = []")
        case True
        then show ?thesis using filters_one [OF _ s1(2,4), of c ?m] fr run by (simp add: frames_partial)
      next
        case False
        then show ?thesis using filters_more [OF s1(2) inv(2) s1(4) fr False] run by simp
      qed
    qed
    then show ?thesis using s1 w by (simp add: filters_change)
  qed
qed


section \<open>Receiving\<close>

text \<open>
  The Lua side (\<^verbatim>\<open>gateserver.lua\<close>) takes the package of an answer \<open>data\<close> and pops the queue until
  it is empty after an answer \<open>more\<close>. \<open>receive\<close> does so for chunks of data that arrive on
  several sockets in any interleaving.
\<close>

definition drain_step :: "npqueue option \<times> netpack list \<Rightarrow> ((npqueue option \<times> netpack list) + (npqueue option \<times> netpack list)) option" where
  "drain_step = (\<lambda>(s, ps). do {
     (p, s) \<leftarrow> lpop s;
     Some (case p of None \<Rightarrow> Inr (s, ps) | Some p \<Rightarrow> Inl (s, ps @ [p]))
   })"

definition on_data :: "int \<times> bytes \<Rightarrow> npqueue option \<times> netpack list \<Rightarrow> (npqueue option \<times> netpack list) option" where
  "on_data = (\<lambda>(fd, c) (s, ps). do {
     (r, s) \<leftarrow> lfilter s \<lparr>sm_type = ST_Data, sm_id = fd, sm_ud = int (length c), sm_buffer = Some c, sm_string = []\<rparr>;
     case r of
       R_Filtered (F_Data fd data sz) \<Rightarrow> Some (s, ps @ [\<lparr>np_id = fd, np_size = sz, np_buffer = data\<rparr>])
     | R_Filtered F_More \<Rightarrow> repeat_step drain_step (s, ps)
     | _ \<Rightarrow> Some (s, ps)
   })"

definition receive :: "(int \<times> bytes) list \<Rightarrow> npqueue option \<Rightarrow> (npqueue option \<times> netpack list) option" where
  "receive evs s = for_each on_data evs (s, [])"

definition stream_of :: "int \<Rightarrow> (int \<times> bytes) list \<Rightarrow> bytes" where
  "stream_of fd evs = concat (map snd (filter (\<lambda>(fd', c). fd' = fd) evs))"

lemma lpop_empty: "queue_inv s \<Longrightarrow> queued s = [] \<Longrightarrow> lpop s = Some (None, s)"
proof (cases s)
  case (Some q)
  assume "queue_inv s" "queued s = []"
  then have "ring_len (nq_head q) (nq_tail q) (nq_cap q) = 0" "np_ok q"
    using Some by (auto simp: queued_def Let_def ring_list_def)
  then have "nq_head q = nq_tail q" by (auto simp: np_ok_def ring_len_eq_0)
  then show ?thesis by (simp add: lpop_def Some)
qed (simp add: lpop_def)

lemma lpop_cons:
  assumes "queue_inv s" "queued s = p # ps"
  shows "\<exists>s'. lpop s = Some (Some p, s') \<and> queue_inv s' \<and> queued s' = ps \<and> lookup_uc s' = lookup_uc s"
proof (cases s)
  case None
  then show ?thesis using assms by (simp add: queue_inv_init)
next
  case (Some q)
  let ?h' = "Suc (nq_head q) mod nq_cap q"
  let ?q' = "q\<lparr>nq_head := ?h'\<rparr>"
  have ok: "np_ok q" using assms Some by simp
  then have b: "length (nq_queue q) = nq_cap q" "nq_head q < nq_cap q" "nq_tail q < nq_cap q" by (auto simp: np_ok_def)
  have ne: "nq_head q \<noteq> nq_tail q" using assms(2) Some by (auto simp: queued_def ring_len_def)
  have l: "p # ps = nq_queue q ! nq_head q # queued (Some ?q')"
    using assms(2) Some b ring_len_pop [OF b(2,3) ne] ring_list_pop [of "nq_head q" "nq_queue q"] by (simp add: queued_def)
  have "lpop s = Some (Some p, Some ?q')"
    using ne b l wrap_increment [OF b(2)] by (simp add: lpop_def Some mem_simps)
  moreover have "np_ok ?q'" using ok b by (auto simp: np_ok_def)
  moreover have "lookup_uc (Some ?q') = lookup_uc s" by (rule lookup_uc_cong) (simp add: Some)
  ultimately show ?thesis using l by auto
qed

lemma drain_ok:
  "queue_inv s \<Longrightarrow> \<exists>s'. repeat_step drain_step (s, ps) = Some (s', ps @ queued s) \<and> queue_inv s' \<and> queued s' = [] \<and>
     lookup_uc s' = lookup_uc s"
proof (induction "queued s" arbitrary: s ps)
  case Nil
  then have "drain_step (s, ps) = Some (Inr (s, ps))" by (simp add: drain_step_def lpop_empty)
  then show ?case using Nil by (simp add: repeat_step_Inr)
next
  case (Cons p rest)
  obtain s1 where s1: "lpop s = Some (Some p, s1)" "queue_inv s1" "queued s1 = rest" "lookup_uc s1 = lookup_uc s"
    using lpop_cons [of s p rest] Cons by auto
  then have "drain_step (s, ps) = Some (Inl (s1, ps @ [p]))" by (simp add: drain_step_def)
  then have step: "repeat_step drain_step (s, ps) = repeat_step drain_step (s1, ps @ [p])" by (rule repeat_step_Inl)
  have "queued s = p # queued s1" using Cons.hyps(2) s1(3) by simp
  then show ?case using Cons.hyps(1) [of s1 "ps @ [p]"] s1 by (simp add: step)
qed

lemma on_data_ok:
  assumes "queue_inv s" "queued s = []" "hash_fd fd \<noteq> None" "c \<noteq> []"
  shows "\<exists>s'. on_data (fd, c) (s, ps) = Some (s', ps @ map (pack_of fd) (fst (frames (waiting s fd @ c)))) \<and>
    queue_inv s' \<and> queued s' = [] \<and> waiting s' fd = snd (frames (waiting s fd @ c)) \<and>
    (\<forall>fd'. fd' \<noteq> fd \<longrightarrow> waiting s' fd' = waiting s fd')"
proof -
  obtain fs r where fr: "frames (waiting s fd @ c) = (fs, r)" by (metis surj_pair)
  let ?a = "answer fd fs r"
  obtain s1 where s1: "filter_data s fd c = Some (?a, s1)" "queues fd s s1 (if ?a = F_More then fs else []) r"
    using filter_data_ok [OF assms(1) _ assms(4), of fd] assms(3) by (auto simp: filters_def fr)
  have run: "lfilter s \<lparr>sm_type = ST_Data, sm_id = fd, sm_ud = int (length c), sm_buffer = Some c, sm_string = []\<rparr> =
    Some (R_Filtered ?a, s1)"
    using s1(1) by (simp add: lfilter_def load_n_def)
  have w: "waiting s1 fd = r" "\<And>fd'. fd' \<noteq> fd \<Longrightarrow> waiting s1 fd' = waiting s fd'" "queue_inv s1"
    using s1(2) by (auto simp: queues_def waiting_def)
  show ?thesis
  proof (cases ?a)
    case F_More
    obtain s2 where "repeat_step drain_step (s1, ps) = Some (s2, ps @ queued s1)" "queue_inv s2" "queued s2 = []"
      "lookup_uc s2 = lookup_uc s1"
      using drain_ok [OF w(3)] by blast
    moreover have "queued s1 = map (pack_of fd) fs" using s1(2) assms(2) F_More by (simp add: queues_def)
    ultimately show ?thesis using run F_More w waiting_cong [of s2 _ s1] by (auto simp: on_data_def fr)
  next
    case F_None
    then have "fs = []" by (auto simp: answer_def split: if_splits)
    then show ?thesis using run F_None w s1(2) assms(2) by (auto simp: on_data_def fr queues_def)
  next
    case (F_Data fd' d n)
    then have "fs = [d]" "n = int (length d)" "fd' = fd"
      by (cases fs; auto simp: answer_def split: if_splits)+
    then show ?thesis using run F_Data w s1(2) assms(2) by (auto simp: on_data_def fr queues_def pack_of_def)
  qed
qed


lemma stream_of_simps [simp]:
  "stream_of fd [] = []" "stream_of fd (evs @ [(fd', c)]) = stream_of fd evs @ (if fd' = fd then c else [])"
  by (simp_all add: stream_of_def)

lemma receive_ok:
  assumes "queue_inv s" "queued s = []"
  shows "\<forall>(fd, c)\<in>set evs. hash_fd fd \<noteq> None \<and> c \<noteq> [] \<Longrightarrow>
    \<exists>s' ps. receive evs s = Some (s', ps) \<and> queue_inv s' \<and> queued s' = [] \<and>
      (\<forall>fd. filter (\<lambda>p. np_id p = fd) ps = map (pack_of fd) (fst (frames (waiting s fd @ stream_of fd evs))) \<and>
        waiting s' fd = snd (frames (waiting s fd @ stream_of fd evs)))"
proof (induction evs rule: rev_induct)
  case Nil
  have "frames (waiting s fd) = ([], waiting s fd)" for fd
    using lookup_uc_ok [OF assms(1)] frames_waiting by (auto simp: waiting_def frames_partial split: option.splits)
  then show ?case using assms by (simp add: receive_def)
next
  case (snoc ev evs)
  obtain g c where ev: "ev = (g, c)" by force
  obtain s1 ps where s1: "receive evs s = Some (s1, ps)" "queue_inv s1" "queued s1 = []"
    "\<And>fd. filter (\<lambda>p. np_id p = fd) ps = map (pack_of fd) (fst (frames (waiting s fd @ stream_of fd evs)))"
    "\<And>fd. waiting s1 fd = snd (frames (waiting s fd @ stream_of fd evs))"
    using snoc by auto
  obtain s2 where s2: "on_data (g, c) (s1, ps) = Some (s2, ps @ map (pack_of g) (fst (frames (waiting s1 g @ c))))"
    "queue_inv s2" "queued s2 = []" "waiting s2 g = snd (frames (waiting s1 g @ c))"
    "\<And>fd. fd \<noteq> g \<Longrightarrow> waiting s2 fd = waiting s1 fd"
    using on_data_ok [OF s1(2,3), of g c ps] snoc.prems ev by auto
  have run: "receive (evs @ [ev]) s = Some (s2, ps @ map (pack_of g) (fst (frames (waiting s1 g @ c))))"
    using s1(1) s2(1) by (simp add: receive_def for_each_append ev)
  have "filter (\<lambda>p. np_id p = fd) (map (pack_of g) ms) = (if fd = g then map (pack_of g) ms else [])" for fd ms
    by (induction ms) (auto simp: pack_of_def)
  then show ?case using run s1(4,5) s2 frames_append [of "waiting s g @ stream_of g evs" c] by (auto simp: ev)
qed

lemma frames_packed: "\<forall>m\<in>set ms. length m < 0x10000 \<Longrightarrow>
  frames (concat (map (\<lambda>m. the (lpack m)) ms)) = (ms, [])"
  by (induction ms) (simp_all add: frames_partial lpack_def frames_pack)

lemma hash_fd_small: "0 \<le> fd \<Longrightarrow> fd < 2 ^ 30 \<Longrightarrow> hash_fd fd \<noteq> None"
proof -
  assume fd: "0 \<le> fd" "fd < 2 ^ 30"
  then have "0 \<le> fd div 2 ^ 24" "fd div 2 ^ 24 < 2 ^ 6" "0 \<le> fd div 2 ^ 12" "fd div 2 ^ 12 < 2 ^ 18" by auto
  then show ?thesis using fd by (simp add: hash_fd_def Let_def c_int_def)
qed

lemma hash_fd_overflow: "hash_fd (2 ^ 31 - 1) = None"
  by (simp add: hash_fd_def Let_def c_int_def)

text \<open>The ring with \<open>push_data\<close> and \<open>lpop\<close> is a queue.\<close>

interpretation npq: fifo_queue
  "\<lambda>s p. map_option Some (push_data s (np_id p) (np_buffer p) (np_size p))" lpop queued queue_inv
proof
  fix s p assume inv: "queue_inv s"
  show "\<exists>s'. map_option Some (push_data s (np_id p) (np_buffer p) (np_size p)) = Some s' \<and> queue_inv s' \<and>
      queued s' = queued s @ [p]"
    using push_data_ok [OF inv, of p] by auto
  show "\<exists>s'. lpop s = Some (None, s') \<and> queue_inv s' \<and> queued s' = []" if "queued s = []"
    using lpop_empty [OF inv that] inv that by auto
  show "\<exists>s'. lpop s = Some (Some x, s') \<and> queue_inv s' \<and> queued s' = xs" if "queued s = x # xs" for x xs
    using lpop_cons [OF inv that] by auto
qed

section \<open>Properties\<close>

text \<open>
  C30. Data that arrives on a socket in a chunk of any size is cut exactly as the stream it belongs to: with
  \<open>fs\<close> the complete packages of what was waiting followed by the chunk and \<open>r\<close> the rest, the filter
  stays inside its buffers, answers with the package when there is just one and nothing is left, puts
  all of them in order into the queue when there is more, keeps \<open>r\<close> waiting for the next chunk, and
  leaves the other sockets alone.
\<close>

theorem filter_cuts_stream:
  assumes "queue_inv s" "0 \<le> fd" "fd < 2 ^ 30" "c \<noteq> []" "frames (waiting s fd @ c) = (fs, r)"
  shows "\<exists>s'. filter_data s fd c = Some (answer fd fs r, s') \<and> queue_inv s' \<and> waiting s' fd = r \<and>
    (\<forall>fd'. fd' \<noteq> fd \<longrightarrow> waiting s' fd' = waiting s fd') \<and>
    queued s' = queued s @ (if answer fd fs r = F_More then map (pack_of fd) fs else [])"
proof -
  obtain h where "hash_fd fd = Some h" using hash_fd_small assms by blast
  from filter_data_ok [OF assms(1) this assms(4)] show ?thesis
    by (auto simp: filters_def assms(5) queues_def intro!: waiting_cong)
qed

theorem filter_cuts_stream_witness:
  "\<exists>s'. filter_data None 7 [0, 1, 65, 0] = Some (F_More, s') \<and> waiting s' 7 = [0] \<and> queued s' = [pack_of 7 [65]]"
proof -
  have "frames (waiting None 7 @ [0, 1, 65, 0]) = ([[65]], [0])"
    by (simp add: queue_inv_init frames.simps [of "[0, 1, 65, 0]"] frames_partial pack_len_def)
  from filter_cuts_stream [OF queue_inv_init(1) _ _ _ this] show ?thesis
    by (auto simp: answer_def queue_inv_init)
qed

text \<open>
  C31. Packages survive the transport: when the data that arrives on a socket, in chunks of any size and
  interleaved in any way with the data of other sockets, is the concatenation of packed messages, exactly
  these messages are delivered for that socket, in order, and nothing is left waiting.
\<close>

theorem packages_round_trip:
  assumes "\<forall>(fd, c)\<in>set evs. 0 \<le> fd \<and> fd < 2 ^ 30 \<and> c \<noteq> []" "\<forall>m\<in>set ms. length m < 0x10000"
    and "stream_of fd evs = concat (map (\<lambda>m. the (lpack m)) ms)"
  shows "\<exists>s' ps. receive evs None = Some (s', ps) \<and> filter (\<lambda>p. np_id p = fd) ps = map (pack_of fd) ms \<and>
    waiting s' fd = []"
proof -
  have "\<forall>(fd, c)\<in>set evs. hash_fd fd \<noteq> None \<and> c \<noteq> []" using assms(1) hash_fd_small by blast
  from receive_ok [OF queue_inv_init(1,2) this] show ?thesis
    using assms(3) frames_packed [OF assms(2)] by (auto simp: queue_inv_init)
qed

theorem packages_round_trip_witness:
  "\<exists>s' ps. receive [(3, [0]), (4, [0, 0]), (3, [1, 65, 0, 1]), (3, [66])] None = Some (s', ps) \<and>
     filter (\<lambda>p. np_id p = 3) ps = [pack_of 3 [65], pack_of 3 [66]] \<and> waiting s' 3 = []"
proof -
  have "write_size 1 = [0, 1]" using write_size_word [of 0 1] by simp
  then show ?thesis
    using packages_round_trip [of "[(3, [0]), (4, [0, 0]), (3, [1, 65, 0, 1]), (3, [66])]" "[[65], [66]]" 3]
    by (simp add: stream_of_def lpack_def)
qed

end
