(* ===== verification/Seri_Write.thy ===== *)
theory Seri_Write
  imports Fengnet_Prelude
begin

text \<open>
  The serializer of Lua values, \<^verbatim>\<open>lualib-src/lua-seri.cpp\<close>, writing side: a value is written to a chain of
  blocks of 128 bytes, which \<open>seri\<close> copies into one buffer.

  A Lua value as the code sees it through the Lua interface: a table is the length \<open>lua_rawlen\<close>
  reports and its entries in the order of \<open>lua_next\<close>; a table with a \<open>__pairs\<close> metamethod is the
  pairs its iterator returns and whether it ends without an error. The type is a codatatype because
  a table may contain itself. Integers are 64-bit words in two's complement, reals and
  light userdata are their 64 bits.

  The outer \<open>None\<close> is an access outside a block, a null pointer, a failed \<open>assert\<close> or the shift of
  a negative number; the inner \<open>None\<close> is a Lua error. Byte counts are unbounded and memory is
  available, so \<open>lua_checkstack\<close> succeeds.
\<close>

section \<open>Values and blocks\<close>

codatatype lua_value = LNil | LBool bool | LInt u64 | LReal u64 | LStr bytes | LPtr u64
  | LTable nat "(lua_value \<times> lua_value) list" | LMeta "(lua_value \<times> lua_value) list" bool | LOther

definition TYPE_NIL :: nat where "TYPE_NIL = 0"
definition TYPE_BOOLEAN :: nat where "TYPE_BOOLEAN = 1"
definition TYPE_NUMBER :: nat where "TYPE_NUMBER = 2"
definition TYPE_NUMBER_ZERO :: nat where "TYPE_NUMBER_ZERO = 0"
definition TYPE_NUMBER_BYTE :: nat where "TYPE_NUMBER_BYTE = 1"
definition TYPE_NUMBER_WORD :: nat where "TYPE_NUMBER_WORD = 2"
definition TYPE_NUMBER_DWORD :: nat where "TYPE_NUMBER_DWORD = 4"
definition TYPE_NUMBER_QWORD :: nat where "TYPE_NUMBER_QWORD = 6"
definition TYPE_NUMBER_REAL :: nat where "TYPE_NUMBER_REAL = 8"
definition TYPE_USERDATA :: nat where "TYPE_USERDATA = 3"
definition TYPE_SHORT_STRING :: nat where "TYPE_SHORT_STRING = 4"
definition TYPE_LONG_STRING :: nat where "TYPE_LONG_STRING = 5"
definition TYPE_TABLE :: nat where "TYPE_TABLE = 6"
definition MAX_COOKIE :: nat where "MAX_COOKIE = 32"
definition BLOCK_SIZE :: nat where "BLOCK_SIZE = 128"
definition MAX_DEPTH :: nat where "MAX_DEPTH = 32"

lemmas seri_types = TYPE_NIL_def TYPE_BOOLEAN_def TYPE_NUMBER_def TYPE_NUMBER_ZERO_def TYPE_NUMBER_BYTE_def
  TYPE_NUMBER_WORD_def TYPE_NUMBER_DWORD_def TYPE_NUMBER_QWORD_def TYPE_NUMBER_REAL_def TYPE_USERDATA_def
  TYPE_SHORT_STRING_def TYPE_LONG_STRING_def TYPE_TABLE_def MAX_COOKIE_def

definition COMBINE_TYPE :: "nat \<Rightarrow> nat \<Rightarrow> byte" where
  "COMBINE_TYPE t v = of_nat t OR push_bit 3 (of_nat v)"

text \<open>The chain of blocks from the head; the current block is the last one.\<close>

record write_block =
  wb_blocks :: "bytes list"
  wb_len :: nat
  wb_ptr :: nat

section \<open>Operations\<close>

definition blk_alloc :: bytes where
  "blk_alloc = replicate BLOCK_SIZE 0"

text \<open>A block that is full is followed by a new one before anything is written.\<close>

definition fresh :: "write_block \<Rightarrow> write_block" where
  "fresh b = (if wb_ptr b = BLOCK_SIZE then b\<lparr>wb_blocks := wb_blocks b @ [blk_alloc], wb_ptr := 0\<rparr> else b)"

text \<open>One round of \<open>wb_push\<close>, from the first test (\<open>Inl\<close>: the jump to \<open>_again\<close>, with a full block).\<close>

definition push_step :: "write_block \<times> bytes \<Rightarrow> ((write_block \<times> bytes) + write_block) option" where
  "push_step = (\<lambda>(b, buffer). do {
     let b = fresh b;
     cur \<leftarrow> load (wb_blocks b) (length (wb_blocks b) - 1);
     if wb_ptr b + length buffer \<le> BLOCK_SIZE then do {
       cur \<leftarrow> store_n cur (wb_ptr b) buffer;
       Some (Inr (b\<lparr>wb_blocks := butlast (wb_blocks b) @ [cur], wb_ptr := wb_ptr b + length buffer,
         wb_len := wb_len b + length buffer\<rparr>))
     }
     else do {
       let copy = BLOCK_SIZE - wb_ptr b;
       data \<leftarrow> load_n buffer 0 copy;
       cur \<leftarrow> store_n cur (wb_ptr b) data;
       Some (Inl (b\<lparr>wb_blocks := butlast (wb_blocks b) @ [cur], wb_ptr := BLOCK_SIZE,
         wb_len := wb_len b + copy\<rparr>, drop copy buffer))
     }
   })"

definition wb_push :: "write_block \<Rightarrow> bytes \<Rightarrow> write_block option" where
  "wb_push b buffer = repeat_step push_step (b, buffer)"

definition wb_init :: write_block where
  "wb_init = \<lparr>wb_blocks = [blk_alloc], wb_len = 0, wb_ptr = 0\<rparr>"

text \<open>\<open>wb_free\<close> frees every block but the first, which is on the stack; the freed blocks are the result.\<close>

definition wb_free :: "write_block \<Rightarrow> bytes list \<times> write_block" where
  "wb_free wb = (tl (wb_blocks wb), \<lparr>wb_blocks = [], wb_len = 0, wb_ptr = 0\<rparr>)"

definition wb_nil :: "write_block \<Rightarrow> write_block option" where
  "wb_nil wb = wb_push wb [of_nat TYPE_NIL]"

definition wb_boolean :: "write_block \<Rightarrow> bool \<Rightarrow> write_block option" where
  "wb_boolean wb boolean = wb_push wb [COMBINE_TYPE TYPE_BOOLEAN (if boolean then 1 else 0)]"

definition wb_integer :: "write_block \<Rightarrow> u64 \<Rightarrow> write_block option" where
  "wb_integer wb v = (
     if v = 0 then wb_push wb [COMBINE_TYPE TYPE_NUMBER TYPE_NUMBER_ZERO]
     else if v \<noteq> scast (ucast v :: u32) then do {
       wb \<leftarrow> wb_push wb [COMBINE_TYPE TYPE_NUMBER TYPE_NUMBER_QWORD];
       wb_push wb (le64_put v)
     }
     else if sint v < 0 then do {
       wb \<leftarrow> wb_push wb [COMBINE_TYPE TYPE_NUMBER TYPE_NUMBER_DWORD];
       wb_push wb (le32_put (ucast v))
     }
     else if sint v < 0x100 then do {
       wb \<leftarrow> wb_push wb [COMBINE_TYPE TYPE_NUMBER TYPE_NUMBER_BYTE];
       wb_push wb [ucast v]
     }
     else if sint v < 0x10000 then do {
       wb \<leftarrow> wb_push wb [COMBINE_TYPE TYPE_NUMBER TYPE_NUMBER_WORD];
       wb_push wb (le16_put (ucast v))
     }
     else do {
       wb \<leftarrow> wb_push wb [COMBINE_TYPE TYPE_NUMBER TYPE_NUMBER_DWORD];
       wb_push wb (le32_put (ucast v))
     })"

definition wb_real :: "write_block \<Rightarrow> u64 \<Rightarrow> write_block option" where
  "wb_real wb v = do {
     wb \<leftarrow> wb_push wb [COMBINE_TYPE TYPE_NUMBER TYPE_NUMBER_REAL];
     wb_push wb (le64_put v)
   }"

definition wb_pointer :: "write_block \<Rightarrow> u64 \<Rightarrow> write_block option" where
  "wb_pointer wb v = do {
     wb \<leftarrow> wb_push wb [of_nat TYPE_USERDATA];
     wb_push wb (le64_put v)
   }"

text \<open>The conversion of a \<open>size_t\<close> to \<open>int\<close>.\<close>

definition to_int :: "nat \<Rightarrow> int" where
  "to_int n = sint (of_nat n :: u32)"

definition wb_string :: "write_block \<Rightarrow> bytes \<Rightarrow> write_block option" where
  "wb_string wb s = do {
     let len = to_int (length s);
     if len < 0 then None
     else do {
       let len = nat len;
       str \<leftarrow> load_n s 0 len;
       if len < MAX_COOKIE then do {
         wb \<leftarrow> wb_push wb [COMBINE_TYPE TYPE_SHORT_STRING len];
         if len > 0 then wb_push wb str else Some wb
       }
       else if len < 0x10000 then do {
         wb \<leftarrow> wb_push wb [COMBINE_TYPE TYPE_LONG_STRING 2];
         wb \<leftarrow> wb_push wb (le16_put (of_nat len));
         wb_push wb str
       }
       else do {
         wb \<leftarrow> wb_push wb [COMBINE_TYPE TYPE_LONG_STRING 4];
         wb \<leftarrow> wb_push wb (le32_put (of_nat len));
         wb_push wb str
       }
     }
   }"

text \<open>\<open>lua_rawgeti\<close>, and the entries \<open>wb_table_hash\<close> does not skip.\<close>

definition lua_rawgeti :: "(lua_value \<times> lua_value) list \<Rightarrow> nat \<Rightarrow> lua_value" where
  "lua_rawgeti es i = (case find (\<lambda>(k, v). case k of LInt x \<Rightarrow> x = of_nat i | _ \<Rightarrow> False) es of
     None \<Rightarrow> LNil | Some (k, v) \<Rightarrow> v)"

definition in_array :: "int \<Rightarrow> lua_value \<Rightarrow> bool" where
  "in_array array_size k = (case k of LInt x \<Rightarrow> 0 < sint x \<and> sint x \<le> array_size | _ \<Rightarrow> False)"

type_synonym packer = "lua_value \<Rightarrow> write_block \<Rightarrow> write_block option option"

text \<open>The operations on tables; \<open>pack\<close> is \<open>pack_one\<close> at the depth of the elements.\<close>

definition wb_table_array :: "packer \<Rightarrow> nat \<Rightarrow> (lua_value \<times> lua_value) list \<Rightarrow> write_block \<Rightarrow> write_block option option" where
  "wb_table_array pack rawlen es wb = do {
     let array_size = to_int rawlen;
     if array_size < 0 then None
     else do {
       wb \<leftarrow> (if array_size \<ge> int MAX_COOKIE - 1 then do {
           wb \<leftarrow> wb_push wb [COMBINE_TYPE TYPE_TABLE (MAX_COOKIE - 1)];
           wb_integer wb (word_of_int array_size)
         }
         else wb_push wb [COMBINE_TYPE TYPE_TABLE (nat array_size)]);
       for_ret (\<lambda>i wb. pack (lua_rawgeti es i) wb) [1..<Suc (nat array_size)] wb
     }
   }"

definition pack_pair :: "packer \<Rightarrow> lua_value \<times> lua_value \<Rightarrow> write_block \<Rightarrow> write_block option option" where
  "pack_pair pack kv wb = bind_ret (pack (fst kv) wb) (pack (snd kv))"

definition wb_table_hash :: "packer \<Rightarrow> int \<Rightarrow> (lua_value \<times> lua_value) list \<Rightarrow> write_block \<Rightarrow> write_block option option" where
  "wb_table_hash pack array_size es wb =
     bind_ret (for_ret (\<lambda>kv wb. if in_array array_size (fst kv) then Some (Some wb) else pack_pair pack kv wb) es wb)
       (\<lambda>wb. map_option Some (wb_nil wb))"

definition wb_table_metapairs :: "packer \<Rightarrow> (lua_value \<times> lua_value) list \<Rightarrow> bool \<Rightarrow> write_block \<Rightarrow> write_block option option" where
  "wb_table_metapairs pack ps ok wb = do {
     wb \<leftarrow> wb_push wb [COMBINE_TYPE TYPE_TABLE 0];
     bind_ret (for_ret (pack_pair pack) ps wb) (\<lambda>wb. if ok then map_option Some (wb_nil wb) else Some None)
   }"

definition wb_table :: "packer \<Rightarrow> nat \<Rightarrow> (lua_value \<times> lua_value) list \<Rightarrow> write_block \<Rightarrow> write_block option option" where
  "wb_table pack rawlen es wb =
     bind_ret (wb_table_array pack rawlen es wb) (wb_table_hash pack (to_int rawlen) es)"

lemma wb_table_cong [fundef_cong]:
  "(\<And>v wb. f v wb = g v wb) \<Longrightarrow> wb_table f n es wb = wb_table g n es wb"
  "(\<And>v wb. f v wb = g v wb) \<Longrightarrow> wb_table_metapairs f ps ok wb = wb_table_metapairs g ps ok wb"
proof -
  assume "\<And>v wb. f v wb = g v wb"
  then have "f = g" by blast
  then show "wb_table f n es wb = wb_table g n es wb" "wb_table_metapairs f ps ok wb = wb_table_metapairs g ps ok wb"
    by simp_all
qed

function pack_one :: "nat \<Rightarrow> lua_value \<Rightarrow> write_block \<Rightarrow> write_block option option" where
  "pack_one depth v b = (
     if depth > MAX_DEPTH then Some None
     else case v of
       LNil \<Rightarrow> map_option Some (wb_nil b)
     | LInt x \<Rightarrow> map_option Some (wb_integer b x)
     | LReal n \<Rightarrow> map_option Some (wb_real b n)
     | LBool x \<Rightarrow> map_option Some (wb_boolean b x)
     | LStr s \<Rightarrow> map_option Some (wb_string b s)
     | LPtr p \<Rightarrow> map_option Some (wb_pointer b p)
     | LTable rawlen es \<Rightarrow> wb_table (\<lambda>v b. pack_one (depth + 1) v b) rawlen es b
     | LMeta ps ok \<Rightarrow> wb_table_metapairs (\<lambda>v b. pack_one (depth + 1) v b) ps ok b
     | LOther \<Rightarrow> Some None)"
  by pat_completeness auto
termination by (relation "measure (\<lambda>(depth, _). 33 - depth)") (auto simp: MAX_DEPTH_def)

declare pack_one.simps [simp del]

definition pack_from :: "lua_value list \<Rightarrow> write_block \<Rightarrow> write_block option option" where
  "pack_from args b = for_ret (pack_one 0) args b"

fun seri :: "bytes list \<Rightarrow> nat \<Rightarrow> bytes option" where
  "seri b len = (
     if len > 0 then
       case b of
         [] \<Rightarrow> None
       | blk # nxt \<Rightarrow>
           if len \<ge> BLOCK_SIZE then do { d \<leftarrow> load_n blk 0 BLOCK_SIZE; r \<leftarrow> seri nxt (len - BLOCK_SIZE); Some (d @ r) }
           else load_n blk 0 len
     else Some [])"

declare seri.simps [simp del]

text \<open>The buffer, and the blocks freed at the end.\<close>

definition luaseri_pack :: "lua_value list \<Rightarrow> (bytes \<times> bytes list) option option" where
  "luaseri_pack args = bind_ret (pack_from args wb_init) (\<lambda>wb. do {
     buffer \<leftarrow> seri (wb_blocks wb) (wb_len wb);
     Some (Some (buffer, fst (wb_free wb)))
   })"

section \<open>The reference encoding\<close>

text \<open>The encoding of a value as a flat byte string; \<open>None\<close> is an error.\<close>

primrec cat :: "bytes option list \<Rightarrow> bytes option" where
  "cat [] = Some []"
| "cat (x # xs) = do { a \<leftarrow> x; b \<leftarrow> cat xs; Some (a @ b) }"

definition enc_int :: "u64 \<Rightarrow> bytes" where
  "enc_int v = (
     if v = 0 then [COMBINE_TYPE TYPE_NUMBER TYPE_NUMBER_ZERO]
     else if v \<noteq> scast (ucast v :: u32) then COMBINE_TYPE TYPE_NUMBER TYPE_NUMBER_QWORD # le64_put v
     else if sint v < 0 then COMBINE_TYPE TYPE_NUMBER TYPE_NUMBER_DWORD # le32_put (ucast v)
     else if sint v < 0x100 then [COMBINE_TYPE TYPE_NUMBER TYPE_NUMBER_BYTE, ucast v]
     else if sint v < 0x10000 then COMBINE_TYPE TYPE_NUMBER TYPE_NUMBER_WORD # le16_put (ucast v)
     else COMBINE_TYPE TYPE_NUMBER TYPE_NUMBER_DWORD # le32_put (ucast v))"

definition enc_str :: "bytes \<Rightarrow> bytes" where
  "enc_str s = (
     if length s < MAX_COOKIE then COMBINE_TYPE TYPE_SHORT_STRING (length s) # s
     else if length s < 0x10000 then COMBINE_TYPE TYPE_LONG_STRING 2 # le16_put (of_nat (length s)) @ s
     else COMBINE_TYPE TYPE_LONG_STRING 4 # le32_put (of_nat (length s)) @ s)"

definition enc_size :: "nat \<Rightarrow> bytes" where
  "enc_size n = (if n \<ge> MAX_COOKIE - 1 then COMBINE_TYPE TYPE_TABLE (MAX_COOKIE - 1) # enc_int (of_nat n)
     else [COMBINE_TYPE TYPE_TABLE n])"

definition array_part :: "nat \<Rightarrow> (lua_value \<times> lua_value) list \<Rightarrow> lua_value list" where
  "array_part n es = map (lua_rawgeti es) [1..<Suc n]"

definition hash_part :: "nat \<Rightarrow> (lua_value \<times> lua_value) list \<Rightarrow> (lua_value \<times> lua_value) list" where
  "hash_part n es = filter (\<lambda>kv. \<not> in_array (int n) (fst kv)) es"

definition enc_pairs :: "(lua_value \<Rightarrow> bytes option) \<Rightarrow> (lua_value \<times> lua_value) list \<Rightarrow> bytes option" where
  "enc_pairs f ps = cat (map (\<lambda>(k, v). cat [f k, f v]) ps)"

definition enc_table :: "(lua_value \<Rightarrow> bytes option) \<Rightarrow> nat \<Rightarrow> (lua_value \<times> lua_value) list \<Rightarrow> bytes option" where
  "enc_table f n es = cat [Some (enc_size n), cat (map f (array_part n es)), enc_pairs f (hash_part n es), Some [0]]"

definition enc_meta :: "(lua_value \<Rightarrow> bytes option) \<Rightarrow> (lua_value \<times> lua_value) list \<Rightarrow> bool \<Rightarrow> bytes option" where
  "enc_meta f ps ok = cat [Some (enc_size 0), enc_pairs f ps, if ok then Some [0] else None]"

lemma enc_table_cong [fundef_cong]:
  "(\<And>v. f v = g v) \<Longrightarrow> enc_table f n es = enc_table g n es"
  "(\<And>v. f v = g v) \<Longrightarrow> enc_meta f ps ok = enc_meta g ps ok"
proof -
  assume "\<And>v. f v = g v"
  then have "f = g" by blast
  then show "enc_table f n es = enc_table g n es" "enc_meta f ps ok = enc_meta g ps ok" by simp_all
qed

function enc_value :: "nat \<Rightarrow> lua_value \<Rightarrow> bytes option" where
  "enc_value depth v = (
     if depth > MAX_DEPTH then None
     else case v of
       LNil \<Rightarrow> Some [0]
     | LInt x \<Rightarrow> Some (enc_int x)
     | LReal n \<Rightarrow> Some (COMBINE_TYPE TYPE_NUMBER TYPE_NUMBER_REAL # le64_put n)
     | LBool x \<Rightarrow> Some [COMBINE_TYPE TYPE_BOOLEAN (if x then 1 else 0)]
     | LStr s \<Rightarrow> Some (enc_str s)
     | LPtr p \<Rightarrow> Some (of_nat TYPE_USERDATA # le64_put p)
     | LTable n es \<Rightarrow> enc_table (\<lambda>v. enc_value (depth + 1) v) n es
     | LMeta ps ok \<Rightarrow> enc_meta (\<lambda>v. enc_value (depth + 1) v) ps ok
     | LOther \<Rightarrow> None)"
  by pat_completeness auto
termination by (relation "measure (\<lambda>(depth, _). 33 - depth)") (auto simp: MAX_DEPTH_def)

declare enc_value.simps [simp del]

text \<open>
  Well-formed values: lengths below \<open>2 ^ 31\<close>, and keys that are neither \<open>nil\<close> nor a NaN, as in every
  Lua table.
\<close>

definition is_nan :: "u64 \<Rightarrow> bool" where
  "is_nan n \<longleftrightarrow> n AND 0x7ff0000000000000 = 0x7ff0000000000000 \<and> n AND 0x000fffffffffffff \<noteq> 0"

definition key_ok :: "lua_value \<Rightarrow> bool" where
  "key_ok k = (case k of LNil \<Rightarrow> False | LReal n \<Rightarrow> \<not> is_nan n | _ \<Rightarrow> True)"

coinductive wf_lua :: "lua_value \<Rightarrow> bool" where
  "wf_lua LNil" | "wf_lua (LBool b)" | "wf_lua (LInt x)" | "wf_lua (LReal x)" | "wf_lua (LPtr x)" | "wf_lua LOther"
| "length s < 2 ^ 31 \<Longrightarrow> wf_lua (LStr s)"
| "n < 2 ^ 31 \<Longrightarrow> \<forall>(k, v)\<in>set es. key_ok k \<and> wf_lua k \<and> wf_lua v \<Longrightarrow> wf_lua (LTable n es)"
| "\<forall>(k, v)\<in>set ps. key_ok k \<and> wf_lua k \<and> wf_lua v \<Longrightarrow> wf_lua (LMeta ps ok)"

inductive_cases wf_luaE: "wf_lua (LStr s)" "wf_lua (LTable n es)" "wf_lua (LMeta ps ok)"

section \<open>The blocks implement the reference encoding\<close>

definition wb_ok :: "write_block \<Rightarrow> bool" where
  "wb_ok wb \<longleftrightarrow> wb_blocks wb \<noteq> [] \<and> (\<forall>b\<in>set (wb_blocks wb). length b = BLOCK_SIZE) \<and> wb_ptr wb \<le> BLOCK_SIZE \<and>
     wb_len wb = (length (wb_blocks wb) - 1) * BLOCK_SIZE + wb_ptr wb"

definition content :: "write_block \<Rightarrow> bytes" where
  "content wb = take (wb_len wb) (concat (wb_blocks wb))"

lemma length_blocks: "\<forall>b\<in>set bs. length b = n \<Longrightarrow> length (concat bs) = length bs * n"
  by (induction bs) auto

lemma content_snoc:
  assumes "wb_blocks wb = bs @ [cur]" "wb_ok wb"
  shows "content wb = concat bs @ take (wb_ptr wb) cur" "length cur = BLOCK_SIZE" "wb_len wb = length bs * BLOCK_SIZE + wb_ptr wb"
    "length (concat bs) = length bs * BLOCK_SIZE"
  using assms length_blocks [of bs BLOCK_SIZE] by (auto simp: content_def wb_ok_def)

lemma wb_init_ok: "wb_ok wb_init" "content wb_init = []"
  by (simp_all add: wb_ok_def wb_init_def content_def blk_alloc_def)

lemma fresh_ok: "wb_ok b \<Longrightarrow> wb_ok (fresh b) \<and> content (fresh b) = content b \<and> wb_ptr (fresh b) < BLOCK_SIZE"
proof (cases "wb_ptr b = BLOCK_SIZE")
  case True
  assume ok: "wb_ok b"
  then have l: "wb_len b = length (wb_blocks b) * BLOCK_SIZE" "length (concat (wb_blocks b)) = length (wb_blocks b) * BLOCK_SIZE"
    using True length_blocks [of "wb_blocks b" BLOCK_SIZE] by (cases "wb_blocks b"; simp add: wb_ok_def)+
  show ?thesis using ok True l by (auto simp: fresh_def wb_ok_def content_def blk_alloc_def BLOCK_SIZE_def)
next
  case False
  assume "wb_ok b"
  then show ?thesis using False by (auto simp: fresh_def wb_ok_def)
qed

lemma push_step_ok:
  assumes "wb_ok b"
  shows "(\<exists>b'. push_step (b, bs) = Some (Inr b') \<and> wb_ok b' \<and> content b' = content b @ bs) \<or>
    (\<exists>b' n. push_step (b, bs) = Some (Inl (b', drop n bs)) \<and> wb_ok b' \<and> 0 < n \<and> n \<le> length bs \<and>
      content b' = content b @ take n bs)"
proof -
  define f where "f = fresh b"
  have f: "wb_ok f" "content f = content b" "wb_ptr f < BLOCK_SIZE" using fresh_ok [OF assms] by (auto simp: f_def)
  obtain pre cur where bl: "wb_blocks f = pre @ [cur]" using f(1) by (metis wb_ok_def append_butlast_last_id)
  note c = content_snoc [OF bl f(1)]
  have ld: "load (wb_blocks f) (length (wb_blocks f) - 1) = Some cur" by (simp add: bl load_def)
  let ?p = "wb_ptr f"
  have upd: "wb_ok (f\<lparr>wb_blocks := pre @ [cur'], wb_ptr := ?p + length ds, wb_len := wb_len f + length ds\<rparr>) \<and>
      content (f\<lparr>wb_blocks := pre @ [cur'], wb_ptr := ?p + length ds, wb_len := wb_len f + length ds\<rparr>) = content f @ ds"
    (is "wb_ok ?f' \<and> _")
    if "?p + length ds \<le> BLOCK_SIZE" "cur' = take ?p cur @ ds @ drop (?p + length ds) cur" for ds cur'
  proof -
    have ok: "wb_ok ?f'" using f(1) that c by (auto simp: wb_ok_def bl)
    from content_snoc(1) [of ?f' pre cur'] ok show ?thesis using c that by simp
  qed
  have step: "push_step (b, bs) = do {
      cur \<leftarrow> load (wb_blocks f) (length (wb_blocks f) - 1);
      if wb_ptr f + length bs \<le> BLOCK_SIZE then do {
        cur \<leftarrow> store_n cur (wb_ptr f) bs;
        Some (Inr (f\<lparr>wb_blocks := butlast (wb_blocks f) @ [cur], wb_ptr := wb_ptr f + length bs, wb_len := wb_len f + length bs\<rparr>))
      }
      else do {
        data \<leftarrow> load_n bs 0 (BLOCK_SIZE - wb_ptr f);
        cur \<leftarrow> store_n cur (wb_ptr f) data;
        Some (Inl (f\<lparr>wb_blocks := butlast (wb_blocks f) @ [cur], wb_ptr := BLOCK_SIZE,
          wb_len := wb_len f + (BLOCK_SIZE - wb_ptr f)\<rparr>, drop (BLOCK_SIZE - wb_ptr f) bs))
      } }"
    by (simp only: push_step_def Let_def prod.case f_def)
  show ?thesis
  proof (cases "?p + length bs \<le> BLOCK_SIZE")
    case True
    then show ?thesis using upd [of bs "take ?p cur @ bs @ drop (?p + length bs) cur"] f(2) c(2)
      by (simp add: step ld mem_simps bl)
  next
    case False
    let ?n = "BLOCK_SIZE - ?p"
    have n: "length (take ?n bs) = ?n" "0 < ?n" "?n \<le> length bs" using False f(3) by auto
    then show ?thesis using False f(2,3) c(2) upd [of "take ?n bs" "take ?p cur @ take ?n bs @ drop (?p + ?n) cur"]
      by (intro disjI2 exI [of _ "f\<lparr>wb_blocks := pre @ [take ?p cur @ take ?n bs], wb_ptr := BLOCK_SIZE, wb_len := wb_len f + ?n\<rparr>"]
        exI [of _ ?n]) (simp add: step ld mem_simps bl)
  qed
qed

definition appends :: "(write_block \<Rightarrow> write_block option) \<Rightarrow> bytes \<Rightarrow> bool" where
  "appends f bs \<longleftrightarrow> (\<forall>wb. wb_ok wb \<longrightarrow> (\<exists>wb'. f wb = Some wb' \<and> wb_ok wb' \<and> content wb' = content wb @ bs))"

lemma wb_push_appends: "appends (\<lambda>wb. wb_push wb bs) bs"
proof -
  have "wb_ok wb \<Longrightarrow> \<exists>wb'. repeat_step push_step (wb, bs) = Some wb' \<and> wb_ok wb' \<and> content wb' = content wb @ bs" for wb
  proof (induction "length bs" arbitrary: wb bs rule: less_induct)
    case less
    from push_step_ok [OF less.prems, of bs] show ?case
    proof (elim disjE exE conjE)
      fix b' assume "push_step (wb, bs) = Some (Inr b')" "wb_ok b'" "content b' = content wb @ bs"
      then show ?case by (simp add: repeat_step_Inr)
    next
      fix b' n assume s: "push_step (wb, bs) = Some (Inl (b', drop n bs))" "wb_ok b'" "0 < n" "n \<le> length bs"
        "content b' = content wb @ take n bs"
      have "length (drop n bs) < length bs" using s by simp
      from less.hyps [OF this s(2)] show ?case using s by (simp add: repeat_step_Inl)
    qed
  qed
  then show ?thesis by (simp add: appends_def wb_push_def)
qed


lemma appends_seq:
  "appends f bs \<Longrightarrow> appends g cs \<Longrightarrow> appends (\<lambda>wb. do { wb \<leftarrow> f wb; g wb }) (bs @ cs)"
  by (fastforce simp: appends_def)

lemma appends_push: "appends g cs \<Longrightarrow> appends (\<lambda>wb. do { wb \<leftarrow> wb_push wb bs; g wb }) (bs @ cs)"
  by (rule appends_seq [OF wb_push_appends])

lemma to_int_small: "n < 2 ^ 31 \<Longrightarrow> to_int n = int n"
  by (simp add: to_int_def signed_of_nat signed_take_bit_int_eq_self)

lemma writer_appends:
  "appends wb_nil [0]" "appends (\<lambda>wb. wb_boolean wb x) [COMBINE_TYPE TYPE_BOOLEAN (if x then 1 else 0)]"
  "appends (\<lambda>wb. wb_integer wb v) (enc_int v)"
  "appends (\<lambda>wb. wb_real wb v) (COMBINE_TYPE TYPE_NUMBER TYPE_NUMBER_REAL # le64_put v)"
  "appends (\<lambda>wb. wb_pointer wb v) (of_nat TYPE_USERDATA # le64_put v)"
proof -
  note two = appends_push [OF wb_push_appends]
  show "appends wb_nil [0]" "appends (\<lambda>wb. wb_boolean wb x) [COMBINE_TYPE TYPE_BOOLEAN (if x then 1 else 0)]"
    using wb_push_appends by (auto simp: wb_nil_def [abs_def] wb_boolean_def TYPE_NIL_def)
  show "appends (\<lambda>wb. wb_real wb v) (COMBINE_TYPE TYPE_NUMBER TYPE_NUMBER_REAL # le64_put v)"
    "appends (\<lambda>wb. wb_pointer wb v) (of_nat TYPE_USERDATA # le64_put v)"
    using two [of "[_]" "le64_put v"] by (simp_all add: wb_real_def wb_pointer_def)
  show "appends (\<lambda>wb. wb_integer wb v) (enc_int v)"
    unfolding wb_integer_def enc_int_def using two [of "[_]"] wb_push_appends by (simp split: if_splits)
qed

lemma wb_string_appends: "length s < 2 ^ 31 \<Longrightarrow> appends (\<lambda>wb. wb_string wb s) (enc_str s)"
proof -
  assume l: "length s < 2 ^ 31"
  note two = appends_push [OF wb_push_appends] and three = appends_push [OF appends_push [OF wb_push_appends]]
  have ld: "load_n s 0 (length s) = Some s" by (simp add: load_n_def)
  show ?thesis
  proof (cases "length s < MAX_COOKIE")
    case True
    then show ?thesis using two [of "[COMBINE_TYPE TYPE_SHORT_STRING (length s)]" s]
        wb_push_appends [of "[COMBINE_TYPE TYPE_SHORT_STRING 0]"]
        to_int_small [of 0] load_n_def [of s 0 0]
      by (cases "s = []") (simp_all add: wb_string_def enc_str_def to_int_small [OF l] ld Let_def)
  next
    case False
    then show ?thesis
      using three [of "[COMBINE_TYPE TYPE_LONG_STRING 2]" "le16_put (of_nat (length s))" s]
        three [of "[COMBINE_TYPE TYPE_LONG_STRING 4]" "le32_put (of_nat (length s))" s]
      by (cases "length s < 0x10000") (simp_all add: wb_string_def enc_str_def to_int_small [OF l] ld Let_def)
  qed
qed

text \<open>The same for operations that may raise an error.\<close>

definition packs :: "(write_block \<Rightarrow> write_block option option) \<Rightarrow> bytes option \<Rightarrow> bool" where
  "packs f r \<longleftrightarrow> (\<forall>wb. wb_ok wb \<longrightarrow> (case r of None \<Rightarrow> f wb = Some None
     | Some bs \<Rightarrow> \<exists>wb'. f wb = Some (Some wb') \<and> wb_ok wb' \<and> content wb' = content wb @ bs))"

lemma packs_appends: "appends f bs \<Longrightarrow> packs (\<lambda>wb. map_option Some (f wb)) (Some bs)"
  by (fastforce simp: appends_def packs_def)

lemma packs_error: "packs (\<lambda>wb. Some None) None"
  by (simp add: packs_def)

lemma packs_seq: "packs f r \<Longrightarrow> packs g r' \<Longrightarrow> packs (\<lambda>wb. bind_ret (f wb) g) (do { a \<leftarrow> r; b \<leftarrow> r'; Some (a @ b) })"
  by (cases r; cases r') (fastforce simp: packs_def)+

lemma packs_skip: "packs (\<lambda>wb. Some (Some wb)) (Some [])"
  by (simp add: packs_def)

lemma packs_for: "(\<And>x. x \<in> set xs \<Longrightarrow> packs (f x) (e x)) \<Longrightarrow> packs (for_ret f xs) (cat (map e xs))"
proof (induction xs)
  case Nil
  then show ?case using packs_skip by simp
next
  case (Cons x xs)
  then show ?case using packs_seq [of "f x" "e x" "for_ret f xs"] by simp
qed

lemma packs_filter:
  "(\<And>x. x \<in> set xs \<Longrightarrow> P x \<Longrightarrow> packs (f x) (e x)) \<Longrightarrow>
   packs (for_ret (\<lambda>x wb. if \<not> P x then Some (Some wb) else f x wb) xs) (cat (map e (filter P xs)))"
proof (induction xs)
  case Nil
  then show ?case using packs_skip by simp
next
  case (Cons x xs)
  let ?f = "\<lambda>x wb. if \<not> P x then Some (Some wb) else f x wb"
  show ?case
  proof (cases "P x")
    case True
    then show ?thesis using Cons packs_seq [of "f x" "e x" "for_ret ?f xs"] by simp
  next
    case False
    then show ?thesis using Cons by simp
  qed
qed

lemma packs_pair: "packs (f (fst kv)) (e (fst kv)) \<Longrightarrow> packs (f (snd kv)) (e (snd kv)) \<Longrightarrow>
  packs (pack_pair f kv) (case kv of (k, v) \<Rightarrow> cat [e k, e v])"
  using packs_seq [of "f (fst kv)" "e (fst kv)" "f (snd kv)" "e (snd kv)"]
  by (cases kv) (simp add: pack_pair_def [abs_def])

lemma rawgeti_in: "lua_rawgeti es i = LNil \<or> (\<exists>k. (k, lua_rawgeti es i) \<in> set es)"
  by (auto simp: lua_rawgeti_def find_Some_iff split: option.splits) (metis nth_mem)

lemma wb_table_packs:
  assumes n: "n < 2 ^ 31" and p: "\<And>k v. (k, v) \<in> set es \<Longrightarrow> packs (f k) (e k) \<and> packs (f v) (e v)" and nil: "packs (f LNil) (e LNil)"
  shows "packs (wb_table f n es) (enc_table e n es)"
proof -
  have ti: "to_int n = int n" by (rule to_int_small [OF n])
  let ?head = "\<lambda>wb. if n \<ge> MAX_COOKIE - 1 then do { wb \<leftarrow> wb_push wb [COMBINE_TYPE TYPE_TABLE (MAX_COOKIE - 1)]; wb_integer wb (of_nat n) }
    else wb_push wb [COMBINE_TYPE TYPE_TABLE n]"
  have "appends ?head (enc_size n)"
    using appends_push [OF writer_appends(3), of "[COMBINE_TYPE TYPE_TABLE (MAX_COOKIE - 1)]" "of_nat n"] wb_push_appends
    by (auto simp: enc_size_def)
  note head = packs_appends [OF this]
  have "packs (f (lua_rawgeti es i)) (e (lua_rawgeti es i))" for i using rawgeti_in [of es i] p nil by force
  then have arr: "packs (for_ret (\<lambda>i wb. f (lua_rawgeti es i) wb) [1..<Suc n]) (cat (map e (array_part n es)))"
    using packs_for [of "[1..<Suc n]" "\<lambda>i. f (lua_rawgeti es i)" "\<lambda>i. e (lua_rawgeti es i)"]
    by (simp add: array_part_def comp_def del: upt_Suc)
  have pair: "packs (pack_pair f kv) (case kv of (k, v) \<Rightarrow> cat [e k, e v])" if "kv \<in> set es" for kv
    using p [of "fst kv" "snd kv"] that by (intro packs_pair) simp_all
  have "packs (for_ret (\<lambda>kv wb. if \<not> \<not> in_array (int n) (fst kv) then Some (Some wb) else pack_pair f kv wb) es)
      (cat (map (\<lambda>(k, v). cat [e k, e v]) (filter (\<lambda>kv. \<not> in_array (int n) (fst kv)) es)))"
    by (rule packs_filter) (rule pair)
  then have "packs (for_ret (\<lambda>kv wb. if in_array (int n) (fst kv) then Some (Some wb) else pack_pair f kv wb) es)
      (enc_pairs e (hash_part n es))"
    by (simp add: enc_pairs_def hash_part_def)
  note hash = packs_seq [OF this packs_appends [OF writer_appends(1)]]
  have tab: "wb_table f n es = (\<lambda>wb. bind_ret (bind_ret (map_option Some (?head wb)) (for_ret (\<lambda>i wb. f (lua_rawgeti es i) wb) [1..<Suc n]))
      (wb_table_hash f (int n) es))"
    by (rule ext) (auto simp: wb_table_def wb_table_array_def ti Let_def bind_ret_def MAX_COOKIE_def split: Option.bind_splits)
  show ?thesis using packs_seq [OF packs_seq [OF head arr] hash]
    by (simp add: tab wb_table_hash_def [abs_def] enc_table_def Option.bind_assoc cong: option.case_cong)
qed


lemma wb_meta_packs:
  assumes p: "\<And>k v. (k, v) \<in> set ps \<Longrightarrow> packs (f k) (e k) \<and> packs (f v) (e v)"
  shows "packs (wb_table_metapairs f ps ok) (enc_meta e ps ok)"
proof -
  have "packs (pack_pair f kv) (case kv of (k, v) \<Rightarrow> cat [e k, e v])" if "kv \<in> set ps" for kv
    using p [of "fst kv" "snd kv"] that by (intro packs_pair) simp_all
  then have pairs: "packs (for_ret (pack_pair f) ps) (enc_pairs e ps)"
    unfolding enc_pairs_def by (rule packs_for)
  have fin: "packs (\<lambda>wb. if ok then map_option Some (wb_nil wb) else Some None) (if ok then Some [0] else None)"
    using packs_appends [OF writer_appends(1)] packs_error by simp
  have head: "packs (\<lambda>wb. map_option Some (wb_push wb [COMBINE_TYPE TYPE_TABLE 0])) (Some (enc_size 0))"
    using packs_appends [OF wb_push_appends] by (simp add: enc_size_def MAX_COOKIE_def)
  have tab: "wb_table_metapairs f ps ok = (\<lambda>wb. bind_ret (map_option Some (wb_push wb [COMBINE_TYPE TYPE_TABLE 0]))
      (\<lambda>wb. bind_ret (for_ret (pack_pair f) ps wb) (\<lambda>wb. if ok then map_option Some (wb_nil wb) else Some None)))"
    by (rule ext) (auto simp: wb_table_metapairs_def bind_ret_def split: Option.bind_splits)
  show ?thesis using packs_seq [OF head packs_seq [OF pairs fin]]
    by (simp only: tab) (simp add: enc_meta_def Option.bind_assoc split: if_splits)
qed

lemma pack_one_packs: "wf_lua v \<Longrightarrow> packs (pack_one depth v) (enc_value depth v)"
proof (induction "33 - depth" arbitrary: depth v rule: less_induct)
  case less
  show ?case
  proof (cases "depth > MAX_DEPTH")
    case True
    then show ?thesis using packs_error by (simp add: pack_one.simps enc_value.simps packs_def)
  next
    case d: False
    then have IH: "wf_lua v \<Longrightarrow> packs (pack_one (depth + 1) v) (enc_value (depth + 1) v)" for v
      by (intro less.hyps) (auto simp: MAX_DEPTH_def)
    note eqs = pack_one.simps [of depth, abs_def] enc_value.simps [of depth]
    show ?thesis
    proof (cases v)
      case (LTable n es)
      have "n < 2 ^ 31" and es: "\<And>k v. (k, v) \<in> set es \<Longrightarrow> wf_lua k \<and> wf_lua v"
        using less.prems LTable by (auto elim: wf_luaE)
      then have "packs (wb_table (pack_one (depth + 1)) n es) (enc_table (enc_value (depth + 1)) n es)"
        using IH wf_lua.intros(1) by (intro wb_table_packs) blast+
      then show ?thesis using d LTable by (simp add: eqs)
    next
      case (LMeta ps ok)
      have "\<And>k v. (k, v) \<in> set ps \<Longrightarrow> wf_lua k \<and> wf_lua v" using less.prems LMeta by (auto elim: wf_luaE)
      then have "packs (wb_table_metapairs (pack_one (depth + 1)) ps ok) (enc_meta (enc_value (depth + 1)) ps ok)"
        using IH by (intro wb_meta_packs) blast+
      then show ?thesis using d LMeta by (simp add: eqs)
    next
      case (LStr s)
      then have "length s < 2 ^ 31" using less.prems by (auto elim: wf_luaE)
      then show ?thesis using d LStr packs_appends [OF wb_string_appends] by (simp add: eqs)
    qed (use d packs_appends [OF writer_appends(1)] packs_appends [OF writer_appends(2)] packs_appends [OF writer_appends(3)]
        packs_appends [OF writer_appends(4)] packs_appends [OF writer_appends(5)] packs_error in \<open>simp_all add: eqs\<close>)
  qed
qed

lemma seri_ok: "\<forall>b\<in>set bs. length b = BLOCK_SIZE \<Longrightarrow> len \<le> length bs * BLOCK_SIZE \<Longrightarrow> seri bs len = Some (take len (concat bs))"
proof (induction bs arbitrary: len)
  case Nil
  then show ?case by (simp add: seri.simps)
next
  case (Cons b bs)
  then show ?case by (subst seri.simps) (auto simp: load_n_def)
qed

text \<open>What packing several values into one buffer gives.\<close>

definition enc_all :: "lua_value list \<Rightarrow> bytes option" where
  "enc_all vs = cat (map (enc_value 0) vs)"

lemma luaseri_pack_enc:
  assumes "\<forall>v\<in>set vs. wf_lua v"
  shows "case enc_all vs of None \<Rightarrow> luaseri_pack vs = Some None
    | Some bs \<Rightarrow> \<exists>freed. luaseri_pack vs = Some (Some (bs, freed))"
proof -
  have "packs (pack_from vs) (enc_all vs)"
    using assms pack_one_packs unfolding pack_from_def [abs_def] enc_all_def by (intro packs_for) blast
  then have p: "case enc_all vs of None \<Rightarrow> pack_from vs wb_init = Some None
    | Some bs \<Rightarrow> \<exists>wb. pack_from vs wb_init = Some (Some wb) \<and> wb_ok wb \<and> content wb = bs"
    using wb_init_ok by (force simp: packs_def split: option.splits)
  show ?thesis
  proof (cases "enc_all vs")
    case None
    then show ?thesis using p by (simp add: luaseri_pack_def)
  next
    case (Some bs)
    then obtain wb where wb: "pack_from vs wb_init = Some (Some wb)" "wb_ok wb" "content wb = bs" using p by auto
    have l: "length (wb_blocks wb) \<ge> 1" "wb_len wb = (length (wb_blocks wb) - 1) * BLOCK_SIZE + wb_ptr wb" "wb_ptr wb \<le> BLOCK_SIZE"
      "\<forall>b\<in>set (wb_blocks wb). length b = BLOCK_SIZE"
      using wb(2) by (auto simp: wb_ok_def Suc_le_eq)
    then have le: "wb_len wb \<le> length (wb_blocks wb) * BLOCK_SIZE" by (cases "length (wb_blocks wb)") auto
    have "seri (wb_blocks wb) (wb_len wb) = Some bs" using seri_ok [OF l(4) le] wb(3) by (simp add: content_def)
    then show ?thesis using Some wb(1) by (simp add: luaseri_pack_def wb_free_def)
  qed
qed

end
