(* ===== verification/Seri_Read.thy ===== *)
theory Seri_Read
  imports Seri_Write
begin

text \<open>
  The serializer of Lua values, \<^verbatim>\<open>lualib-src/lua-seri.cpp\<close>, reading side. What the code builds is a
  \<open>uvalue\<close>: a table is the values set by \<open>lua_rawseti\<close> and the pairs set by \<open>lua_rawset\<close>, in order.

  The outer \<open>None\<close> is an access outside the buffer or fuel that ran out, the inner \<open>None\<close> a Lua error
  (an invalid stream, a NaN as a key, or a string of negative length, which \<open>lua_pushlstring\<close> refuses).
  The stack of the Lua state is not bounded. The fuel of \<open>unpack_one\<close> bounds the nesting of tables:
  every level reads a byte, so the length of the buffer is enough, which \<open>unpack_one_total\<close> proves.
\<close>

section \<open>Data\<close>

datatype uvalue = UNil | UBool bool | UInt u64 | UReal u64 | UStr bytes | UPtr u64
  | UTable "uvalue list" "(uvalue \<times> uvalue) list"

record read_block =
  rb_buffer :: bytes
  rb_len :: int
  rb_ptr :: int

section \<open>Operations\<close>

definition rball_init :: "bytes \<Rightarrow> int \<Rightarrow> read_block" where
  "rball_init buffer n = \<lparr>rb_buffer = buffer, rb_len = n, rb_ptr = 0\<rparr>"

definition rb_read :: "read_block \<Rightarrow> int \<Rightarrow> int option \<times> read_block" where
  "rb_read rb sz = (if rb_len rb < sz then (None, rb)
     else (Some (rb_ptr rb), rb\<lparr>rb_ptr := rb_ptr rb + sz, rb_len := rb_len rb - sz\<rparr>))"

text \<open>Reading \<open>n\<close> bytes through the pointer of \<open>rb_read\<close>; the null pointer is an invalid stream.\<close>

definition rb_fetch :: "read_block \<Rightarrow> nat \<Rightarrow> (bytes \<times> read_block) option option" where
  "rb_fetch rb n = (case rb_read rb (int n) of
     (None, rb) \<Rightarrow> Some None
   | (Some p, rb) \<Rightarrow> do { bs \<leftarrow> load_n (rb_buffer rb) (nat p) n; Some (Some (bs, rb)) })"

definition get_integer :: "read_block \<Rightarrow> nat \<Rightarrow> (u64 \<times> read_block) option option" where
  "get_integer rb cookie = (
     if cookie = TYPE_NUMBER_ZERO then Some (Some (0, rb))
     else if cookie = TYPE_NUMBER_BYTE then
       bind_ret (rb_fetch rb 1) (\<lambda>(bs, rb). Some (Some (ucast (bs ! 0), rb)))
     else if cookie = TYPE_NUMBER_WORD then
       bind_ret (rb_fetch rb 2) (\<lambda>(bs, rb). Some (Some (ucast (le16_get (bs ! 0) (bs ! 1)), rb)))
     else if cookie = TYPE_NUMBER_DWORD then
       bind_ret (rb_fetch rb 4) (\<lambda>(bs, rb). Some (Some (scast (le32_get (bs ! 0) (bs ! 1) (bs ! 2) (bs ! 3)), rb)))
     else if cookie = TYPE_NUMBER_QWORD then
       bind_ret (rb_fetch rb 8) (\<lambda>(bs, rb). Some (Some (le64_get bs, rb)))
     else Some None)"

definition get_real :: "read_block \<Rightarrow> (u64 \<times> read_block) option option" where
  "get_real rb = bind_ret (rb_fetch rb 8) (\<lambda>(bs, rb). Some (Some (le64_get bs, rb)))"

definition get_pointer :: "read_block \<Rightarrow> (u64 \<times> read_block) option option" where
  "get_pointer rb = bind_ret (rb_fetch rb 8) (\<lambda>(bs, rb). Some (Some (le64_get bs, rb)))"

definition get_buffer :: "read_block \<Rightarrow> int \<Rightarrow> (uvalue \<times> read_block) option option" where
  "get_buffer rb len = (case rb_read rb len of
     (None, rb) \<Rightarrow> Some None
   | (Some p, rb) \<Rightarrow> if len < 0 then Some None
       else do { bs \<leftarrow> load_n (rb_buffer rb) (nat p) (nat len); Some (Some (UStr bs, rb)) })"

type_synonym unpacker = "read_block \<Rightarrow> (uvalue \<times> read_block) option option"

text \<open>The loops of \<open>unpack_table\<close>; \<open>unpack\<close> is \<open>unpack_one\<close>.\<close>

primrec unpack_array :: "unpacker \<Rightarrow> nat \<Rightarrow> read_block \<Rightarrow> (uvalue list \<times> read_block) option option" where
  "unpack_array unpack 0 rb = Some (Some ([], rb))"
| "unpack_array unpack (Suc n) rb = bind_ret (unpack rb) (\<lambda>(v, rb).
     bind_ret (unpack_array unpack n rb) (\<lambda>(vs, rb). Some (Some (v # vs, rb))))"

definition nan_key :: "uvalue \<Rightarrow> bool" where
  "nan_key k = (case k of UReal n \<Rightarrow> is_nan n | _ \<Rightarrow> False)"

definition hash_step ::
  "unpacker \<Rightarrow> read_block \<times> (uvalue \<times> uvalue) list
   \<Rightarrow> ((read_block \<times> (uvalue \<times> uvalue) list) + ((uvalue \<times> uvalue) list \<times> read_block) option) option" where
  "hash_step unpack = (\<lambda>(rb, ps). do {
     r \<leftarrow> unpack rb;
     case r of
       None \<Rightarrow> Some (Inr None)
     | Some (k, rb) \<Rightarrow>
         if k = UNil then Some (Inr (Some (ps, rb)))
         else do {
           r \<leftarrow> unpack rb;
           case r of
             None \<Rightarrow> Some (Inr None)
           | Some (v, rb) \<Rightarrow> if nan_key k then Some (Inr None) else Some (Inl (rb, ps @ [(k, v)]))
         }
   })"

definition get_array_size :: "read_block \<Rightarrow> nat \<Rightarrow> (int \<times> read_block) option option" where
  "get_array_size rb array_size = (
     if array_size = MAX_COOKIE - 1 then
       bind_ret (rb_fetch rb 1) (\<lambda>(t, rb). do {
         let cookie = unat (drop_bit 3 (t ! 0));
         if unat (t ! 0 AND 7) \<noteq> TYPE_NUMBER \<or> cookie = TYPE_NUMBER_REAL then Some None
         else bind_ret (get_integer rb cookie) (\<lambda>(n, rb). Some (Some (sint (ucast n :: u32), rb)))
       })
     else Some (Some (int array_size, rb)))"

definition unpack_table :: "unpacker \<Rightarrow> read_block \<Rightarrow> nat \<Rightarrow> (uvalue \<times> read_block) option option" where
  "unpack_table unpack rb array_size =
     bind_ret (get_array_size rb array_size) (\<lambda>(n, rb).
     bind_ret (unpack_array unpack (nat n) rb) (\<lambda>(vs, rb).
     bind_ret (repeat_step (hash_step unpack) (rb, [])) (\<lambda>(ps, rb).
     Some (Some (UTable vs ps, rb)))))"

definition push_value :: "unpacker \<Rightarrow> read_block \<Rightarrow> nat \<Rightarrow> nat \<Rightarrow> (uvalue \<times> read_block) option option" where
  "push_value unpack rb type cookie = (
     if type = TYPE_NIL then Some (Some (UNil, rb))
     else if type = TYPE_BOOLEAN then Some (Some (UBool (cookie \<noteq> 0), rb))
     else if type = TYPE_NUMBER then
       if cookie = TYPE_NUMBER_REAL then bind_ret (get_real rb) (\<lambda>(n, rb). Some (Some (UReal n, rb)))
       else bind_ret (get_integer rb cookie) (\<lambda>(n, rb). Some (Some (UInt n, rb)))
     else if type = TYPE_USERDATA then bind_ret (get_pointer rb) (\<lambda>(p, rb). Some (Some (UPtr p, rb)))
     else if type = TYPE_SHORT_STRING then get_buffer rb (int cookie)
     else if type = TYPE_LONG_STRING then
       if cookie = 2 then
         bind_ret (rb_fetch rb 2) (\<lambda>(bs, rb). get_buffer rb (uint (le16_get (bs ! 0) (bs ! 1))))
       else if cookie \<noteq> 4 then Some None
       else
         bind_ret (rb_fetch rb 4) (\<lambda>(bs, rb). get_buffer rb (sint (le32_get (bs ! 0) (bs ! 1) (bs ! 2) (bs ! 3))))
     else if type = TYPE_TABLE then unpack_table unpack rb cookie
     else Some None)"

primrec unpack_one :: "nat \<Rightarrow> unpacker" where
  "unpack_one 0 = (\<lambda>rb. None)"
| "unpack_one (Suc fuel) = (\<lambda>rb. bind_ret (rb_fetch rb 1) (\<lambda>(t, rb).
     push_value (unpack_one fuel) rb (unat (t ! 0 AND 7)) (unat (drop_bit 3 (t ! 0)))))"

text \<open>The main loop, and the three kinds of arguments: none, a string, a pointer with a length.\<close>

definition unpack_step ::
  "nat \<Rightarrow> read_block \<times> uvalue list \<Rightarrow> ((read_block \<times> uvalue list) + uvalue list option) option" where
  "unpack_step fuel = (\<lambda>(rb, vs). case rb_read rb 1 of
     (None, rb) \<Rightarrow> Some (Inr (Some vs))
   | (Some p, rb) \<Rightarrow> do {
       t \<leftarrow> load (rb_buffer rb) (nat p);
       r \<leftarrow> push_value (unpack_one fuel) rb (unat (t AND 7)) (unat (drop_bit 3 t));
       case r of None \<Rightarrow> Some (Inr None) | Some (v, rb) \<Rightarrow> Some (Inl (rb, vs @ [v]))
     })"

datatype unpack_arg = A_Nil | A_String bytes | A_Pointer "bytes option" int

definition unpack_buffer :: "bytes \<Rightarrow> int \<Rightarrow> uvalue list option option" where
  "unpack_buffer buffer len = repeat_step (unpack_step (nat len)) (rball_init buffer len, [])"

definition luaseri_unpack :: "unpack_arg \<Rightarrow> uvalue list option option" where
  "luaseri_unpack a = (case a of
     A_Nil \<Rightarrow> Some (Some [])
   | A_String s \<Rightarrow> if to_int (length s) = 0 then Some (Some []) else unpack_buffer s (to_int (length s))
   | A_Pointer p len \<Rightarrow> if len = 0 then Some (Some [])
       else (case p of None \<Rightarrow> Some None | Some buffer \<Rightarrow> unpack_buffer buffer len))"

section \<open>Reading any input\<close>

definition rb_ok :: "read_block \<Rightarrow> bool" where
  "rb_ok rb \<longleftrightarrow> 0 \<le> rb_len rb \<and> 0 \<le> rb_ptr rb \<and> rb_ptr rb + rb_len rb \<le> int (length (rb_buffer rb))"

definition adv :: "read_block \<Rightarrow> nat \<Rightarrow> read_block" where
  "adv rb n = rb\<lparr>rb_ptr := rb_ptr rb + int n, rb_len := rb_len rb - int n\<rparr>"

definition rest :: "read_block \<Rightarrow> bytes" where
  "rest rb = take (nat (rb_len rb)) (drop (nat (rb_ptr rb)) (rb_buffer rb))"

lemma length_rest: "rb_ok rb \<Longrightarrow> length (rest rb) = nat (rb_len rb)"
  by (auto simp: rest_def rb_ok_def)

lemma adv_ok: "rb_ok rb \<Longrightarrow> n \<le> length (rest rb) \<Longrightarrow> rb_ok (adv rb n) \<and> rest (adv rb n) = drop n (rest rb)"
  using length_rest [of rb] by (auto simp: adv_def rb_ok_def rest_def drop_take nat_diff_distrib' nat_add_distrib add.commute)

lemma adv_adv: "adv (adv rb m) n = adv rb (m + n)" "adv rb 0 = rb"
  by (simp_all add: adv_def)

lemma rb_fetch_ok:
  "rb_ok rb \<Longrightarrow> rb_fetch rb n = Some (if n \<le> length (rest rb) then Some (take n (rest rb), adv rb n) else None)"
  using length_rest [of rb]
  by (auto simp: rb_fetch_def rb_read_def rb_ok_def adv_def rest_def load_n_def min_def le_nat_iff)

lemma get_buffer_ok:
  assumes "rb_ok rb"
  shows "get_buffer rb len = Some (if 0 \<le> len \<and> nat len \<le> length (rest rb)
     then Some (UStr (take (nat len) (rest rb)), adv rb (nat len)) else None)"
proof (cases "0 \<le> len")
  case True
  have "get_buffer rb len = bind_ret (rb_fetch rb (nat len)) (\<lambda>(bs, rb). Some (Some (UStr bs, rb)))"
  proof -
    obtain p r where r: "rb_read rb len = (p, r)" by force
    show ?thesis using True
      by (cases p) (auto simp: get_buffer_def rb_fetch_def bind_ret_def r split: Option.bind_splits)
  qed
  then show ?thesis using True by (simp add: rb_fetch_ok [OF assms])
next
  case False
  then show ?thesis using assms by (auto simp: get_buffer_def rb_read_def rb_ok_def)
qed

inductive wf_u :: "uvalue \<Rightarrow> bool" where
  "wf_u UNil" | "wf_u (UBool b)" | "wf_u (UInt x)" | "wf_u (UReal x)" | "wf_u (UStr s)" | "wf_u (UPtr p)"
| "\<forall>v\<in>set vs. wf_u v \<Longrightarrow> \<forall>(k, v)\<in>set ps. k \<noteq> UNil \<and> \<not> nan_key k \<and> wf_u k \<and> wf_u v \<Longrightarrow> wf_u (UTable vs ps)"

text \<open>An outcome that does not fault; a result has read at least \<open>m\<close> bytes and satisfies \<open>P\<close>.\<close>

definition fine :: "nat \<Rightarrow> ('a \<Rightarrow> bool) \<Rightarrow> read_block \<Rightarrow> ('a \<times> read_block) option option \<Rightarrow> bool" where
  "fine m P rb r \<longleftrightarrow> (\<exists>r'. r = Some r' \<and> (\<forall>x rb'. r' = Some (x, rb') \<longrightarrow>
     P x \<and> rb_ok rb' \<and> rb_len rb' + int m \<le> rb_len rb))"

lemma fine_error [simp]: "fine m P rb (Some None)"
  by (simp add: fine_def)

lemma fine_bind:
  assumes "fine m P rb r" "\<And>x rb'. P x \<Longrightarrow> rb_ok rb' \<Longrightarrow> rb_len rb' + int m \<le> rb_len rb \<Longrightarrow> fine 0 Q rb' (f (x, rb'))"
  shows "fine m Q rb (bind_ret r f)"
proof -
  obtain r' where r: "r = Some r'" "\<And>x rb'. r' = Some (x, rb') \<Longrightarrow> P x \<and> rb_ok rb' \<and> rb_len rb' + int m \<le> rb_len rb"
    using assms(1) by (auto simp: fine_def)
  show ?thesis
  proof (cases r')
    case None
    then show ?thesis using r by simp
  next
    case (Some y)
    obtain x rb' where y: "y = (x, rb')" by force
    then have "fine 0 Q rb' (f (x, rb'))" "rb_len rb' + int m \<le> rb_len rb" using r(2) assms(2) Some by blast+
    then show ?thesis using r(1) Some y by (fastforce simp: fine_def)
  qed
qed

lemma fine_return: "rb_ok rb \<Longrightarrow> P x \<Longrightarrow> fine 0 P rb (Some (Some (x, rb)))"
  by (simp add: fine_def)

lemma fine_weaken: "fine m P rb r \<Longrightarrow> n \<le> m \<Longrightarrow> fine n P rb r"
  by (fastforce simp: fine_def)

lemma fine_fetch: "rb_ok rb \<Longrightarrow> fine n (\<lambda>bs. length bs = n) rb (rb_fetch rb n)"
  using adv_ok [of rb n] by (auto simp: rb_fetch_ok fine_def adv_def)

lemma fine_map:
  assumes "fine m Q rb r" "\<And>x. Q x \<Longrightarrow> P (f x)"
  shows "fine m P rb (bind_ret r (\<lambda>(x, rb). Some (Some (f x, rb))))"
  using assms by (intro fine_bind [OF assms(1)]) (auto intro: fine_return)

lemma fine_fetch_map:
  "rb_ok rb \<Longrightarrow> (\<And>bs. P (f bs)) \<Longrightarrow> fine 0 P rb (bind_ret (rb_fetch rb n) (\<lambda>(bs, rb). Some (Some (f bs, rb))))"
  by (rule fine_weaken [OF fine_map [OF fine_fetch]]) auto

lemma fine_get_integer: "rb_ok rb \<Longrightarrow> fine 0 (\<lambda>x. True) rb (get_integer rb cookie)"
  by (simp add: get_integer_def fine_fetch_map fine_return)

lemma fine_get_buffer: "rb_ok rb \<Longrightarrow> fine 0 wf_u rb (get_buffer rb len)"
  using adv_ok [of rb "nat len"] by (auto simp: get_buffer_ok fine_def adv_def wf_u.intros)

text \<open>A reader that does not fault on fewer than \<open>f\<close> bytes, and reads at least one.\<close>

definition total_on :: "nat \<Rightarrow> unpacker \<Rightarrow> bool" where
  "total_on f unpack \<longleftrightarrow> (\<forall>rb. rb_ok rb \<longrightarrow> nat (rb_len rb) < f \<longrightarrow> fine 1 wf_u rb (unpack rb))"

lemma fine_unpack_array:
  "total_on f unpack \<Longrightarrow> rb_ok rb \<Longrightarrow> nat (rb_len rb) < f \<Longrightarrow> fine 0 (\<lambda>vs. \<forall>v\<in>set vs. wf_u v) rb (unpack_array unpack n rb)"
proof (induction n arbitrary: rb)
  case 0
  then show ?case by (simp add: fine_return)
next
  case (Suc n)
  have f1: "fine 1 wf_u rb (unpack rb)" using Suc.prems by (simp add: total_on_def)
  have f2: "fine 0 (\<lambda>vs. \<forall>v\<in>set vs. wf_u v) rb' (bind_ret (unpack_array unpack n rb') (\<lambda>(vs, rb). Some (Some (v # vs, rb))))"
    if "wf_u v" "rb_ok rb'" "rb_len rb' + int 1 \<le> rb_len rb" for v rb'
  proof -
    have "fine 0 (\<lambda>vs. \<forall>v\<in>set vs. wf_u v) rb' (unpack_array unpack n rb')" using Suc.prems that by (intro Suc.IH) auto
    then show ?thesis by (rule fine_map) (auto intro: that)
  qed
  have "fine 1 (\<lambda>vs. \<forall>v\<in>set vs. wf_u v) rb (unpack_array unpack (Suc n) rb)"
    using fine_bind [OF f1, where f = "\<lambda>(v, rb). bind_ret (unpack_array unpack n rb) (\<lambda>(vs, rb). Some (Some (v # vs, rb)))"] f2
    by simp
  then show ?case by (rule fine_weaken) simp
qed


lemma fineE:
  assumes "fine m P rb r"
  obtains "r = Some None" | x rb' where "r = Some (Some (x, rb'))" "P x" "rb_ok rb'" "rb_len rb' + int m \<le> rb_len rb"
proof -
  obtain r' where r: "r = Some r'" "\<And>x rb'. r' = Some (x, rb') \<Longrightarrow> P x \<and> rb_ok rb' \<and> rb_len rb' + int m \<le> rb_len rb"
    using assms by (auto simp: fine_def)
  show thesis using that r by (cases r') auto
qed

abbreviation wf_pairs :: "(uvalue \<times> uvalue) list \<Rightarrow> bool" where
  "wf_pairs ps \<equiv> \<forall>(k, v)\<in>set ps. k \<noteq> UNil \<and> \<not> nan_key k \<and> wf_u k \<and> wf_u v"

lemma hash_step_ok:
  assumes "total_on f unpack" "rb_ok rb" "nat (rb_len rb) < f" "wf_pairs ps"
  shows "(\<exists>rb' ps'. hash_step unpack (rb, ps) = Some (Inl (rb', ps')) \<and> rb_ok rb' \<and> wf_pairs ps' \<and> rb_len rb' < rb_len rb) \<or>
    (\<exists>r. hash_step unpack (rb, ps) = Some (Inr r) \<and> fine 0 wf_pairs rb (Some r))"
proof -
  have "fine 1 wf_u rb (unpack rb)" using assms by (simp add: total_on_def)
  then show ?thesis
  proof (cases rule: fineE)
    case 1
    then show ?thesis by (simp add: hash_step_def)
  next
    case (2 k rb1)
    have "fine 1 wf_u rb1 (unpack rb1)" using assms 2 by (simp add: total_on_def)
    then show ?thesis
    proof (cases rule: fineE)
      case 1
      then show ?thesis using 2 assms by (cases "k = UNil") (auto simp: hash_step_def fine_def)
    next
      case b: (2 v rb2)
      show ?thesis using 2 b assms
        by (cases "k = UNil"; cases "nan_key k") (auto simp: hash_step_def fine_def)
    qed
  qed
qed

lemma fine_hash:
  assumes "total_on f unpack"
  shows "rb_ok rb \<Longrightarrow> nat (rb_len rb) < f \<Longrightarrow> wf_pairs ps \<Longrightarrow>
    fine 0 wf_pairs rb (repeat_step (hash_step unpack) (rb, ps))"
proof (induction "nat (rb_len rb)" arbitrary: rb ps rule: less_induct)
  case less
  from hash_step_ok [OF assms less.prems] show ?case
  proof (elim disjE exE conjE)
    fix rb' ps' assume s: "hash_step unpack (rb, ps) = Some (Inl (rb', ps'))" "rb_ok rb'" "wf_pairs ps'" "rb_len rb' < rb_len rb"
    have "fine 0 wf_pairs rb' (repeat_step (hash_step unpack) (rb', ps'))"
      using s less.prems by (intro less.hyps) (auto simp: rb_ok_def)
    then show ?thesis using s by (auto simp: repeat_step_Inl fine_def)
  next
    fix r assume "hash_step unpack (rb, ps) = Some (Inr r)" "fine 0 wf_pairs rb (Some r)"
    then show ?thesis by (simp add: repeat_step_Inr)
  qed
qed

lemma fine_array_size: "rb_ok rb \<Longrightarrow> fine 0 (\<lambda>x. True) rb (get_array_size rb c)"
proof (cases "c = MAX_COOKIE - 1")
  case True
  assume ok: "rb_ok rb"
  have "fine 1 (\<lambda>x. True) rb (get_array_size rb c)"
    unfolding get_array_size_def if_P [OF True]
    by (rule fine_bind [OF fine_fetch [OF ok]]) (auto simp: Let_def intro: fine_map fine_get_integer)
  then show ?thesis by (rule fine_weaken) simp
qed (simp add: get_array_size_def fine_return)

lemma fine_unpack_table:
  assumes t: "total_on f unpack" and rb: "rb_ok rb" "nat (rb_len rb) < f"
  shows "fine 0 wf_u rb (unpack_table unpack rb c)"
  unfolding unpack_table_def
proof (rule fine_bind [OF fine_array_size [OF rb(1)]], simp only: prod.case)
  fix n rb1 assume 1: "rb_ok rb1" "rb_len rb1 + int 0 \<le> rb_len rb"
  show "fine 0 wf_u rb1 (bind_ret (unpack_array unpack (nat n) rb1) (\<lambda>(vs, rb).
      bind_ret (repeat_step (hash_step unpack) (rb, [])) (\<lambda>(ps, rb). Some (Some (UTable vs ps, rb)))))"
  proof (rule fine_bind [OF fine_unpack_array [OF t 1(1)]], simp_all only: prod.case)
    show "nat (rb_len rb1) < f" using 1 rb by simp
    fix vs rb2 assume 2: "rb_ok rb2" "rb_len rb2 + int 0 \<le> rb_len rb1" "\<forall>v\<in>set vs. wf_u v"
    have "fine 0 wf_pairs rb2 (repeat_step (hash_step unpack) (rb2, []))"
      using 1 2 rb by (intro fine_hash [OF t]) auto
    then show "fine 0 wf_u rb2 (bind_ret (repeat_step (hash_step unpack) (rb2, [])) (\<lambda>(ps, rb). Some (Some (UTable vs ps, rb))))"
      by (rule fine_map) (use 2 in \<open>auto intro: wf_u.intros\<close>)
  qed
qed

lemma fine_push_value:
  assumes t: "total_on f unpack" and rb: "rb_ok rb" "nat (rb_len rb) < f"
  shows "fine 0 wf_u rb (push_value unpack rb type cookie)"
proof -
  have str: "fine 0 wf_u rb (bind_ret (rb_fetch rb n) (\<lambda>(bs, rb). get_buffer rb (g bs)))" for n g
    by (rule fine_weaken [OF fine_bind [OF fine_fetch [OF rb(1)]]]) (auto intro: fine_get_buffer)
  have num: "fine 0 wf_u rb (bind_ret (get_integer rb cookie) (\<lambda>(n, rb). Some (Some (UInt n, rb))))"
    "fine 0 wf_u rb (bind_ret (get_real rb) (\<lambda>(n, rb). Some (Some (UReal n, rb))))"
    "fine 0 wf_u rb (bind_ret (get_pointer rb) (\<lambda>(n, rb). Some (Some (UPtr n, rb))))"
    unfolding get_real_def get_pointer_def
    by (rule fine_map [OF fine_get_integer [OF rb(1)]] fine_map [OF fine_fetch_map [OF rb(1), where P = "\<lambda>x. True"]];
      simp add: wf_u.intros)+
  have ret: "fine 0 wf_u rb (Some (Some (UNil, rb)))" "fine 0 wf_u rb (Some (Some (UBool b, rb)))" for b
    by (intro fine_return rb(1) wf_u.intros)+
  show ?thesis
    unfolding push_value_def using str num ret fine_get_buffer [OF rb(1)] fine_unpack_table [OF t rb] by simp
qed

lemma unpack_one_total: "total_on fuel (unpack_one fuel)"
proof (induction fuel)
  case 0
  then show ?case by (simp add: total_on_def)
next
  case (Suc fuel)
  show ?case
    unfolding total_on_def
  proof (intro allI impI)
    fix rb assume rb: "rb_ok rb" "nat (rb_len rb) < Suc fuel"
    have "fine 0 wf_u rb' (push_value (unpack_one fuel) rb' type cookie)"
      if "rb_ok rb'" "rb_len rb' + int 1 \<le> rb_len rb" for rb' type cookie
      using that rb by (intro fine_push_value [OF Suc]) (auto simp: rb_ok_def)
    then show "fine 1 wf_u rb (unpack_one (Suc fuel) rb)"
      unfolding unpack_one.simps by (intro fine_bind [OF fine_fetch [OF rb(1)]]) auto
  qed
qed

lemma unpack_step_ok:
  assumes rb: "rb_ok rb" "nat (rb_len rb) \<le> fuel" and vs: "\<forall>v\<in>set vs. wf_u v"
  shows "(\<exists>rb' vs'. unpack_step fuel (rb, vs) = Some (Inl (rb', vs')) \<and> rb_ok rb' \<and> (\<forall>v\<in>set vs'. wf_u v) \<and> rb_len rb' < rb_len rb) \<or>
    (\<exists>r. unpack_step fuel (rb, vs) = Some (Inr r) \<and> (\<forall>vs. r = Some vs \<longrightarrow> (\<forall>v\<in>set vs. wf_u v)))"
proof (cases "rb_len rb < 1")
  case True
  then show ?thesis using vs by (simp add: unpack_step_def rb_read_def)
next
  case False
  define rb1 where "rb1 = adv rb 1"
  have a: "rb_ok rb1" "rb_len rb1 < rb_len rb"
    using False adv_ok [OF rb(1), of 1] length_rest [OF rb(1)] by (auto simp: rb1_def) (simp add: adv_def)
  have rd: "rb_read rb 1 = (Some (rb_ptr rb), rb1)" using False by (simp add: rb_read_def adv_def rb1_def)
  have "nat (rb_ptr rb) < length (rb_buffer rb)" using rb False by (auto simp: rb_ok_def)
  then obtain t where t: "load (rb_buffer rb1) (nat (rb_ptr rb)) = Some t" by (simp add: load_def adv_def rb1_def)
  have "fine 0 wf_u rb1 (push_value (unpack_one fuel) rb1 (unat (t AND 7)) (unat (drop_bit 3 t)))"
    using rb a False by (intro fine_push_value [OF unpack_one_total]) auto
  then show ?thesis
  proof (cases rule: fineE)
    case 1
    then show ?thesis by (simp add: unpack_step_def rd t)
  next
    case (2 x rb')
    then show ?thesis using vs a(2) by (auto simp: unpack_step_def rd t)
  qed
qed

lemma unpack_buffer_total:
  assumes "len \<le> int (length buffer)"
  shows "\<exists>r. unpack_buffer buffer len = Some r \<and> (\<forall>vs. r = Some vs \<longrightarrow> (\<forall>v\<in>set vs. wf_u v))"
proof (cases "len < 0")
  case True
  then have "unpack_step (nat len) (rball_init buffer len, []) = Some (Inr (Some []))"
    by (simp add: unpack_step_def rb_read_def rball_init_def)
  then show ?thesis by (simp add: unpack_buffer_def repeat_step_Inr)
next
  case False
  let ?P = "\<lambda>(rb, vs). rb_ok rb \<and> nat (rb_len rb) \<le> nat len \<and> (\<forall>v\<in>set vs. wf_u v)"
  show ?thesis unfolding unpack_buffer_def
  proof (rule repeat_step_total [where P = ?P and m = "\<lambda>(rb, vs). nat (rb_len rb)"])
    show "?P (rball_init buffer len, [])" using False assms by (simp add: rball_init_def rb_ok_def)
    fix s assume "?P s"
    moreover obtain rb vs where s: "s = (rb, vs)" by force
    ultimately have p: "rb_ok rb" "nat (rb_len rb) \<le> nat len" "\<forall>v\<in>set vs. wf_u v" by auto
    from unpack_step_ok [OF p]
    show "(\<exists>s'. unpack_step (nat len) s = Some (Inl s') \<and> ?P s' \<and> (case s' of (rb, vs) \<Rightarrow> nat (rb_len rb)) < (case s of (rb, vs) \<Rightarrow> nat (rb_len rb))) \<or>
      (\<exists>r. unpack_step (nat len) s = Some (Inr r) \<and> (\<forall>vs. r = Some vs \<longrightarrow> (\<forall>v\<in>set vs. wf_u v)))"
      using p by (auto simp: s rb_ok_def)
  qed
qed


section \<open>Reading what was written\<close>

text \<open>The table a stream builds has the contents of the table it was made of.\<close>

inductive same :: "uvalue \<Rightarrow> lua_value \<Rightarrow> bool" where
  "same UNil LNil" | "same (UBool b) (LBool b)" | "same (UInt x) (LInt x)" | "same (UReal x) (LReal x)"
| "same (UStr s) (LStr s)" | "same (UPtr p) (LPtr p)"
| "list_all2 same us (array_part n es) \<Longrightarrow> list_all2 (rel_prod same same) ps (hash_part n es) \<Longrightarrow>
   same (UTable us ps) (LTable n es)"
| "list_all2 (rel_prod same same) ps es \<Longrightarrow> same (UTable [] ps) (LMeta es True)"
monos list.rel_mono_strong prod.rel_mono_strong

inductive_cases sameE: "same u LNil" "same UNil v" "same (UReal x) v"

definition parses :: "(read_block \<Rightarrow> ('a \<times> read_block) option option) \<Rightarrow> bytes \<Rightarrow> 'a \<Rightarrow> bool" where
  "parses up bs x \<longleftrightarrow> (\<forall>rb t. rb_ok rb \<and> rest rb = bs @ t \<longrightarrow> up rb = Some (Some (x, adv rb (length bs))))"

lemma parses_return: "parses (\<lambda>rb. Some (Some (x, rb))) [] x"
  by (simp add: parses_def adv_adv)

lemma parses_bind:
  assumes "parses up bs x" "parses (\<lambda>rb. f (x, rb)) cs y"
  shows "parses (\<lambda>rb. bind_ret (up rb) f) (bs @ cs) y"
  unfolding parses_def
proof (intro allI impI, elim conjE)
  fix rb t assume rb: "rb_ok rb" "rest rb = (bs @ cs) @ t"
  then have "up rb = Some (Some (x, adv rb (length bs)))" using assms(1) by (simp add: parses_def)
  moreover have "rb_ok (adv rb (length bs))" "rest (adv rb (length bs)) = cs @ t" using rb adv_ok [of rb "length bs"] by auto
  ultimately show "bind_ret (up rb) f = Some (Some (y, adv rb (length (bs @ cs))))"
    using assms(2) by (simp add: parses_def adv_adv)
qed

lemma parses_map: "parses up bs x \<Longrightarrow> parses (\<lambda>rb. bind_ret (up rb) (\<lambda>(x, rb). Some (Some (f x, rb)))) bs (f x)"
  using parses_bind [of up bs x "\<lambda>(x, rb). Some (Some (f x, rb))" "[]" "f x"] parses_return [of "f x"] by simp

lemma parses_fetch: "length bs = n \<Longrightarrow> parses (\<lambda>rb. rb_fetch rb n) bs bs"
  by (simp add: parses_def rb_fetch_ok)

lemma parses_buffer: "parses (\<lambda>rb. get_buffer rb (int (length s))) s (UStr s)"
  by (simp add: parses_def get_buffer_ok)

lemma byte_of_halves:
  fixes w :: u64
  assumes "i < 4"
  shows "byte_of i w = byte_of i (ucast w :: u32)" "byte_of (i + 4) w = byte_of i (ucast (drop_bit 32 w) :: u32)"
  using assms by (auto intro!: bit_word_eqI simp: bit_simps algebra_simps)

lemma le64_get_put: "le64_get (le64_put w) = w"
proof -
  have "le64_get (le64_put w) = ucast (ucast w :: u32) OR push_bit 32 (ucast (ucast (drop_bit 32 w) :: u32))"
    using byte_of_halves(2) [of 0 w] byte_of_halves(2) [of 1 w] byte_of_halves(2) [of 2 w] byte_of_halves(2) [of 3 w]
    by (simp add: le64_get_def le64_put_def byte_of_halves(1) le32_get_put [simplified])
  also have "\<dots> = w" by (rule bit_word_eqI) (auto simp: bit_simps)
  finally show ?thesis .
qed

lemma combine_type:
  assumes "t < 8" "c < 32"
  shows "unat (COMBINE_TYPE t c AND 7) = t" "unat (drop_bit 3 (COMBINE_TYPE t c)) = c"
proof -
  have "take_bit 3 t AND push_bit 3 c = 0" by (rule bit_eqI) (auto simp: bit_simps)
  then have "t AND push_bit 3 c = 0" using assms(1) by (simp add: take_bit_nat_eq_self)
  from disjunctive_add_eq_or [OF this] have "t OR push_bit 3 c = t + 8 * c" by (simp add: push_bit_eq_mult)
  moreover have "COMBINE_TYPE t c = of_nat (t OR push_bit 3 c)"
    by (simp only: COMBINE_TYPE_def of_nat_or_eq of_nat_push_bit)
  ultimately have "COMBINE_TYPE t c = of_nat (t + 8 * c)" by simp
  then have "unat (COMBINE_TYPE t c) = (t + 8 * c) mod 256" by (simp only: unat_of_nat) simp
  then have u: "unat (COMBINE_TYPE t c) = t + 8 * c" using assms by simp
  have "COMBINE_TYPE t c AND 7 = take_bit 3 (COMBINE_TYPE t c)" by (simp add: take_bit_eq_mask mask_eq_exp_minus_1)
  then show "unat (COMBINE_TYPE t c AND 7) = t" using assms by (simp only: unsigned_take_bit_eq u) (simp add: take_bit_eq_mod)
  show "unat (drop_bit 3 (COMBINE_TYPE t c)) = c" using assms by (simp only: unat_drop_bit_eq u) (simp add: drop_bit_eq_div)
qed

lemma narrow_words:
  fixes v :: u64
  assumes "0 \<le> sint v"
  shows "sint v < 0x100 \<Longrightarrow> ucast (ucast v :: byte) = v" "sint v < 0x10000 \<Longrightarrow> ucast (ucast v :: u16) = v"
proof -
  have u: "sint v < 0x10000 \<Longrightarrow> uint v = sint v" using assms by (simp add: uint_sint take_bit_int_eq_self)
  show "sint v < 0x100 \<Longrightarrow> ucast (ucast v :: byte) = v" "sint v < 0x10000 \<Longrightarrow> ucast (ucast v :: u16) = v"
    using assms u by (simp_all add: word_uint_eq_iff unsigned_ucast_eq unsigned_take_bit_eq take_bit_int_eq_self)
qed

text \<open>A value whose encoding is read back: its first byte, then what \<open>push_value\<close> does with the rest.\<close>

definition decodes :: "bytes \<Rightarrow> uvalue \<Rightarrow> bool" where
  "decodes bs u \<longleftrightarrow> (\<exists>t c cs. bs = COMBINE_TYPE t c # cs \<and> t < 8 \<and> c < 32 \<and>
     (\<forall>f \<ge> length cs. parses (\<lambda>rb. push_value (unpack_one f) rb t c) cs u))"

lemma decodesI:
  "t < 8 \<Longrightarrow> c < 32 \<Longrightarrow> (\<And>f. length cs \<le> f \<Longrightarrow> parses (\<lambda>rb. push_value (unpack_one f) rb t c) cs u) \<Longrightarrow>
   decodes (COMBINE_TYPE t c # cs) u"
  by (auto simp: decodes_def)

lemma decodes_unpack_one: "decodes bs u \<Longrightarrow> length bs \<le> f \<Longrightarrow> parses (unpack_one f) bs u"
proof -
  assume "decodes bs u" and f: "length bs \<le> f"
  then obtain t c cs where d: "bs = COMBINE_TYPE t c # cs" "t < 8" "c < 32"
    "\<And>f. length cs \<le> f \<Longrightarrow> parses (\<lambda>rb. push_value (unpack_one f) rb t c) cs u"
    by (auto simp: decodes_def)
  obtain g where g: "f = Suc g" using f d(1) by (cases f) auto
  have "parses (\<lambda>rb. (\<lambda>(t, rb). push_value (unpack_one g) rb (unat (t ! 0 AND 7)) (unat (drop_bit 3 (t ! 0)))) ([COMBINE_TYPE t c], rb)) cs u"
    using d(4) [of g] f d(1) g combine_type [OF d(2,3)] by simp
  from parses_bind [OF parses_fetch [of "[COMBINE_TYPE t c]" 1] this] show ?thesis by (simp add: g d(1))
qed

lemma get_integer_enc:
  obtains c cs where "enc_int v = COMBINE_TYPE TYPE_NUMBER c # cs" "c < 8" "parses (\<lambda>rb. get_integer rb c) cs v"
proof -
  note fetch = parses_map [OF parses_fetch]
  consider "v = 0" | "v \<noteq> 0" "v \<noteq> scast (ucast v :: u32)" | "v \<noteq> 0" "v = scast (ucast v :: u32)" "sint v < 0 \<or> 0x10000 \<le> sint v"
    | "v \<noteq> 0" "v = scast (ucast v :: u32)" "0 \<le> sint v" "sint v < 0x100"
    | "v \<noteq> 0" "v = scast (ucast v :: u32)" "0x100 \<le> sint v" "sint v < 0x10000"
    by linarith
  then show thesis
  proof cases
    case 1
    then show thesis using that [of TYPE_NUMBER_ZERO "[]"] parses_return [of "0 :: u64"]
      by (simp add: enc_int_def get_integer_def TYPE_NUMBER_ZERO_def)
  next
    case 2
    then show thesis using that [of TYPE_NUMBER_QWORD "le64_put v"] fetch [of "le64_put v" 8 le64_get]
      by (simp add: enc_int_def get_integer_def seri_types le64_get_put)
  next
    case 3
    have "enc_int v = COMBINE_TYPE TYPE_NUMBER TYPE_NUMBER_DWORD # le32_put (ucast v)"
      using 3(1,3) arg_cong [OF 3(2), of "\<lambda>w. v \<noteq> w"] by (auto simp: enc_int_def)
    moreover have "parses (\<lambda>rb. get_integer rb TYPE_NUMBER_DWORD) (le32_put (ucast v)) v"
      using fetch [of "le32_put (ucast v)" 4 "\<lambda>bs. scast (le32_get (bs ! 0) (bs ! 1) (bs ! 2) (bs ! 3)) :: u64"]
        3(2) [symmetric]
      by (simp add: get_integer_def seri_types le32_put_def le32_get_put [simplified])
    ultimately show thesis by (intro that) (auto simp: seri_types)
  next
    case 4
    then show thesis
      using that [of TYPE_NUMBER_BYTE "[ucast v]"] fetch [of "[ucast v]" 1 "\<lambda>bs. ucast (bs ! 0) :: u64"]
        narrow_words(1) [OF 4(3,4)]
      by (simp add: enc_int_def get_integer_def seri_types)
  next
    case 5
    then show thesis
      using that [of TYPE_NUMBER_WORD "le16_put (ucast v)"]
        fetch [of "le16_put (ucast v)" 2 "\<lambda>bs. ucast (le16_get (bs ! 0) (bs ! 1)) :: u64"] narrow_words(2) [of v]
      by (simp add: enc_int_def get_integer_def seri_types le16_put_def le16_get_put [simplified])
  qed
qed

lemma decodes_scalar:
  "decodes [0] UNil" "decodes [COMBINE_TYPE TYPE_BOOLEAN (if b then 1 else 0)] (UBool b)"
  "decodes (enc_int x) (UInt x)" "decodes (COMBINE_TYPE TYPE_NUMBER TYPE_NUMBER_REAL # le64_put x) (UReal x)"
  "decodes (of_nat TYPE_USERDATA # le64_put x) (UPtr x)"
proof -
  have z: "COMBINE_TYPE TYPE_NIL 0 = 0" "COMBINE_TYPE TYPE_USERDATA 0 = of_nat TYPE_USERDATA"
    by (simp_all add: COMBINE_TYPE_def seri_types)
  show "decodes [0] UNil" using decodesI [of TYPE_NIL 0 "[]" UNil] parses_return [of UNil] z
    by (simp add: push_value_def seri_types)
  show "decodes [COMBINE_TYPE TYPE_BOOLEAN (if b then 1 else 0)] (UBool b)"
    by (rule decodesI) (use parses_return [of "UBool b"] in \<open>auto simp: push_value_def seri_types\<close>)
  show "decodes (enc_int x) (UInt x)"
  proof (rule get_integer_enc [of x])
    fix c cs assume e: "enc_int x = COMBINE_TYPE TYPE_NUMBER c # cs" "c < 8" "parses (\<lambda>rb. get_integer rb c) cs x"
    show ?thesis unfolding e(1)
      by (rule decodesI) (use e(2) parses_map [OF e(3), of UInt] in \<open>auto simp: push_value_def seri_types\<close>)
  qed
  have f: "parses (\<lambda>rb. bind_ret (rb_fetch rb 8) (\<lambda>(bs, rb). Some (Some (le64_get bs, rb)))) (le64_put x) x"
    using parses_map [OF parses_fetch, of "le64_put x" 8 le64_get] by (simp add: le64_get_put)
  show "decodes (COMBINE_TYPE TYPE_NUMBER TYPE_NUMBER_REAL # le64_put x) (UReal x)"
    by (rule decodesI) (use parses_map [OF f, of UReal] in \<open>auto simp: push_value_def get_real_def seri_types\<close>)
  show "decodes (of_nat TYPE_USERDATA # le64_put x) (UPtr x)"
    unfolding z(2) [symmetric]
    by (rule decodesI) (use parses_map [OF f, of UPtr] in \<open>auto simp: push_value_def get_pointer_def seri_types\<close>)
qed

lemma scalar_decodes:
  "\<exists>u. same u LNil \<and> decodes [0] u" "\<exists>u. same u (LBool b) \<and> decodes [COMBINE_TYPE TYPE_BOOLEAN (if b then 1 else 0)] u"
  "\<exists>u. same u (LInt x) \<and> decodes (enc_int x) u"
  "\<exists>u. same u (LReal x) \<and> decodes (COMBINE_TYPE TYPE_NUMBER TYPE_NUMBER_REAL # le64_put x) u"
  "\<exists>u. same u (LPtr x) \<and> decodes (of_nat TYPE_USERDATA # le64_put x) u"
  by (rule exI, rule conjI, rule same.intros, rule decodes_scalar)+

lemma decodes_string: "length s < 2 ^ 31 \<Longrightarrow> decodes (enc_str s) (UStr s)"
proof -
  assume l: "length s < 2 ^ 31"
  have w: "length s < 0x10000 \<Longrightarrow> uint (of_nat (length s) :: u16) = int (length s)"
    by (simp add: uint_nat unat_of_nat)
  have dw: "sint (of_nat (length s) :: u32) = int (length s)" using to_int_small [OF l] by (simp add: to_int_def)
  consider "length s < MAX_COOKIE" | "MAX_COOKIE \<le> length s" "length s < 0x10000" | "0x10000 \<le> length s"
    by linarith
  then show ?thesis
  proof cases
    case 1
    then show ?thesis unfolding enc_str_def if_P [OF 1]
      by (intro decodesI) (use 1 parses_buffer [of s] in \<open>auto simp: push_value_def seri_types\<close>)
  next
    case 2
    let ?n = "le16_put (of_nat (length s))"
    have "parses (\<lambda>rb. bind_ret (rb_fetch rb 2) (\<lambda>(bs, rb). get_buffer rb (uint (le16_get (bs ! 0) (bs ! 1))))) (?n @ s) (UStr s)"
      using 2 w parses_buffer [of s] by (intro parses_bind [OF parses_fetch]) (simp_all add: le16_put_def le16_get_put [simplified])
    then have "decodes (COMBINE_TYPE TYPE_LONG_STRING 2 # (?n @ s)) (UStr s)"
      by (intro decodesI) (auto simp: push_value_def seri_types)
    then show ?thesis using 2 by (simp add: enc_str_def)
  next
    case 3
    let ?n = "le32_put (of_nat (length s))"
    have "parses (\<lambda>rb. bind_ret (rb_fetch rb 4) (\<lambda>(bs, rb). get_buffer rb (sint (le32_get (bs ! 0) (bs ! 1) (bs ! 2) (bs ! 3)))))
        (?n @ s) (UStr s)"
      using 3 dw parses_buffer [of s] by (intro parses_bind [OF parses_fetch]) (simp_all add: le32_put_def le32_get_put [simplified])
    then have "decodes (COMBINE_TYPE TYPE_LONG_STRING 4 # (?n @ s)) (UStr s)"
      by (intro decodesI) (auto simp: push_value_def seri_types)
    then show ?thesis using 3 by (simp add: enc_str_def MAX_COOKIE_def)
  qed
qed


text \<open>The parts of a table.\<close>

lemma cat_None: "None \<in> set xs \<Longrightarrow> cat xs = None"
  by (induction xs) (auto split: Option.bind_splits)

lemma cat_eq_Some: "cat (x # xs) = Some bs \<longleftrightarrow> (\<exists>a b. x = Some a \<and> cat xs = Some b \<and> bs = a @ b)"
  by (auto split: Option.bind_splits)

lemma array_size_enc:
  assumes "n < 2 ^ 31"
  obtains c cs where "enc_size n = COMBINE_TYPE TYPE_TABLE c # cs" "c < 32" "parses (\<lambda>rb. get_array_size rb c) cs (int n)"
proof (cases "n \<ge> MAX_COOKIE - 1")
  case False
  then show thesis using that [of n "[]"] parses_return [of "int n"] by (simp add: enc_size_def get_array_size_def MAX_COOKIE_def)
next
  case True
  obtain c cs where e: "enc_int (of_nat n) = COMBINE_TYPE TYPE_NUMBER c # cs" "c < 8" "parses (\<lambda>rb. get_integer rb c) cs (of_nat n)"
    by (rule get_integer_enc)
  have s: "sint (ucast (of_nat n :: u64) :: u32) = int n"
  proof -
    have "(ucast (of_nat n :: u64) :: u32) = of_nat n" by (rule bit_word_eqI) (simp add: bit_simps)
    then show ?thesis using to_int_small [OF assms] by (simp add: to_int_def)
  qed
  have "parses (\<lambda>rb. bind_ret (get_integer rb c) (\<lambda>(n, rb). Some (Some (sint (ucast n :: u32), rb)))) cs (int n)"
    using parses_map [OF e(3), of "\<lambda>n. sint (ucast n :: u32)"] s by simp
  then have "parses (\<lambda>rb. get_array_size rb (MAX_COOKIE - 1)) ([COMBINE_TYPE TYPE_NUMBER c] @ cs) (int n)"
    using e(2) combine_type [of TYPE_NUMBER c] unfolding get_array_size_def
    by (simp only: if_True simp_thms, intro parses_bind [OF parses_fetch]) (simp_all add: Let_def seri_types)
  then show thesis using that [of "MAX_COOKIE - 1" "enc_int (of_nat n)"] True e(1) by (simp add: enc_size_def MAX_COOKIE_def)
qed

lemma parses_array:
  assumes "\<And>v bs. v \<in> set vs \<Longrightarrow> e v = Some bs \<Longrightarrow> \<exists>u. same u v \<and> decodes bs u" "cat (map e vs) = Some bs"
  shows "\<exists>us. list_all2 same us vs \<and> (\<forall>f \<ge> length bs. parses (unpack_array (unpack_one f) (length vs)) bs us)"
  using assms
proof (induction vs arbitrary: bs)
  case Nil
  then show ?case using parses_return [of "[] :: uvalue list"] by simp
next
  case (Cons v vs)
  obtain a b where ab: "e v = Some a" "cat (map e vs) = Some b" "bs = a @ b"
    using Cons.prems(2) by (simp only: list.map cat_eq_Some) blast
  obtain u where u: "same u v" "decodes a u" using Cons.prems(1) ab(1) by (metis list.set_intros(1))
  obtain us where us: "list_all2 same us vs" "\<And>f. length b \<le> f \<Longrightarrow> parses (unpack_array (unpack_one f) (length vs)) b us"
    using Cons.IH [OF Cons.prems(1) ab(2)] by auto
  have "parses (unpack_array (unpack_one f) (length (v # vs))) bs (u # us)" if "length bs \<le> f" for f
    unfolding list.size(4) add_Suc_right add_0_right unpack_array.simps ab(3)
    using that ab(3) us(2) [of f] decodes_unpack_one [OF u(2), of f]
    by (intro parses_bind) (auto intro: parses_map)
  then show ?case using u(1) us(1) by blast
qed

lemma same_key: "same u k \<Longrightarrow> key_ok k \<Longrightarrow> u \<noteq> UNil \<and> \<not> nan_key u"
  by (auto simp: key_ok_def nan_key_def elim: same.cases)

lemma parses_hash:
  assumes "\<And>k v bs. (k, v) \<in> set ps \<Longrightarrow> key_ok k \<and> (e k = Some bs \<longrightarrow> (\<exists>u. same u k \<and> decodes bs u)) \<and>
      (e v = Some bs \<longrightarrow> (\<exists>u. same u v \<and> decodes bs u))"
    and "enc_pairs e ps = Some bs"
  shows "\<exists>us. list_all2 (rel_prod same same) us ps \<and>
    (\<forall>f > length bs. \<forall>acc. parses (\<lambda>rb. repeat_step (hash_step (unpack_one f)) (rb, acc)) (bs @ [0]) (acc @ us))"
  using assms
proof (induction ps arbitrary: bs)
  case Nil
  then have bs: "bs = []" by (simp add: enc_pairs_def)
  have "repeat_step (hash_step (unpack_one f)) (rb, acc) = Some (Some (acc, adv rb 1))"
    if "0 < f" "rb_ok rb" "rest rb = [0] @ t" for f acc rb t
  proof -
    have "unpack_one f rb = Some (Some (UNil, adv rb 1))"
      using decodes_unpack_one [OF decodes_scalar(1), of f] that by (simp add: parses_def)
    then show ?thesis by (intro repeat_step_Inr) (simp add: hash_step_def)
  qed
  then show ?case by (auto simp: bs parses_def)
next
  case (Cons p ps)
  obtain k v where p: "p = (k, v)" by force
  obtain a b c where abc: "e k = Some a" "e v = Some b" "enc_pairs e ps = Some c" "bs = a @ b @ c"
    using Cons.prems(2) by (auto simp: p enc_pairs_def split: Option.bind_splits)
  obtain uk uv where u: "same uk k" "decodes a uk" "same uv v" "decodes b uv" "key_ok k"
    using Cons.prems(1) [of k v a] Cons.prems(1) [of k v b] abc(1,2) by (auto simp: p)
  obtain us where us: "list_all2 (rel_prod same same) us ps"
    "\<And>f acc. length c < f \<Longrightarrow> parses (\<lambda>rb. repeat_step (hash_step (unpack_one f)) (rb, acc)) (c @ [0]) (acc @ us)"
    using Cons.IH [OF Cons.prems(1) abc(3)] by auto
  have "repeat_step (hash_step (unpack_one f)) (rb, acc) = Some (Some (acc @ (uk, uv) # us, adv rb (length (bs @ [0]))))"
    if f: "length bs < f" and rb: "rb_ok rb" "rest rb = (bs @ [0]) @ t" for f acc rb t
  proof -
    let ?rb1 = "adv rb (length a)" let ?rb2 = "adv ?rb1 (length b)"
    have 1: "unpack_one f rb = Some (Some (uk, ?rb1))"
      using decodes_unpack_one [OF u(2), of f] f rb abc(4) by (simp add: parses_def)
    have rb1: "rb_ok ?rb1" "rest ?rb1 = b @ c @ [0] @ t" using adv_ok [OF rb(1), of "length a"] rb abc(4) by auto
    have 2: "unpack_one f ?rb1 = Some (Some (uv, ?rb2))"
      using decodes_unpack_one [OF u(4), of f] f rb1 abc(4) by (simp add: parses_def)
    have rb2: "rb_ok ?rb2" "rest ?rb2 = (c @ [0]) @ t" using adv_ok [OF rb1(1), of "length b"] rb1 by auto
    have "hash_step (unpack_one f) (rb, acc) = Some (Inl (?rb2, acc @ [(uk, uv)]))"
      using same_key [OF u(1,5)] by (simp add: hash_step_def 1 2)
    moreover have "repeat_step (hash_step (unpack_one f)) (?rb2, acc @ [(uk, uv)]) =
        Some (Some ((acc @ [(uk, uv)]) @ us, adv ?rb2 (length (c @ [0]))))"
      using us(2) [of f "acc @ [(uk, uv)]"] f abc(4) rb2 unfolding parses_def by simp
    ultimately show ?thesis by (simp add: repeat_step_Inl adv_adv abc(4) add.assoc)
  qed
  then have "parses (\<lambda>rb. repeat_step (hash_step (unpack_one f)) (rb, acc)) (bs @ [0]) (acc @ (uk, uv) # us)"
    if "length bs < f" for f acc using that by (auto simp: parses_def)
  then show ?case using us(1) u by (intro exI [of _ "(uk, uv) # us"]) (simp add: p)
qed


lemma decodes_table:
  assumes n: "n < 2 ^ 31" and arr: "\<And>f. length a \<le> f \<Longrightarrow> parses (unpack_array (unpack_one f) n) a us"
    and hash: "\<And>f. length h < f \<Longrightarrow> parses (\<lambda>rb. repeat_step (hash_step (unpack_one f)) (rb, [])) (h @ [0]) ps"
  shows "decodes (enc_size n @ a @ h @ [0]) (UTable us ps)"
proof -
  obtain c cs where s: "enc_size n = COMBINE_TYPE TYPE_TABLE c # cs" "c < 32" "parses (\<lambda>rb. get_array_size rb c) cs (int n)"
    by (rule array_size_enc [OF n])
  have "parses (\<lambda>rb. unpack_table (unpack_one f) rb c) (cs @ a @ h @ [0]) (UTable us ps)" if "length (cs @ a @ h @ [0]) \<le> f" for f
  proof -
    have 1: "parses (\<lambda>rb. bind_ret (repeat_step (hash_step (unpack_one f)) (rb, [])) (\<lambda>(ps, rb). Some (Some (UTable us ps, rb))))
        (h @ [0]) (UTable us ps)"
      using that by (intro parses_map hash) simp
    have 2: "parses (\<lambda>rb. bind_ret (unpack_array (unpack_one f) n rb) (\<lambda>(vs, rb). bind_ret (repeat_step (hash_step (unpack_one f)) (rb, []))
        (\<lambda>(ps, rb). Some (Some (UTable vs ps, rb))))) (a @ h @ [0]) (UTable us ps)"
      using that 1 by (intro parses_bind [OF arr]) simp_all
    show ?thesis unfolding unpack_table_def using 2 by (intro parses_bind [OF s(3)]) simp
  qed
  then show ?thesis unfolding s(1) append_Cons
    by (intro decodesI) (use s(2) in \<open>auto simp: push_value_def seri_types\<close>)
qed

lemma enc_decodes: "enc_value depth v = Some bs \<Longrightarrow> wf_lua v \<Longrightarrow> \<exists>u. same u v \<and> decodes bs u"
proof (induction "33 - depth" arbitrary: depth v bs rule: less_induct)
  case less
  have d: "\<not> depth > MAX_DEPTH" using less.prems(1) by (auto simp: enc_value.simps split: if_splits)
  then have IH: "enc_value (depth + 1) v = Some bs \<Longrightarrow> wf_lua v \<Longrightarrow> \<exists>u. same u v \<and> decodes bs u" for v bs
    by (intro less.hyps) (auto simp: MAX_DEPTH_def)
  let ?e = "enc_value (depth + 1)"
  have hash_ex: "\<exists>us. list_all2 (rel_prod same same) us ps \<and>
      (\<forall>f > length h. parses (\<lambda>rb. repeat_step (hash_step (unpack_one f)) (rb, [])) (h @ [0]) us)"
    if h: "enc_pairs ?e ps = Some h" and ps: "\<And>k v. (k, v) \<in> set ps \<Longrightarrow> key_ok k \<and> wf_lua k \<and> wf_lua v" for ps h
  proof -
    have "\<exists>us. list_all2 (rel_prod same same) us ps \<and>
        (\<forall>f > length h. \<forall>acc. parses (\<lambda>rb. repeat_step (hash_step (unpack_one f)) (rb, acc)) (h @ [0]) (acc @ us))"
      by (rule parses_hash [OF _ h]) (use ps IH in blast)
    then show ?thesis by (metis append_Nil)
  qed
  show ?case
  proof (cases v)
    case (LTable n es)
    have n: "n < 2 ^ 31" and es: "\<And>k v. (k, v) \<in> set es \<Longrightarrow> key_ok k \<and> wf_lua k \<and> wf_lua v"
      using less.prems LTable by (auto elim: wf_luaE)
    have "enc_table ?e n es = Some bs" using less.prems(1) d LTable by (simp add: enc_value.simps [of depth])
    then obtain a h where ah: "cat (map ?e (array_part n es)) = Some a" "enc_pairs ?e (hash_part n es) = Some h"
      "bs = enc_size n @ a @ h @ [0]"
      by (auto simp: enc_table_def split: Option.bind_splits)
    have wf: "wf_lua v" if "v \<in> set (array_part n es)" for v
    proof -
      obtain i where "v = lua_rawgeti es i" using \<open>v \<in> _\<close> by (auto simp: array_part_def)
      then show ?thesis using rawgeti_in [of es i] es wf_lua.intros(1) by metis
    qed
    have "\<exists>us. list_all2 same us (array_part n es) \<and>
        (\<forall>f \<ge> length a. parses (unpack_array (unpack_one f) (length (array_part n es))) a us)"
      by (rule parses_array [OF _ ah(1)]) (rule IH, simp, rule wf)
    moreover have "length (array_part n es) = n" by (simp add: array_part_def)
    ultimately obtain us where us: "list_all2 same us (array_part n es)"
      "\<And>f. length a \<le> f \<Longrightarrow> parses (unpack_array (unpack_one f) n) a us"
      by auto
    have "key_ok k \<and> wf_lua k \<and> wf_lua v" if "(k, v) \<in> set (hash_part n es)" for k v
      using es [of k v] that by (simp add: hash_part_def)
    then obtain ps where ps: "list_all2 (rel_prod same same) ps (hash_part n es)"
      "\<And>f. length h < f \<Longrightarrow> parses (\<lambda>rb. repeat_step (hash_step (unpack_one f)) (rb, [])) (h @ [0]) ps"
      using hash_ex [OF ah(2)] by blast
    show ?thesis using decodes_table [OF n us(2) ps(2)] same.intros(7) [OF us(1) ps(1)] ah(3) LTable by blast
  next
    case (LMeta ms ok)
    have es: "\<And>k v. (k, v) \<in> set ms \<Longrightarrow> key_ok k \<and> wf_lua k \<and> wf_lua v"
      using less.prems LMeta by (auto elim: wf_luaE)
    have "enc_meta ?e ms ok = Some bs" using less.prems(1) d LMeta by (simp add: enc_value.simps [of depth])
    then obtain h where h: "ok" "enc_pairs ?e ms = Some h" "bs = enc_size 0 @ [] @ h @ [0]"
      by (auto simp: enc_meta_def split: Option.bind_splits if_splits)
    obtain ps where ps: "list_all2 (rel_prod same same) ps ms"
      "\<And>f. length h < f \<Longrightarrow> parses (\<lambda>rb. repeat_step (hash_step (unpack_one f)) (rb, [])) (h @ [0]) ps"
      using hash_ex [OF h(2)] es by blast
    have "decodes bs (UTable [] ps)" unfolding h(3)
      using ps(2) by (intro decodes_table) (simp_all add: parses_def adv_adv)
    then show ?thesis using same.intros(8) [OF ps(1)] h(1) LMeta by auto
  next
    case (LStr s)
    then have "length s < 2 ^ 31" using less.prems(2) by (auto elim: wf_luaE)
    moreover have "bs = enc_str s" using less.prems(1) d LStr by (simp add: enc_value.simps [of depth])
    ultimately show ?thesis using decodes_string [of s] same.intros(5) [of s] LStr by blast
  qed (use less.prems(1) d scalar_decodes in \<open>auto simp: enc_value.simps [of depth] simp del: One_nat_def split del: if_split\<close>)
qed

lemma unpack_step_decodes:
  assumes "decodes bs u" "rb_ok rb" "rest rb = bs @ t" "length bs \<le> f"
  shows "unpack_step f (rb, us) = Some (Inl (adv rb (length bs), us @ [u]))"
proof -
  obtain ty c cs where d: "bs = COMBINE_TYPE ty c # cs" "ty < 8" "c < 32" "parses (\<lambda>rb. push_value (unpack_one f) rb ty c) cs u"
    using assms(1,4) by (auto simp: decodes_def)
  have len: "1 \<le> rb_len rb" "nat (rb_len rb) = length bs + length t" using length_rest [OF assms(2)] assms(3) d(1) by auto
  have rd: "rb_read rb 1 = (Some (rb_ptr rb), adv rb 1)" using len by (simp add: rb_read_def adv_def)
  have lt: "nat (rb_ptr rb) < length (rb_buffer rb)" using len assms(2) by (auto simp: rb_ok_def)
  then have "rest rb ! 0 = rb_buffer rb ! nat (rb_ptr rb)" using len(1) by (simp add: rest_def)
  with lt have ld: "load (rb_buffer (adv rb 1)) (nat (rb_ptr rb)) = Some (COMBINE_TYPE ty c)"
    using assms(3) d(1) by (simp add: load_def adv_def)
  have "push_value (unpack_one f) (adv rb 1) ty c = Some (Some (u, adv rb (length bs)))"
    using d(4) adv_ok [OF assms(2), of 1] assms(3) d(1) by (simp add: parses_def adv_adv)
  then show ?thesis using ld by (simp add: unpack_step_def rd combine_type [OF d(2,3)])
qed

lemma unpack_all:
  assumes "cat (map (enc_value 0) vs) = Some bs" "\<forall>v\<in>set vs. wf_lua v"
  shows "\<exists>us. list_all2 same us vs \<and> (\<forall>f \<ge> length bs. \<forall>rb acc. rb_ok rb \<longrightarrow> rest rb = bs \<longrightarrow>
    repeat_step (unpack_step f) (rb, acc) = Some (Some (acc @ us)))"
  using assms
proof (induction vs arbitrary: bs)
  case Nil
  have "unpack_step f (rb, acc) = Some (Inr (Some acc))" if "rb_ok rb" "rest rb = []" for f rb acc
    using that length_rest [OF that(1)] by (simp add: unpack_step_def rb_read_def)
  then show ?case using Nil by (auto simp: repeat_step_Inr)
next
  case (Cons v vs)
  obtain a b where ab: "enc_value 0 v = Some a" "cat (map (enc_value 0) vs) = Some b" "bs = a @ b"
    using Cons.prems(1) by (simp only: list.map cat_eq_Some) blast
  obtain u where u: "same u v" "decodes a u" using enc_decodes [OF ab(1)] Cons.prems(2) by auto
  obtain us where us: "list_all2 same us vs" "\<And>f rb acc. length b \<le> f \<Longrightarrow> rb_ok rb \<Longrightarrow> rest rb = b \<Longrightarrow>
      repeat_step (unpack_step f) (rb, acc) = Some (Some (acc @ us))"
    using Cons.IH [OF ab(2)] Cons.prems(2) by auto
  have "repeat_step (unpack_step f) (rb, acc) = Some (Some (acc @ u # us))"
    if "length bs \<le> f" "rb_ok rb" "rest rb = bs" for f rb acc
    using unpack_step_decodes [OF u(2) that(2), of b f acc] us(2) [of f "adv rb (length a)" "acc @ [u]"]
      adv_ok [OF that(2), of "length a"] that ab(3)
    by (simp add: repeat_step_Inl)
  then show ?case using u(1) us(1) by blast
qed

section \<open>Properties\<close>

text \<open>
  C32. What was packed is unpacked: for well-formed values that pack without an error, the buffer
  unpacks to values with the same contents, in the same order, nested tables and tables with
  \<open>__pairs\<close> included.
\<close>

theorem seri_round_trip:
  assumes wf: "\<forall>v\<in>set vs. wf_lua v" and p: "luaseri_pack vs = Some (Some (bs, freed))" and l: "length bs < 2 ^ 31"
  shows "\<exists>us. luaseri_unpack (A_String bs) = Some (Some us) \<and>
    luaseri_unpack (A_Pointer (Some bs) (int (length bs))) = Some (Some us) \<and> list_all2 same us vs"
proof -
  have e: "cat (map (enc_value 0) vs) = Some bs"
    using luaseri_pack_enc [OF wf] p by (auto simp: enc_all_def split: option.splits)
  have rb: "rb_ok (rball_init bs (int (length bs)))" "rest (rball_init bs (int (length bs))) = bs"
    by (simp_all add: rball_init_def rb_ok_def rest_def)
  obtain us where us: "list_all2 same us vs" "unpack_buffer bs (int (length bs)) = Some (Some us)"
    using unpack_all [OF e wf] rb by (auto simp: unpack_buffer_def)
  have "us = []" if "bs = []"
    using us(2) that by (simp add: unpack_buffer_def rball_init_def unpack_step_def rb_read_def repeat_step_Inr)
  then show ?thesis using us to_int_small [OF l] by (cases "bs = []") (auto simp: luaseri_unpack_def)
qed

lemma seri_example:
  "wf_lua (LTable 2 [(LInt 1, LBool True), (LInt 2, LBool False)])" "enc_all [LTable 2 [(LInt 1, LBool True), (LInt 2, LBool False)], LNil] = Some [22, 9, 1, 0, 0]"
  by (auto simp: key_ok_def intro!: wf_lua.intros)
    (simp add: enc_all_def enc_value.simps MAX_DEPTH_def enc_table_def enc_pairs_def enc_size_def array_part_def hash_part_def
      lua_rawgeti_def in_array_def COMBINE_TYPE_def seri_types upt_rec [of "Suc 0"] upt_rec [of "Suc (Suc 0)"])

theorem seri_round_trip_witness:
  "\<exists>freed us. luaseri_pack [LTable 2 [(LInt 1, LBool True), (LInt 2, LBool False)], LNil] = Some (Some ([22, 9, 1, 0, 0], freed)) \<and>
     luaseri_unpack (A_String [22, 9, 1, 0, 0]) = Some (Some us) \<and> list_all2 same us [LTable 2 [(LInt 1, LBool True), (LInt 2, LBool False)], LNil]"
proof -
  let ?vs = "[LTable 2 [(LInt 1, LBool True), (LInt 2, LBool False)], LNil]"
  have wf: "\<forall>v\<in>set ?vs. wf_lua v" using seri_example(1) wf_lua.intros(1) by simp
  obtain freed where p: "luaseri_pack ?vs = Some (Some ([22, 9, 1, 0, 0], freed))"
    using luaseri_pack_enc [OF wf] by (auto simp: seri_example(2))
  from seri_round_trip [OF wf p] p show ?thesis by auto
qed

text \<open>
  C33. Packing writes the reference encoding: the chain of 128-byte blocks is transparent, packing stays inside
  its blocks and ends for every well-formed value, and it raises an error exactly when the
  encoding does (a value that cannot be serialized, a failing iterator, or tables nested too deeply).
\<close>

theorem pack_writes_encoding:
  assumes "\<forall>v\<in>set vs. wf_lua v"
  shows "\<exists>r. luaseri_pack vs = Some r \<and> map_option fst r = enc_all vs"
  using luaseri_pack_enc [OF assms] by (auto split: option.splits)

theorem pack_writes_encoding_witness:
  "\<exists>r. luaseri_pack [LTable 2 [(LInt 1, LBool True), (LInt 2, LBool False)], LNil] = Some r \<and> map_option fst r = Some [22, 9, 1, 0, 0]"
proof -
  have "\<forall>v\<in>set [LTable 2 [(LInt 1, LBool True), (LInt 2, LBool False)], LNil]. wf_lua v" using seri_example(1) wf_lua.intros(1) by simp
  from pack_writes_encoding [OF this] show ?thesis by (simp add: seri_example(2))
qed

text \<open>
  C34. Unpacking is total and type correct on any bytes: whatever a string or a pointer with a length contains,
  unpacking ends, stays inside the buffer, and either raises a Lua error or returns values
  in which every key is neither nil nor a NaN.
\<close>

theorem unpack_any_input:
  assumes "length s < 2 ^ 31" "len \<le> int (length s)"
  shows "\<forall>a\<in>{A_Nil, A_String s, A_Pointer None len, A_Pointer (Some s) len}.
    \<exists>r. luaseri_unpack a = Some r \<and> (\<forall>vs. r = Some vs \<longrightarrow> (\<forall>v\<in>set vs. wf_u v))"
proof -
  have "to_int (length s) \<le> int (length s)" using to_int_small [OF assms(1)] by simp
  then show ?thesis
    using unpack_buffer_total [of "to_int (length s)" s] unpack_buffer_total [OF assms(2)]
    by (auto simp: luaseri_unpack_def)
qed


theorem unpack_any_input_witness:
  "\<exists>r. luaseri_unpack (A_String [6, 66, 0xff]) = Some r \<and> (\<forall>vs. r = Some vs \<longrightarrow> (\<forall>v\<in>set vs. wf_u v))"
  using unpack_any_input [of "[6, 66, 0xff]" 3] by simp

text \<open>
  A table that contains itself, as a value or as a key, cannot be packed: packing does not recurse for ever but raises
  the Lua error of a table that is too deep.
\<close>

theorem cyclic_table_refused:
  assumes "v = LTable n es" "wf_lua v" "(k, x) \<in> set es" "k = v \<or> x = v" "\<not> in_array (int n) k"
  shows "luaseri_pack [v] = Some None"
proof -
  have "enc_value d v = None" for d
  proof (induction "33 - d" arbitrary: d rule: less_induct)
    case less
    show ?case
    proof (cases "d > MAX_DEPTH")
      case False
      then have "enc_value (d + 1) v = None" by (intro less) (auto simp: MAX_DEPTH_def)
      then have "cat [enc_value (d + 1) k, enc_value (d + 1) x] = None" using assms(4) by (intro cat_None) auto
      moreover have "(k, x) \<in> set (hash_part n es)" using assms by (simp add: hash_part_def)
      ultimately have "enc_pairs (enc_value (d + 1)) (hash_part n es) = None"
        unfolding enc_pairs_def by (intro cat_None) force
      then have "enc_table (enc_value (d + 1)) n es = None" unfolding enc_table_def by (intro cat_None) simp
      then show ?thesis using assms(1) by (simp add: enc_value.simps [of d])
    qed (simp add: enc_value.simps)
  qed
  then show ?thesis using luaseri_pack_enc [of "[v]"] assms(2) by (simp add: enc_all_def)
qed

primcorec self_table :: lua_value where
  "self_table = LTable 0 (map (map_prod (\<lambda>_. LBool True) (\<lambda>_. self_table)) [((), ())])"

theorem cyclic_table_refused_witness: "luaseri_pack [self_table] = Some None"
proof -
  have eq: "self_table = LTable 0 [(LBool True, self_table)]" by (subst self_table.code) simp
  have "wf_lua self_table"
  proof (coinduction)
    case wf_lua
    show ?case by (subst eq, subst eq) (auto simp: key_ok_def intro: wf_lua.intros)
  qed
  with eq show ?thesis
    by (intro cyclic_table_refused [of _ 0 "[(LBool True, self_table)]" "LBool True" self_table]) (auto simp: in_array_def)
qed

end
