(* ===== verification/Server.thy ===== *)
theory Server
  imports Handle_Table Global_Queue
begin

text \<open>
  The server: the contexts of the services with their reference counts
  (\<^verbatim>\<open>fengnet-src/fengnet_server.cpp\<close>), sending a message (\<open>fengnet_send\<close> and \<open>fengnet_error\<close> of
  \<^verbatim>\<open>fengnet-src/fengnet.cpp\<close>), the harbor (\<^verbatim>\<open>fengnet-src/fengnet_harbor.cpp\<close>) and the monitor of the workers
  (\<^verbatim>\<open>fengnet-src/fengnet_monitor.cpp\<close>). It composes the handle table and the message queues.

  Contexts, message data and remote messages are objects with identity: \<open>sv_ctxs\<close> and \<open>sv_mem\<close> map the
  addresses in use to them, and \<open>sv_brk\<close> is the address the allocator returns next. Every operation runs
  as one step. \<open>None\<close> is the use of a freed object, a failed \<open>assert\<close> or signed overflow.
  The code of the modules, loaded from shared libraries, is a parameter.
\<close>

section \<open>Data\<close>

definition PTYPE_TEXT :: int where "PTYPE_TEXT = 0"
definition PTYPE_SYSTEM :: int where "PTYPE_SYSTEM = 4"
definition PTYPE_HARBOR :: int where "PTYPE_HARBOR = 5"
definition PTYPE_ERROR :: int where "PTYPE_ERROR = 7"
definition PTYPE_TAG_DONTCOPY :: int where "PTYPE_TAG_DONTCOPY = 0x10000"
definition PTYPE_TAG_ALLOCSESSION :: int where "PTYPE_TAG_ALLOCSESSION = 0x20000"
definition MSG_TYPE_SHIFT :: nat where "MSG_TYPE_SHIFT = 56"
definition MESSAGE_TYPE_MASK :: u64 where "MESSAGE_TYPE_MASK = drop_bit 8 (-1)"

text \<open>
  A context without its log file, its processor times and the buffer for the results of commands; the callback and
  its argument are one number.
\<close>

record fengnet_context =
  c_instance :: nat
  c_cb :: "nat option"
  c_queue :: mqref
  c_handle :: u32
  c_session_id :: int
  c_ref :: int
  c_message_count :: int
  c_init :: bool
  c_endless :: bool
  c_calling :: bool

record remote_message =
  rm_handle :: u32
  rm_message :: ptr
  rm_sz :: u64
  rm_type :: int

text \<open>The data of a message is bytes, or the \<open>remote_message\<close> sent to the harbor service.\<close>

datatype block = B_Data bytes | B_Remote remote_message

record server =
  sv_ctxs :: "nat \<rightharpoonup> fengnet_context"
  sv_handles :: handle_storage
  sv_mq :: mq_state
  sv_total :: int
  sv_mem :: "ptr \<rightharpoonup> block"
  sv_brk :: nat
  sv_HARBOR :: u32
  sv_REMOTE :: "nat option"
  sv_logger :: u32

record fengnet_monitor =
  mon_version :: u32
  mon_check_version :: u32
  mon_source :: u32
  mon_destination :: u32

section \<open>Memory and reference counts\<close>

text \<open>\<open>new\<close> and \<open>delete\<close>; the address 0 is the null pointer.\<close>

definition alloc :: "block \<Rightarrow> server \<Rightarrow> ptr \<times> server" where
  "alloc b sv = (sv_brk sv, sv\<lparr>sv_mem := (sv_mem sv)(sv_brk sv \<mapsto> b), sv_brk := sv_brk sv + 1\<rparr>)"

definition free_data :: "ptr \<Rightarrow> server \<Rightarrow> server option" where
  "free_data p sv = (if p = 0 then Some sv
     else do { _ \<leftarrow> sv_mem sv p; Some (sv\<lparr>sv_mem := (sv_mem sv)(p := None)\<rparr>) })"

abbreviation upd_ctx :: "nat \<Rightarrow> fengnet_context \<Rightarrow> server \<Rightarrow> server" where
  "upd_ctx p c sv \<equiv> sv\<lparr>sv_ctxs := (sv_ctxs sv)(p \<mapsto> c)\<rparr>"

definition handles_of :: "server \<Rightarrow> ctx_handles" where
  "handles_of sv = (\<lambda>p. map_option c_handle (sv_ctxs sv p))"

definition context_inc :: "server \<Rightarrow> server" where
  "context_inc sv = sv\<lparr>sv_total := sv_total sv + 1\<rparr>"

definition context_dec :: "server \<Rightarrow> server" where
  "context_dec sv = sv\<lparr>sv_total := sv_total sv - 1\<rparr>"

text \<open>\<open>release\<close> is the release function of the module, applied to the instance.\<close>

definition delete_context :: "(nat \<Rightarrow> server \<Rightarrow> server option) \<Rightarrow> nat \<Rightarrow> server \<Rightarrow> server option" where
  "delete_context release p sv = do {
     c \<leftarrow> sv_ctxs sv p;
     sv \<leftarrow> release (c_instance c) sv;
     mq \<leftarrow> fengnet_mq_mark_release (c_queue c) (sv_mq sv);
     Some (context_dec (sv\<lparr>sv_mq := mq, sv_ctxs := (sv_ctxs sv)(p := None)\<rparr>))
   }"

definition fengnet_context_grab :: "nat \<Rightarrow> server \<Rightarrow> server option" where
  "fengnet_context_grab p sv = do {
     c \<leftarrow> sv_ctxs sv p;
     Some (upd_ctx p (c\<lparr>c_ref := c_ref c + 1\<rparr>) sv)
   }"

definition fengnet_context_reserve :: "nat \<Rightarrow> server \<Rightarrow> server option" where
  "fengnet_context_reserve p sv = do {
     sv \<leftarrow> fengnet_context_grab p sv;
     Some (context_dec sv)
   }"

definition fengnet_context_release ::
  "(nat \<Rightarrow> server \<Rightarrow> server option) \<Rightarrow> nat \<Rightarrow> server \<Rightarrow> (nat option \<times> server) option" where
  "fengnet_context_release release p sv = do {
     c \<leftarrow> sv_ctxs sv p;
     let sv = upd_ctx p (c\<lparr>c_ref := c_ref c - 1\<rparr>) sv;
     if c_ref c = 1 then do {
       sv \<leftarrow> delete_context release p sv;
       Some (None, sv)
     }
     else Some (Some p, sv)
   }"

definition fengnet_context_handle :: "nat \<Rightarrow> server \<Rightarrow> u32 option" where
  "fengnet_context_handle p sv = map_option c_handle (sv_ctxs sv p)"

text \<open>\<open>fengnet_handle_grab\<close> with the reference it takes, and \<open>fengnet_handle_retire\<close> with the one it gives up.\<close>

definition handle_grab :: "u32 \<Rightarrow> server \<Rightarrow> (nat option \<times> server) option" where
  "handle_grab handle sv = do {
     r \<leftarrow> fengnet_handle_grab (handles_of sv) (sv_handles sv) handle;
     case r of
       None \<Rightarrow> Some (None, sv)
     | Some p \<Rightarrow> do { sv \<leftarrow> fengnet_context_grab p sv; Some (Some p, sv) }
   }"

definition handle_retire :: "(nat \<Rightarrow> server \<Rightarrow> server option) \<Rightarrow> u32 \<Rightarrow> server \<Rightarrow> (int \<times> server) option" where
  "handle_retire release handle sv = do {
     (ret, ctx, hs) \<leftarrow> fengnet_handle_retire (handles_of sv) (sv_handles sv) handle;
     let sv = sv\<lparr>sv_handles := hs\<rparr>;
     case ctx of
       None \<Rightarrow> Some (ret, sv)
     | Some p \<Rightarrow> do { (_, sv) \<leftarrow> fengnet_context_release release p sv; Some (ret, sv) }
   }"

definition fengnet_context_endless :: "(nat \<Rightarrow> server \<Rightarrow> server option) \<Rightarrow> u32 \<Rightarrow> server \<Rightarrow> server option" where
  "fengnet_context_endless release handle sv = do {
     (ctx, sv) \<leftarrow> handle_grab handle sv;
     case ctx of
       None \<Rightarrow> Some sv
     | Some p \<Rightarrow> do {
         c \<leftarrow> sv_ctxs sv p;
         (_, sv) \<leftarrow> fengnet_context_release release p (upd_ctx p (c\<lparr>c_endless := True\<rparr>) sv);
         Some sv
       }
   }"

section \<open>Sending\<close>

definition fengnet_context_push ::
  "(nat \<Rightarrow> server \<Rightarrow> server option) \<Rightarrow> u32 \<Rightarrow> fengnet_message \<Rightarrow> server \<Rightarrow> (int \<times> server) option" where
  "fengnet_context_push release handle message sv = do {
     (ctx, sv) \<leftarrow> handle_grab handle sv;
     case ctx of
       None \<Rightarrow> Some (-1, sv)
     | Some p \<Rightarrow> do {
         c \<leftarrow> sv_ctxs sv p;
         mq \<leftarrow> fengnet_mq_push (c_queue c) message (sv_mq sv);
         (_, sv) \<leftarrow> fengnet_context_release release p (sv\<lparr>sv_mq := mq\<rparr>);
         Some (0, sv)
       }
   }"

text \<open>The type of a message is in the high byte of its size.\<close>

definition pack_sz :: "u64 \<Rightarrow> int \<Rightarrow> u64" where
  "pack_sz sz type = sz OR push_bit MSG_TYPE_SHIFT (word_of_int type)"

definition msg_type :: "fengnet_message \<Rightarrow> int" where
  "msg_type msg = uint (drop_bit MSG_TYPE_SHIFT (m_sz msg))"

definition msg_sz :: "fengnet_message \<Rightarrow> u64" where
  "msg_sz msg = m_sz msg AND MESSAGE_TYPE_MASK"

definition fengnet_context_send ::
  "nat \<Rightarrow> ptr \<Rightarrow> u64 \<Rightarrow> u32 \<Rightarrow> int \<Rightarrow> int \<Rightarrow> server \<Rightarrow> server option" where
  "fengnet_context_send p msg sz source type session sv = do {
     c \<leftarrow> sv_ctxs sv p;
     mq \<leftarrow> fengnet_mq_push (c_queue c) \<lparr>m_source = source, m_session = session, m_data = msg, m_sz = pack_sz sz type\<rparr> (sv_mq sv);
     Some (sv\<lparr>sv_mq := mq\<rparr>)
   }"

definition fengnet_context_newsession :: "nat \<Rightarrow> server \<Rightarrow> (int \<times> server) option" where
  "fengnet_context_newsession p sv = do {
     c \<leftarrow> sv_ctxs sv p;
     session \<leftarrow> c_int (c_session_id c + 1);
     if session \<le> 0 then Some (1, upd_ctx p (c\<lparr>c_session_id := 1\<rparr>) sv)
     else Some (session, upd_ctx p (c\<lparr>c_session_id := session\<rparr>) sv)
   }"

text \<open>The harbor.\<close>

definition invalid_type :: "int \<Rightarrow> bool" where
  "invalid_type type \<longleftrightarrow> type \<noteq> PTYPE_SYSTEM \<and> type \<noteq> PTYPE_HARBOR"

definition fengnet_harbor_init :: "u32 \<Rightarrow> server \<Rightarrow> server" where
  "fengnet_harbor_init harbor sv = sv\<lparr>sv_HARBOR := push_bit HANDLE_REMOTE_SHIFT harbor\<rparr>"

definition fengnet_harbor_send :: "ptr \<Rightarrow> u32 \<Rightarrow> int \<Rightarrow> server \<Rightarrow> server option" where
  "fengnet_harbor_send rmsg source session sv = do {
     b \<leftarrow> sv_mem sv rmsg;
     case b of
       B_Data _ \<Rightarrow> None
     | B_Remote rm \<Rightarrow> (case sv_REMOTE sv of
           None \<Rightarrow> None
         | Some p \<Rightarrow>
             if invalid_type (rm_type rm) then fengnet_context_send p rmsg 48 source PTYPE_SYSTEM session sv
             else None)
   }"

definition fengnet_harbor_start :: "nat \<Rightarrow> server \<Rightarrow> server option" where
  "fengnet_harbor_start p sv = do {
     sv \<leftarrow> fengnet_context_reserve p sv;
     Some (sv\<lparr>sv_REMOTE := Some p\<rparr>)
   }"

definition fengnet_harbor_exit :: "(nat \<Rightarrow> server \<Rightarrow> server option) \<Rightarrow> server \<Rightarrow> server option" where
  "fengnet_harbor_exit release sv = (case sv_REMOTE sv of
     None \<Rightarrow> Some sv
   | Some p \<Rightarrow> map_option snd (fengnet_context_release release p (sv\<lparr>sv_REMOTE := None\<rparr>)))"

definition fengnet_harbor_message_isremote :: "u32 \<Rightarrow> server \<Rightarrow> bool option" where
  "fengnet_harbor_message_isremote handle sv = (
     if sv_HARBOR sv = -1 then None
     else do {
       let h = handle AND NOT HANDLE_MASK;
       Some (h \<noteq> sv_HARBOR sv \<and> h \<noteq> 0)
     })"

text \<open>\<open>fengnet_error\<close> with the formatted text.\<close>

definition fengnet_error :: "(nat \<Rightarrow> server \<Rightarrow> server option) \<Rightarrow> nat option \<Rightarrow> bytes \<Rightarrow> server \<Rightarrow> server option" where
  "fengnet_error release ctx text sv = do {
     logger \<leftarrow> (if sv_logger sv = 0 then fengnet_handle_findname (hs_names (sv_handles sv)) ''logger'' else Some (sv_logger sv));
     let sv = sv\<lparr>sv_logger := logger\<rparr>;
     if logger = 0 then Some sv
     else do {
       let (data, sv) = alloc (B_Data (text @ [0])) sv;
       source \<leftarrow> (case ctx of None \<Rightarrow> Some 0 | Some p \<Rightarrow> fengnet_context_handle p sv);
       (_, sv) \<leftarrow> fengnet_context_push release logger
         \<lparr>m_source = source, m_session = 0, m_data = data, m_sz = pack_sz (of_nat (length text)) PTYPE_TEXT\<rparr> sv;
       Some sv
     }
   }"

text \<open>The tags of a type, and \<open>_filter_args\<close>: a new session, a copy of the data, the type in the size.\<close>

definition has_tag :: "int \<Rightarrow> int \<Rightarrow> bool" where
  "has_tag type tag \<longleftrightarrow> type AND tag \<noteq> 0"

definition copy_data :: "ptr \<Rightarrow> u64 \<Rightarrow> server \<Rightarrow> (ptr \<times> server) option" where
  "copy_data data sz sv = do {
     b \<leftarrow> sv_mem sv data;
     case b of
       B_Remote _ \<Rightarrow> None
     | B_Data bs \<Rightarrow> do {
         d \<leftarrow> load_n bs 0 (unat sz);
         Some (alloc (B_Data (d @ [0])) sv)
       }
   }"

definition filter_args ::
  "nat option \<Rightarrow> int \<Rightarrow> int \<Rightarrow> ptr \<Rightarrow> u64 \<Rightarrow> server \<Rightarrow> (int \<times> ptr \<times> u64 \<times> server) option" where
  "filter_args ctx type session data sz sv = do {
     (session, sv) \<leftarrow> (if has_tag type PTYPE_TAG_ALLOCSESSION then
         if session \<noteq> 0 then None
         else (case ctx of None \<Rightarrow> None | Some p \<Rightarrow> fengnet_context_newsession p sv)
       else Some (session, sv));
     (data, sv) \<leftarrow> (if \<not> has_tag type PTYPE_TAG_DONTCOPY \<and> data \<noteq> 0 then copy_data data sz sv else Some (data, sv));
     Some (session, data, pack_sz sz (type AND 0xff), sv)
   }"

fun hex :: "nat \<Rightarrow> string" where
  "hex n = (if n < 16 then [''0123456789abcdef'' ! n] else hex (n div 16) @ [''0123456789abcdef'' ! (n mod 16)])"

declare hex.simps [simp del]

definition text_bytes :: "string \<Rightarrow> bytes" where
  "text_bytes s = map of_char s"

definition fengnet_send ::
  "(nat \<Rightarrow> server \<Rightarrow> server option) \<Rightarrow> nat option \<Rightarrow> u32 \<Rightarrow> u32 \<Rightarrow> int \<Rightarrow> int \<Rightarrow> ptr \<Rightarrow> u64 \<Rightarrow> server \<Rightarrow> (int \<times> server) option" where
  "fengnet_send release ctx source destination type session data sz sv = (
     if sz AND MESSAGE_TYPE_MASK \<noteq> sz then do {
       sv \<leftarrow> fengnet_error release ctx (text_bytes (''The message to '' @ hex (unat destination) @ '' is too large'')) sv;
       sv \<leftarrow> (if has_tag type PTYPE_TAG_DONTCOPY then free_data data sv else Some sv);
       Some (-2, sv)
     }
     else do {
       (session, data, sz, sv) \<leftarrow> filter_args ctx type session data sz sv;
       source \<leftarrow> (if source = 0 then (case ctx of None \<Rightarrow> None | Some p \<Rightarrow> fengnet_context_handle p sv) else Some source);
       if destination = 0 then
         if data \<noteq> 0 then do {
           sv \<leftarrow> fengnet_error release ctx (text_bytes ''Destination address can't be 0'') sv;
           sv \<leftarrow> free_data data sv;
           Some (-1, sv)
         }
         else Some (session, sv)
       else do {
         remote \<leftarrow> fengnet_harbor_message_isremote destination sv;
         if remote then do {
           let (rmsg, sv) = alloc (B_Remote \<lparr>rm_handle = destination, rm_message = data, rm_sz = sz AND MESSAGE_TYPE_MASK,
             rm_type = uint (drop_bit MSG_TYPE_SHIFT sz)\<rparr>) sv;
           sv \<leftarrow> fengnet_harbor_send rmsg source session sv;
           Some (session, sv)
         }
         else do {
           (r, sv) \<leftarrow> fengnet_context_push release destination
             \<lparr>m_source = source, m_session = session, m_data = data, m_sz = sz\<rparr> sv;
           if r \<noteq> 0 then do { sv \<leftarrow> free_data data sv; Some (-1, sv) }
           else Some (session, sv)
         }
       }
     })"


section \<open>The monitor\<close>

definition fengnet_monitor_new :: fengnet_monitor where
  "fengnet_monitor_new = \<lparr>mon_version = 0, mon_check_version = 0, mon_source = 0, mon_destination = 0\<rparr>"

definition fengnet_monitor_trigger :: "fengnet_monitor \<Rightarrow> u32 \<Rightarrow> u32 \<Rightarrow> fengnet_monitor" where
  "fengnet_monitor_trigger sm source destination =
     sm\<lparr>mon_source := source, mon_destination := destination, mon_version := mon_version sm + 1\<rparr>"

text \<open>The text of the warning, with the numbers formatted by \<open>%08x\<close> and \<open>%d\<close>, is an argument.\<close>

definition fengnet_monitor_check ::
  "(nat \<Rightarrow> server \<Rightarrow> server option) \<Rightarrow> (fengnet_monitor \<Rightarrow> bytes) \<Rightarrow> fengnet_monitor \<Rightarrow> server
   \<Rightarrow> (fengnet_monitor \<times> server) option" where
  "fengnet_monitor_check release warning sm sv = (
     if mon_version sm = mon_check_version sm then
       if mon_destination sm \<noteq> 0 then do {
         sv \<leftarrow> fengnet_context_endless release (mon_destination sm) sv;
         sv \<leftarrow> fengnet_error release None (warning sm) sv;
         Some (sm, sv)
       }
       else Some (sm, sv)
     else Some (sm\<lparr>mon_check_version := mon_version sm\<rparr>, sv))"

section \<open>Dispatching\<close>

text \<open>
  The code of the modules: \<open>md_create\<close> finds a module and creates an instance, \<open>md_init\<close> initialises it for a
  context, \<open>md_release\<close> releases it, and \<open>md_cb\<close> is the callback of a service, whose result says
  whether it keeps the data of the message.
\<close>

record modules =
  md_create :: "string \<Rightarrow> server \<Rightarrow> (nat option \<times> server) option"
  md_init :: "nat \<Rightarrow> nat \<Rightarrow> string option \<Rightarrow> server \<Rightarrow> (int \<times> server) option"
  md_release :: "nat \<Rightarrow> server \<Rightarrow> server option"
  md_cb :: "nat \<Rightarrow> nat \<Rightarrow> int \<Rightarrow> int \<Rightarrow> u32 \<Rightarrow> ptr \<Rightarrow> u64 \<Rightarrow> server \<Rightarrow> (bool \<times> server) option"

definition dispatch_message :: "modules \<Rightarrow> nat \<Rightarrow> fengnet_message \<Rightarrow> server \<Rightarrow> server option" where
  "dispatch_message M p msg sv = do {
     c \<leftarrow> sv_ctxs sv p;
     if \<not> c_init c \<or> c_calling c then None
     else do {
       cb \<leftarrow> c_cb c;
       (reserve_msg, sv) \<leftarrow> md_cb M cb p (msg_type msg) (m_session msg) (m_source msg) (m_data msg) (msg_sz msg)
         (upd_ctx p (c\<lparr>c_calling := True, c_message_count := c_message_count c + 1\<rparr>) sv);
       sv \<leftarrow> (if \<not> reserve_msg then free_data (m_data msg) sv else Some sv);
       c \<leftarrow> sv_ctxs sv p;
       Some (upd_ctx p (c\<lparr>c_calling := False\<rparr>) sv)
     }
   }"

definition drop_message :: "(nat \<Rightarrow> server \<Rightarrow> server option) \<Rightarrow> u32 \<Rightarrow> fengnet_message \<Rightarrow> server \<Rightarrow> server option" where
  "drop_message release handle msg sv = do {
     sv \<leftarrow> free_data (m_data msg) sv;
     if handle = 0 then None
     else do {
       (_, sv) \<leftarrow> fengnet_send release None handle (m_source msg) PTYPE_ERROR 0 0 0 sv;
       Some sv
     }
   }"

text \<open>\<open>fengnet_mq_release\<close> with \<open>drop_message\<close>, which changes the whole server.\<close>

definition drop_step :: "(nat \<Rightarrow> server \<Rightarrow> server option) \<Rightarrow> u32 \<Rightarrow> mqref \<Rightarrow> server \<Rightarrow> (server + server) option" where
  "drop_step release handle r sv = do {
     (msg, mq) \<leftarrow> fengnet_mq_pop r (sv_mq sv);
     let sv = sv\<lparr>sv_mq := mq\<rparr>;
     case msg of
       None \<Rightarrow> Some (Inr sv)
     | Some m \<Rightarrow> map_option Inl (drop_message release handle m sv)
   }"

definition release_queue :: "(nat \<Rightarrow> server \<Rightarrow> server option) \<Rightarrow> u32 \<Rightarrow> mqref \<Rightarrow> server \<Rightarrow> server option" where
  "release_queue release handle r sv = do {
     q \<leftarrow> mqs (sv_mq sv) r;
     if q_release q \<noteq> 0 then do {
       sv \<leftarrow> repeat_step (drop_step release handle r) sv;
       mq \<leftarrow> mq_release_private r (sv_mq sv);
       Some (sv\<lparr>sv_mq := mq\<rparr>)
     }
     else do {
       mq \<leftarrow> fengnet_globalmq_push r (sv_mq sv);
       Some (sv\<lparr>sv_mq := mq\<rparr>)
     }
   }"

definition pop_global :: "server \<Rightarrow> (mqref option \<times> server) option" where
  "pop_global sv = do {
     (q, mq) \<leftarrow> fengnet_globalmq_pop (sv_mq sv);
     Some (q, sv\<lparr>sv_mq := mq\<rparr>)
   }"

record dispatching =
  d_i :: int
  d_n :: int
  d_sm :: fengnet_monitor
  d_done :: "fengnet_message list"

text \<open>
  The loop of \<open>fengnet_context_message_dispatch\<close>: \<open>Inr True\<close> leaves it because the queue is empty, \<open>Inr False\<close> at its
  end. \<open>d_done\<close> collects the messages taken from the queue. \<open>overload_text\<close> is the text of the warning.
\<close>

definition dispatch_step ::
  "modules \<Rightarrow> (int \<Rightarrow> bytes) \<Rightarrow> nat \<Rightarrow> u32 \<Rightarrow> mqref \<Rightarrow> int \<Rightarrow> dispatching \<times> server
   \<Rightarrow> (dispatching \<times> server + bool \<times> dispatching \<times> server) option" where
  "dispatch_step M overload_text p handle q weight = (\<lambda>(d, sv).
     if \<not> d_i d < d_n d then Some (Inr (False, d, sv))
     else do {
       (msg, mq) \<leftarrow> fengnet_mq_pop q (sv_mq sv);
       let sv = sv\<lparr>sv_mq := mq\<rparr>;
       case msg of
         None \<Rightarrow> Some (Inr (True, d, sv))
       | Some msg \<Rightarrow> do {
           len \<leftarrow> fengnet_mq_length q (sv_mq sv);
           let d = (if d_i d = 0 \<and> weight \<ge> 0 then d\<lparr>d_n := int len div 2 ^ nat weight\<rparr> else d);
           (overload, mq) \<leftarrow> fengnet_mq_overload q (sv_mq sv);
           let sv = sv\<lparr>sv_mq := mq\<rparr>;
           sv \<leftarrow> (if overload \<noteq> 0 then fengnet_error (md_release M) (Some p) (overload_text overload) sv else Some sv);
           let sm = fengnet_monitor_trigger (d_sm d) (m_source msg) handle;
           c \<leftarrow> sv_ctxs sv p;
           sv \<leftarrow> (case c_cb c of None \<Rightarrow> free_data (m_data msg) sv | Some _ \<Rightarrow> dispatch_message M p msg sv);
           h \<leftarrow> fengnet_context_handle p sv;
           if handle \<noteq> h then None
           else Some (Inl (d\<lparr>d_i := d_i d + 1, d_sm := fengnet_monitor_trigger sm 0 0, d_done := d_done d @ [msg]\<rparr>, sv))
         }
     })"

definition fengnet_context_message_dispatch ::
  "modules \<Rightarrow> (int \<Rightarrow> bytes) \<Rightarrow> fengnet_monitor \<Rightarrow> mqref option \<Rightarrow> int \<Rightarrow> server
   \<Rightarrow> (mqref option \<times> fengnet_monitor \<times> fengnet_message list \<times> server) option" where
  "fengnet_context_message_dispatch M overload_text sm q weight sv = do {
     (q, sv) \<leftarrow> (case q of None \<Rightarrow> pop_global sv | Some r \<Rightarrow> Some (Some r, sv));
     case q of
       None \<Rightarrow> Some (None, sm, [], sv)
     | Some q \<Rightarrow> do {
         handle \<leftarrow> fengnet_mq_handle q (sv_mq sv);
         (ctx, sv) \<leftarrow> handle_grab handle sv;
         case ctx of
           None \<Rightarrow> do {
             sv \<leftarrow> release_queue (md_release M) handle q sv;
             (nq, sv) \<leftarrow> pop_global sv;
             Some (nq, sm, [], sv)
           }
         | Some p \<Rightarrow> do {
             (empty, d, sv) \<leftarrow> repeat_step (dispatch_step M overload_text p handle q weight)
               (\<lparr>d_i = 0, d_n = 1, d_sm = sm, d_done = []\<rparr>, sv);
             if empty then do {
               (_, sv) \<leftarrow> fengnet_context_release (md_release M) p sv;
               (nq, sv) \<leftarrow> pop_global sv;
               Some (nq, d_sm d, d_done d, sv)
             }
             else do {
               c \<leftarrow> sv_ctxs sv p;
               if q \<noteq> c_queue c then None
               else do {
                 (nq, sv) \<leftarrow> pop_global sv;
                 sv \<leftarrow> (case nq of None \<Rightarrow> Some sv
                   | Some _ \<Rightarrow> map_option (\<lambda>mq. sv\<lparr>sv_mq := mq\<rparr>) (fengnet_globalmq_push q (sv_mq sv)));
                 (_, sv) \<leftarrow> fengnet_context_release (md_release M) p sv;
                 Some (case nq of None \<Rightarrow> Some q | Some nq \<Rightarrow> Some nq, d_sm d, d_done d, sv)
               }
             }
           }
       }
   }"

definition dispatchall_step :: "modules \<Rightarrow> nat \<Rightarrow> mqref \<Rightarrow> server \<Rightarrow> (server + server) option" where
  "dispatchall_step M p q sv = do {
     (msg, mq) \<leftarrow> fengnet_mq_pop q (sv_mq sv);
     let sv = sv\<lparr>sv_mq := mq\<rparr>;
     case msg of None \<Rightarrow> Some (Inr sv) | Some m \<Rightarrow> map_option Inl (dispatch_message M p m sv)
   }"

definition fengnet_context_dispatchall :: "modules \<Rightarrow> nat \<Rightarrow> server \<Rightarrow> server option" where
  "fengnet_context_dispatchall M p sv = do {
     c \<leftarrow> sv_ctxs sv p;
     repeat_step (dispatchall_step M p (c_queue c)) sv
   }"


section \<open>Launching a service\<close>

text \<open>The context and its queue are allocated, registered and initialised; growth of the handle table may free contexts.\<close>

definition new_context :: "nat \<Rightarrow> server \<Rightarrow> (nat \<times> server) option" where
  "new_context inst sv = do {
     let p = sv_brk sv;
     let sv = (upd_ctx p \<lparr>c_instance = inst, c_cb = None, c_queue = 0, c_handle = 0, c_session_id = 0, c_ref = 2,
       c_message_count = 0, c_init = False, c_endless = False, c_calling = False\<rparr> sv)\<lparr>sv_brk := p + 1\<rparr>;
     (h, live, hs) \<leftarrow> fengnet_handle_register (handles_of sv) (sv_handles sv) p;
     let sv = sv\<lparr>sv_handles := hs, sv_ctxs := (\<lambda>x. if live x = None then None else sv_ctxs sv x)\<rparr>;
     c \<leftarrow> sv_ctxs sv p;
     let r = sv_brk sv;
     Some (p, context_inc ((upd_ctx p (c\<lparr>c_handle := h, c_queue := r\<rparr>) sv)\<lparr>
       sv_mq := fengnet_mq_create r h (sv_mq sv), sv_brk := r + 1\<rparr>))
   }"

definition set_calling :: "nat \<Rightarrow> bool \<Rightarrow> server \<Rightarrow> server option" where
  "set_calling p b sv = do {
     c \<leftarrow> sv_ctxs sv p;
     if c_calling c = b then None else Some (upd_ctx p (c\<lparr>c_calling := b\<rparr>) sv)
   }"

definition fengnet_context_new :: "modules \<Rightarrow> string \<Rightarrow> string option \<Rightarrow> server \<Rightarrow> (nat option \<times> server) option" where
  "fengnet_context_new M name param sv = do {
     (inst, sv) \<leftarrow> md_create M name sv;
     case inst of
       None \<Rightarrow> Some (None, sv)
     | Some inst \<Rightarrow> do {
         (p, sv) \<leftarrow> new_context inst sv;
         c \<leftarrow> sv_ctxs sv p;
         sv \<leftarrow> set_calling p True sv;
         (r, sv) \<leftarrow> md_init M inst p param sv;
         sv \<leftarrow> set_calling p False sv;
         if r = 0 then do {
           (ret, sv) \<leftarrow> fengnet_context_release (md_release M) p sv;
           sv \<leftarrow> (case ret of None \<Rightarrow> Some sv | Some p \<Rightarrow> do { c \<leftarrow> sv_ctxs sv p; Some (upd_ctx p (c\<lparr>c_init := True\<rparr>) sv) });
           mq \<leftarrow> fengnet_globalmq_push (c_queue c) (sv_mq sv);
           let sv = sv\<lparr>sv_mq := mq\<rparr>;
           sv \<leftarrow> (case ret of None \<Rightarrow> Some sv
             | Some p \<Rightarrow> fengnet_error (md_release M) (Some p)
                 (text_bytes (''LAUNCH '' @ name @ '' '' @ (case param of None \<Rightarrow> [] | Some s \<Rightarrow> s))) sv);
           Some (ret, sv)
         }
         else do {
           sv \<leftarrow> fengnet_error (md_release M) (Some p) (text_bytes (''FAILED launch '' @ name)) sv;
           handle \<leftarrow> fengnet_context_handle p sv;
           (_, sv) \<leftarrow> fengnet_context_release (md_release M) p sv;
           (_, sv) \<leftarrow> handle_retire (md_release M) handle sv;
           sv \<leftarrow> release_queue (md_release M) handle (c_queue c) sv;
           Some (None, sv)
         }
       }
   }"

section \<open>Invariant\<close>

text \<open>
  The table is well formed, the queues satisfy the invariant of the scheduler with the queues \<open>held\<close> by threads, and every allocated context has
  a reference and a queue that is not marked for release.
\<close>

definition server_inv :: "mqref set \<Rightarrow> server \<Rightarrow> bool" where
  "server_inv held sv \<longleftrightarrow> table_inv (handles_of sv) (sv_handles sv) \<and> (\<exists>rs. sched_inv (sv_mq sv, held) rs) \<and>
     (\<forall>p c. sv_ctxs sv p = Some c \<longrightarrow> 1 \<le> c_ref c \<and> (\<exists>q. mqs (sv_mq sv) (c_queue c) = Some q \<and> q_release q = 0))"

definition registered :: "server \<Rightarrow> u32 \<Rightarrow> nat option" where
  "registered sv h = handle_map (handles_of sv) (sv_handles sv) h"

text \<open>What other threads see of a queue, apart from its link.\<close>

definition mq_view :: "mq_state \<Rightarrow> mqref \<Rightarrow> (fengnet_message list \<times> int \<times> u32) option" where
  "mq_view st r = map_option (\<lambda>q. (mq_contents q, q_release q, q_handle q)) (mqs st r)"

definition messages :: "server \<Rightarrow> mqref \<Rightarrow> fengnet_message list" where
  "messages sv r = (case mqs (sv_mq sv) r of None \<Rightarrow> [] | Some q \<Rightarrow> mq_contents q)"

lemma mq_contents_next [simp]:
  "mq_contents (q\<lparr>q_next := n\<rparr>) = mq_contents q" "mq_contents (q\<lparr>q_in_global := g\<rparr>) = mq_contents q"
  by (simp_all add: mq_contents_def)

lemma globalmq_push_view: "fengnet_globalmq_push r st = Some st' \<Longrightarrow> mq_view st' = mq_view st"
  by (auto simp: fengnet_globalmq_push_def mq_view_def fun_eq_iff split: Option.bind_splits option.splits if_splits)

lemma mq_push_view:
  assumes inv: "sched_inv (st, held) rs" and q: "mqs st r = Some q" "q_release q = 0"
  shows "\<exists>st' rs'. fengnet_mq_push r msg st = Some st' \<and> sched_inv (st', held) rs' \<and>
    mq_view st' = (mq_view st)(r \<mapsto> (mq_contents q @ [msg], 0, q_handle q))"
proof -
  obtain st' rs' where st': "fengnet_mq_push r msg st = Some st'" "sched_inv (st', held) rs'"
    using send_inv [OF inv q] by blast
  obtain q' where q': "mq_enqueue q msg = Some q'" "mq_contents q' = mq_contents q @ [msg]"
    using mq_enqueue_ok sched_invD(4) [OF inv q(1)] by (fastforce simp: flags_ok_def)
  note same = mq_enqueue_flags [OF q'(1)]
  have "mq_view (upd_mq r x st) = (mq_view st)(r \<mapsto> (mq_contents q @ [msg], 0, q_handle q))"
    if "x = q' \<or> x = q'\<lparr>q_in_global := MQ_IN_GLOBAL\<rparr>" for x
    using that q' same q by (auto simp: mq_view_def fun_eq_iff)
  then have "mq_view st' = (mq_view st)(r \<mapsto> (mq_contents q @ [msg], 0, q_handle q))"
    using st'(1) q q' globalmq_push_view by (auto simp: fengnet_mq_push_def split: if_splits)
  then show ?thesis using st' by blast
qed

lemma context_push_ok:
  assumes inv: "server_inv held sv" and p: "registered sv h = Some p" "sv_ctxs sv p = Some c"
  shows "\<exists>mq. fengnet_context_push release h msg sv = Some (0, sv\<lparr>sv_mq := mq\<rparr>) \<and> server_inv held (sv\<lparr>sv_mq := mq\<rparr>) \<and>
    messages (sv\<lparr>sv_mq := mq\<rparr>) = (messages sv)(c_queue c := messages sv (c_queue c) @ [msg])"
proof -
  obtain rs q where q: "sched_inv (sv_mq sv, held) rs" "mqs (sv_mq sv) (c_queue c) = Some q" "q_release q = 0" "1 \<le> c_ref c"
    using inv p(2) unfolding server_inv_def by blast
  obtain mq rs' where mq: "fengnet_mq_push (c_queue c) msg (sv_mq sv) = Some mq" "sched_inv (mq, held) rs'"
    "mq_view mq = (mq_view (sv_mq sv))(c_queue c \<mapsto> (mq_contents q @ [msg], 0, q_handle q))"
    using mq_push_view [OF q(1-3)] by blast
  have grab: "handle_grab h sv = Some (Some p, upd_ctx p (c\<lparr>c_ref := c_ref c + 1\<rparr>) sv)"
    using grab_ok [of "handles_of sv" "sv_handles sv" h] inv p
    by (simp add: handle_grab_def server_inv_def registered_def fengnet_context_grab_def)
  have "(sv_ctxs sv)(p \<mapsto> c) = sv_ctxs sv" using p(2) by auto
  then have run: "fengnet_context_push release h msg sv = Some (0, sv\<lparr>sv_mq := mq\<rparr>)"
    using q(4) mq(1) by (simp add: fengnet_context_push_def grab fengnet_context_release_def Let_def)
  have "\<exists>q. mqs mq (c_queue c') = Some q \<and> q_release q = 0" if "sv_ctxs sv p' = Some c'" for p' c'
  proof -
    have "\<exists>q. mqs (sv_mq sv) (c_queue c') = Some q \<and> q_release q = 0" using inv that by (auto simp: server_inv_def)
    then show ?thesis using fun_cong [OF mq(3), of "c_queue c'"] by (auto simp: mq_view_def split: if_splits)
  qed
  then have "server_inv held (sv\<lparr>sv_mq := mq\<rparr>)" using inv mq(2) by (auto simp: server_inv_def handles_of_def)
  moreover have "messages (sv\<lparr>sv_mq := mq\<rparr>) x = ((messages sv)(c_queue c := messages sv (c_queue c) @ [msg])) x" for x
    using fun_cong [OF mq(3), of x] q(2) by (auto simp: messages_def mq_view_def split: option.splits if_splits)
  ultimately show ?thesis using run by blast
qed

lemma context_push_unregistered:
  assumes "server_inv held sv" "registered sv h = None"
  shows "fengnet_context_push release h msg sv = Some (-1, sv)"
  using grab_ok [of "handles_of sv" "sv_handles sv" h] assms
  by (simp add: fengnet_context_push_def handle_grab_def server_inv_def registered_def)


lemma pack_sz_fields:
  assumes "unat sz < 2 ^ 56" "0 \<le> type" "type < 256"
  shows "drop_bit 56 (pack_sz sz type) = word_of_int type" "pack_sz sz type AND MESSAGE_TYPE_MASK = sz"
    "sz AND MESSAGE_TYPE_MASK = sz"
proof -
  have m: "MESSAGE_TYPE_MASK = mask 56" by (simp add: MESSAGE_TYPE_MASK_def mask_eq_exp_minus_1)
  have s: "take_bit 56 sz = sz" using assms(1) by (simp add: word_unat_eq_iff unsigned_take_bit_eq take_bit_nat_eq_self)
  have t: "take_bit 8 (word_of_int type :: u64) = word_of_int type"
    using assms(2,3) by (simp add: word_uint_eq_iff unsigned_take_bit_eq uint_word_of_int take_bit_int_eq_self)
  have sb: "bit sz n \<Longrightarrow> n < 56" for n using s by (metis bit_take_bit_iff)
  have tb: "bit (word_of_int type :: u64) n \<Longrightarrow> n < 8" for n using t by (metis bit_take_bit_iff)
  show "drop_bit 56 (pack_sz sz type) = word_of_int type"
    by (rule bit_word_eqI) (use sb tb in \<open>fastforce simp: pack_sz_def MSG_TYPE_SHIFT_def bit_simps\<close>)
  show "pack_sz sz type AND MESSAGE_TYPE_MASK = sz"
    by (rule bit_word_eqI) (use sb in \<open>auto simp: pack_sz_def m MSG_TYPE_SHIFT_def bit_simps\<close>)
  show "sz AND MESSAGE_TYPE_MASK = sz" using s by (simp add: m take_bit_eq_mask)
qed

text \<open>A destination on this node.\<close>

definition local_handle :: "server \<Rightarrow> u32 \<Rightarrow> bool" where
  "local_handle sv h \<longleftrightarrow> h \<noteq> 0 \<and> sv_HARBOR sv \<noteq> -1 \<and> (h AND NOT HANDLE_MASK = sv_HARBOR sv \<or> h AND NOT HANDLE_MASK = 0)"

lemma local_not_remote: "local_handle sv h \<Longrightarrow> fengnet_harbor_message_isremote h sv = Some False"
  by (auto simp: local_handle_def fengnet_harbor_message_isremote_def)

lemma plain_type: "0 \<le> type \<Longrightarrow> type < 256 \<Longrightarrow>
  \<not> has_tag type PTYPE_TAG_DONTCOPY \<and> \<not> has_tag type PTYPE_TAG_ALLOCSESSION \<and> type AND 0xff = type"
proof -
  assume t: "0 \<le> type" "type < 256"
  have tb: "take_bit 8 type = type" using t by (simp add: take_bit_int_eq_self)
  have b: "bit type n \<Longrightarrow> n < 8" for n using tb by (metis bit_take_bit_iff)
  have "type AND push_bit k 1 = 0" if "8 \<le> k" for k by (rule bit_eqI) (use b that in \<open>fastforce simp: bit_simps\<close>)
  from this [of 16] this [of 17] show ?thesis
    using tb by (simp add: has_tag_def PTYPE_TAG_DONTCOPY_def PTYPE_TAG_ALLOCSESSION_def take_bit_eq_mask mask_eq_exp_minus_1 push_bit_eq_mult)
qed

lemma server_inv_mem [simp]:
  "server_inv held (sv\<lparr>sv_mem := mem, sv_brk := brk\<rparr>) = server_inv held sv"
  "registered (sv\<lparr>sv_mem := mem, sv_brk := brk\<rparr>) h = registered sv h"
  "messages (sv\<lparr>sv_mem := mem, sv_brk := brk\<rparr>) = messages sv"
  "server_inv held (sv\<lparr>sv_mem := mem\<rparr>) = server_inv held sv" "messages (sv\<lparr>sv_mem := mem\<rparr>) = messages sv"
  by (simp_all add: server_inv_def registered_def handles_of_def messages_def fun_eq_iff)

lemma send_local:
  assumes l: "local_handle sv dest" and t: "0 \<le> type" "type < 256" and sz: "unat sz < 2 ^ 56" "unat sz \<le> length bs"
    and d: "data \<noteq> 0" "sv_mem sv data = Some (B_Data bs)" and src: "source \<noteq> 0"
  defines "sv1 \<equiv> sv\<lparr>sv_mem := (sv_mem sv)(sv_brk sv \<mapsto> B_Data (take (unat sz) bs @ [0])), sv_brk := sv_brk sv + 1\<rparr>"
  shows "fengnet_send release ctx source dest type session data sz sv = do {
    (r, sv2) \<leftarrow> fengnet_context_push release dest
      \<lparr>m_source = source, m_session = session, m_data = sv_brk sv, m_sz = pack_sz sz type\<rparr> sv1;
    if r \<noteq> 0 then do { sv2 \<leftarrow> free_data (sv_brk sv) sv2; Some (-1, sv2) } else Some (session, sv2) }"
proof -
  have "filter_args ctx type session data sz sv = Some (session, sv_brk sv, pack_sz sz type, sv1)"
    using plain_type [OF t] d sz by (simp add: filter_args_def copy_data_def load_n_def alloc_def sv1_def)
  moreover have "fengnet_harbor_message_isremote dest sv1 = Some False"
    using l by (intro local_not_remote) (simp add: local_handle_def sv1_def)
  moreover have "sz AND MESSAGE_TYPE_MASK = sz" by (rule pack_sz_fields(3) [OF sz(1) t])
  moreover have "dest \<noteq> 0" using l by (simp add: local_handle_def)
  ultimately show ?thesis using src by (simp add: fengnet_send_def)
qed

section \<open>An example\<close>

text \<open>A node with one service, whose handle is 1.\<close>

definition ex_ctx :: fengnet_context where
  "ex_ctx = \<lparr>c_instance = 0, c_cb = Some 0, c_queue = 0, c_handle = 1, c_session_id = 0, c_ref = 1, c_message_count = 0,
     c_init = True, c_endless = False, c_calling = False\<rparr>"

definition ex_server :: server where
  "ex_server = \<lparr>sv_ctxs = [5 \<mapsto> ex_ctx],
     sv_handles = (fengnet_handle_init 0)\<lparr>hs_slot := [None, Some 5, None, None], hs_handle_index := 2\<rparr>,
     sv_mq = fengnet_mq_create 0 1 fengnet_mq_init, sv_total = 1, sv_mem = [8 \<mapsto> B_Data [65, 66]], sv_brk = 9, sv_HARBOR = 0,
     sv_REMOTE = None, sv_logger = 0\<rparr>"

lemma ex_server_inv: "server_inv {0} ex_server"
proof -
  have "slots_ok (fengnet_handle_init 0)" using init_table_inv table_invD by blast
  then have "slots_ok (sv_handles ex_server)" by (simp add: slots_ok_def ex_server_def fengnet_handle_init_def DEFAULT_SLOT_SIZE_def)
  moreover have "\<forall>i<hs_slot_size (sv_handles ex_server). \<forall>p. hs_slot (sv_handles ex_server) ! i = Some p \<longrightarrow>
      (\<exists>h. handles_of ex_server p = Some h \<and> unat h mod hs_slot_size (sv_handles ex_server) = i \<and> take_bit 24 h \<noteq> 0)"
  proof (intro allI impI)
    fix i p assume "i < hs_slot_size (sv_handles ex_server)" and p: "hs_slot (sv_handles ex_server) ! i = Some p"
    then consider "i = 0" | "i = 1" | "i = 2" | "i = 3"
      by (fastforce simp: ex_server_def fengnet_handle_init_def DEFAULT_SLOT_SIZE_def)
    then show "\<exists>h. handles_of ex_server p = Some h \<and> unat h mod hs_slot_size (sv_handles ex_server) = i \<and> take_bit 24 h \<noteq> 0"
      using p by cases (simp_all add: ex_server_def fengnet_handle_init_def DEFAULT_SLOT_SIZE_def handles_of_def ex_ctx_def)
  qed
  ultimately have "table_inv (handles_of ex_server) (sv_handles ex_server)" by (simp add: table_inv_def)
  moreover have "sched_inv (fengnet_mq_init, {}) []" by (simp add: sched_inv_def fengnet_mq_init_def gq_ok_def)
  then have "sched_inv (sv_mq ex_server, {0}) []"
    using create_inv [of fengnet_mq_init "{}" "[]" 0 1] by (simp add: ex_server_def fengnet_mq_init_def)
  ultimately show ?thesis
    by (auto simp: server_inv_def ex_server_def ex_ctx_def fengnet_mq_create_def split: if_splits)
qed

lemma ex_server_simps:
  "registered ex_server 1 = Some 5" "registered ex_server 2 = None" "sv_ctxs ex_server 5 = Some ex_ctx"
  "local_handle ex_server 1" "local_handle ex_server 2" "sv_mem ex_server 8 = Some (B_Data [65, 66])"
  "sv_mem ex_server 9 = None" "sv_brk ex_server = 9" "messages ex_server 0 = []"
  by (simp_all add: registered_def handle_map_def ex_server_def fengnet_handle_init_def DEFAULT_SLOT_SIZE_def handles_of_def ex_ctx_def
      local_handle_def HANDLE_MASK_def messages_def fengnet_mq_create_def mq_contents_def ring_len_def)

section \<open>Properties\<close>

text \<open>
  C35. Pushing a message to a handle that is registered appends it to the queue of that service, leaves every other
  queue, the contexts and their reference counts as they were, and keeps the server well formed; for any other
  handle the push reports failure and changes nothing.
\<close>

theorem context_push_delivers:
  assumes "server_inv held sv"
  shows "case registered sv h of
      None \<Rightarrow> fengnet_context_push release h msg sv = Some (-1, sv)
    | Some p \<Rightarrow> \<exists>c mq. sv_ctxs sv p = Some c \<and> fengnet_context_push release h msg sv = Some (0, sv\<lparr>sv_mq := mq\<rparr>) \<and>
        server_inv held (sv\<lparr>sv_mq := mq\<rparr>) \<and>
        messages (sv\<lparr>sv_mq := mq\<rparr>) = (messages sv)(c_queue c := messages sv (c_queue c) @ [msg])"
proof (cases "registered sv h")
  case None
  then show ?thesis using context_push_unregistered [OF assms] by simp
next
  case (Some p)
  then obtain c where "sv_ctxs sv p = Some c"
    using handle_map_SomeD(2) by (fastforce simp: registered_def handles_of_def)
  then show ?thesis using context_push_ok [OF assms Some] Some by simp
qed

theorem context_push_delivers_witness:
  "\<exists>mq. fengnet_context_push (\<lambda>_. Some) 1 zero_message ex_server = Some (0, ex_server\<lparr>sv_mq := mq\<rparr>) \<and>
     messages (ex_server\<lparr>sv_mq := mq\<rparr>) 0 = [zero_message]"
  using context_push_delivers [OF ex_server_inv, where h = 1 and release = "\<lambda>_. Some" and msg = zero_message]
  by (auto simp: ex_server_simps) (auto simp: ex_ctx_def ex_server_simps)

text \<open>
  C36. A message sent to a service of this node arrives as it was sent: the queue of the destination gets one message with
  the source and the session, its type and its size can be read back from the packed size, its data is a
  fresh copy of the sender's data with a terminating zero, and the sender's data is untouched.
\<close>

theorem send_delivers_copy:
  assumes inv: "server_inv held sv" and l: "local_handle sv dest" "registered sv dest = Some p" "sv_ctxs sv p = Some c"
    and t: "0 \<le> type" "type < 256" and sz: "unat sz < 2 ^ 56" "unat sz \<le> length bs"
    and d: "data \<noteq> 0" "sv_mem sv data = Some (B_Data bs)" "sv_mem sv (sv_brk sv) = None" and src: "source \<noteq> 0"
  shows "\<exists>sv' m. fengnet_send release ctx source dest type session data sz sv = Some (session, sv') \<and>
    server_inv held sv' \<and> messages sv' = (messages sv)(c_queue c := messages sv (c_queue c) @ [m]) \<and>
    m_source m = source \<and> m_session m = session \<and> msg_type m = type \<and> msg_sz m = sz \<and>
    sv_mem sv' = (sv_mem sv)(m_data m \<mapsto> B_Data (take (unat sz) bs @ [0])) \<and> sv_mem sv' data = Some (B_Data bs)"
proof -
  let ?m = "\<lparr>m_source = source, m_session = session, m_data = sv_brk sv, m_sz = pack_sz sz type\<rparr>"
  let ?sv = "sv\<lparr>sv_mem := (sv_mem sv)(sv_brk sv \<mapsto> B_Data (take (unat sz) bs @ [0])), sv_brk := sv_brk sv + 1\<rparr>"
  obtain mq where mq: "fengnet_context_push release dest ?m ?sv = Some (0, ?sv\<lparr>sv_mq := mq\<rparr>)"
    "server_inv held (?sv\<lparr>sv_mq := mq\<rparr>)"
    "messages (?sv\<lparr>sv_mq := mq\<rparr>) = (messages sv)(c_queue c := messages sv (c_queue c) @ [?m])"
    using context_push_ok [of held ?sv dest p c release ?m] inv l by auto
  have "data \<noteq> sv_brk sv" using d by auto
  moreover have "msg_type ?m = type" "msg_sz ?m = sz"
    using pack_sz_fields [OF sz(1) t] t by (simp_all add: msg_type_def msg_sz_def MSG_TYPE_SHIFT_def uint_word_of_int)
  ultimately show ?thesis using send_local [OF l(1) t sz d(1,2) src] mq d
    by (intro exI [of _ "?sv\<lparr>sv_mq := mq\<rparr>"] exI [of _ ?m]) simp
qed

theorem send_delivers_copy_witness:
  "\<exists>sv' m. fengnet_send (\<lambda>_. Some) None 3 1 10 4 8 2 ex_server = Some (4, sv') \<and> messages sv' 0 = [m] \<and> msg_type m = 10 \<and> msg_sz m = 2"
  using send_delivers_copy [OF ex_server_inv ex_server_simps(4,1,3), of 10 2 "[65, 66]" 8 3 "\<lambda>_. Some" None 4]
  by (auto simp: ex_server_simps) (auto simp: ex_ctx_def ex_server_simps)



text \<open>
  A message sent to a handle of this node that no service has is not leaked: \<open>fengnet_send\<close> returns -1, frees the copy it
  made, and leaves the sender's data, the queues and the contexts as they were.
\<close>

theorem send_failure_frees_copy:
  assumes inv: "server_inv held sv" and l: "local_handle sv dest" "registered sv dest = None"
    and t: "0 \<le> type" "type < 256" and sz: "unat sz < 2 ^ 56" "unat sz \<le> length bs"
    and d: "data \<noteq> 0" "sv_mem sv data = Some (B_Data bs)" "sv_mem sv (sv_brk sv) = None" "sv_brk sv \<noteq> 0" and src: "source \<noteq> 0"
  shows "fengnet_send release ctx source dest type session data sz sv = Some (-1, sv\<lparr>sv_brk := sv_brk sv + 1\<rparr>)"
proof -
  let ?sv = "sv\<lparr>sv_mem := (sv_mem sv)(sv_brk sv \<mapsto> B_Data (take (unat sz) bs @ [0])), sv_brk := sv_brk sv + 1\<rparr>"
  have "fengnet_context_push release dest m ?sv = Some (-1, ?sv)" for m
    using context_push_unregistered [of held ?sv dest] inv l by simp
  moreover have "(sv_mem sv)(sv_brk sv := None) = sv_mem sv" using d by auto
  ultimately show ?thesis using send_local [OF l(1) t sz d(1,2) src] d(4) by (simp add: free_data_def)
qed


theorem send_failure_frees_copy_witness:
  "fengnet_send (\<lambda>_. Some) None 3 2 10 4 8 2 ex_server = Some (-1, ex_server\<lparr>sv_brk := 10\<rparr>)"
  using send_failure_frees_copy [OF ex_server_inv ex_server_simps(5,2), of 10 2 "[65, 66]" 8 3 "\<lambda>_. Some" None 4]
  by (simp add: ex_server_simps)

end
