(* ===== verification/Socket_Base.thy ===== *)
theory Socket_Base
  imports Fengnet_Prelude
begin

text \<open>
  The state of the socket server (\<^verbatim>\<open>fengnet-src/socket_server.cpp\<close>) and the operations on one slot: the
  table of sockets and the reservation of ids, the lists of buffers waiting to be written, enabling events,
  creating and closing a socket.

  The operating system is outside the program. Every system call whose result the code looks at takes the next
  entry of \<open>ss_tape\<close>, a list of arbitrary answers, and every call with an effect outside the process is
  appended to \<open>ss_log\<close>; once the tape is empty calls fail with \<open>EAGAIN\<close>. The buffers the server owns are
  blocks of \<open>ss_mem\<close>; freeing or reading a block that is not there is \<open>None\<close>, and so is a failed \<open>assert\<close> or
  waiting for a lock that the waiting thread holds. A \<open>wb_list\<close> is the list of the nodes reachable from its
  head. The union \<open>p\<close> of a socket is two fields, since a socket uses one of them. The object interface
  \<open>soi\<close> of a server is zeroed and never set, so that a call through it faults. Logging is left out.
\<close>

section \<open>Data\<close>

definition MAX_SOCKET :: nat where "MAX_SOCKET = 65536"
definition MIN_READ_BUFFER :: nat where "MIN_READ_BUFFER = 64"
definition MAX_UDP_PACKAGE :: nat where "MAX_UDP_PACKAGE = 65535"
definition WARNING_SIZE :: int where "WARNING_SIZE = 1024 * 1024"
definition UDP_ADDRESS_SIZE :: nat where "UDP_ADDRESS_SIZE = 19"
definition USEROBJECT :: nat where "USEROBJECT = 2 ^ 64 - 1"
definition MAX_EVENT :: nat where "MAX_EVENT = 64"
definition PROTOCOL_TCP :: byte where "PROTOCOL_TCP = 0"
definition PROTOCOL_UDP :: byte where "PROTOCOL_UDP = 1"
definition PROTOCOL_UDPv6 :: byte where "PROTOCOL_UDPv6 = 2"
definition PROTOCOL_UNKNOWN :: byte where "PROTOCOL_UNKNOWN = 255"

datatype socket_type =
  SOCKET_TYPE_INVALID | SOCKET_TYPE_RESERVE | SOCKET_TYPE_PLISTEN | SOCKET_TYPE_LISTEN | SOCKET_TYPE_CONNECTING
| SOCKET_TYPE_CONNECTED | SOCKET_TYPE_HALFCLOSE_READ | SOCKET_TYPE_HALFCLOSE_WRITE | SOCKET_TYPE_PACCEPT | SOCKET_TYPE_BIND

datatype socket_event =
  SOCKET_DATA | SOCKET_CLOSE | SOCKET_OPEN | SOCKET_ACCEPT | SOCKET_ERR | SOCKET_EXIT | SOCKET_UDP | SOCKET_WARNING
| SOCKET_RST | SOCKET_MORE

text \<open>The error numbers the code distinguishes (Linux).\<close>

definition EINTR :: int where "EINTR = 4"
definition EAGAIN :: int where "EAGAIN = 11"
definition ENFILE :: int where "ENFILE = 23"
definition EMFILE :: int where "EMFILE = 24"
definition EINPROGRESS :: int where "EINPROGRESS = 115"

text \<open>
  Where \<open>wb_ptr\<close> is the offset of \<open>ptr\<close> from \<open>buffer\<close>. \<open>wb_object\<close> is the size of the object that was allocated for
  the node, and \<open>wb_udp_address\<close> the field that a \<open>write_buffer_udp\<close> has after its \<open>write_buffer\<close>.
\<close>

record write_buffer =
  wb_buffer :: nat
  wb_ptr :: nat
  wb_sz :: nat
  wb_userobject :: bool
  wb_object :: nat
  wb_udp_address :: bytes

definition sizeof_write_buffer :: nat where "sizeof_write_buffer = 40"

definition sizeof_write_buffer_udp :: nat where
  "sizeof_write_buffer_udp = sizeof_write_buffer + UDP_ADDRESS_SIZE + 5"

record socket =
  s_opaque :: nat
  s_high :: "write_buffer list"
  s_low :: "write_buffer list"
  s_wb_size :: int
  s_rtime :: u64
  s_wtime :: u64
  s_read :: u64
  s_write :: u64
  s_sending :: u64
  s_fd :: int
  s_id :: int
  s_type :: socket_type
  s_protocol :: byte
  s_reading :: bool
  s_writing :: bool
  s_closing :: bool
  s_udpconnecting :: int
  s_warn_size :: int
  s_p_size :: nat
  s_udp_address :: bytes
  s_dw_lock :: bool
  s_dw_offset :: nat
  s_dw_buffer :: "nat option"
  s_dw_size :: nat

datatype sockaddr = SA_v4 (sin_port: bytes) (sin_addr: bytes) | SA_v6 (sin_port: bytes) (sin_addr: bytes)

record event =
  e_s :: "nat option"
  e_read :: bool
  e_write :: bool
  e_error :: bool
  e_eof :: bool

text \<open>An answer of the operating system: a return value, \<open>errno\<close>, and what the call fills in.\<close>

record os_answer =
  a_ret :: int
  a_errno :: int
  a_data :: bytes
  a_addr :: sockaddr
  a_events :: "event list"

datatype kcall =
  K_write int bytes | K_sendto int bytes sockaddr | K_close int | K_shutdown_rd int | K_shutdown_wr int
| K_add int nat | K_del int | K_mod int bool bool | K_setsockopt int int int | K_nonblocking int

text \<open>The messages threads write into the control pipe, by their command letters.\<close>

record request_send =
  rq_id :: int
  rq_sz :: nat
  rq_buffer :: nat

datatype request =
  Req_R int nat | Req_S int nat | Req_B int int nat | Req_L int int nat | Req_K int bool nat | Req_O int int nat bytes | Req_X
| Req_W int | Req_D request_send | Req_P request_send | Req_A request_send bytes | Req_C int bytes | Req_T int int int
| Req_U int int bool nat

text \<open>The data of a message to a service: nothing, a constant text, the text of an error, the name of an address, received bytes.\<close>

datatype message_data = D_null | D_text string | D_strerror int | D_gai_strerror int | D_name bytes | D_bytes bytes

record socket_message =
  sm_id :: int
  sm_opaque :: nat
  sm_ud :: int
  sm_data :: message_data

record socket_server =
  ss_time :: u64
  ss_reserve_fd :: int
  ss_checkctrl :: bool
  ss_alloc_id :: u32
  ss_event_index :: nat
  ss_ev :: "event list"
  ss_slot :: "nat \<Rightarrow> socket"
  ss_pipe :: "request list"
  ss_mem :: "nat \<rightharpoonup> bytes"
  ss_brk :: nat
  ss_tape :: "os_answer list"
  ss_log :: "kcall list"

text \<open>What a thread hands over to be sent: memory the server will free, an object, or bytes it must copy.\<close>

datatype socket_sendbuffer = SOCKET_BUFFER_MEMORY nat nat | SOCKET_BUFFER_OBJECT nat | SOCKET_BUFFER_RAWPOINTER bytes

definition HASH_ID :: "int \<Rightarrow> nat" where
  "HASH_ID sid = nat (sid mod int MAX_SOCKET)"

definition ID_TAG16 :: "int \<Rightarrow> u64" where
  "ID_TAG16 sid = word_of_int ((sid div int MAX_SOCKET) mod 65536)"

lemma HASH_ID_bound [simp]: "HASH_ID sid < MAX_SOCKET"
  by (simp add: HASH_ID_def MAX_SOCKET_def nat_less_iff)

abbreviation slot_of :: "int \<Rightarrow> socket_server \<Rightarrow> socket" where
  "slot_of sid ss \<equiv> ss_slot ss (HASH_ID sid)"

definition upd_slot :: "nat \<Rightarrow> (socket \<Rightarrow> socket) \<Rightarrow> socket_server \<Rightarrow> socket_server" where
  "upd_slot i f ss = ss\<lparr>ss_slot := (ss_slot ss)(i := f (ss_slot ss i))\<rparr>"

lemma upd_slot_sel [simp]:
  "ss_slot (upd_slot i f ss) = (ss_slot ss)(i := f (ss_slot ss i))"
  "ss_time (upd_slot i f ss) = ss_time ss" "ss_reserve_fd (upd_slot i f ss) = ss_reserve_fd ss"
  "ss_checkctrl (upd_slot i f ss) = ss_checkctrl ss" "ss_alloc_id (upd_slot i f ss) = ss_alloc_id ss"
  "ss_event_index (upd_slot i f ss) = ss_event_index ss" "ss_ev (upd_slot i f ss) = ss_ev ss"
  "ss_pipe (upd_slot i f ss) = ss_pipe ss" "ss_mem (upd_slot i f ss) = ss_mem ss" "ss_brk (upd_slot i f ss) = ss_brk ss"
  "ss_tape (upd_slot i f ss) = ss_tape ss" "ss_log (upd_slot i f ss) = ss_log ss"
  by (simp_all add: upd_slot_def)

section \<open>The operating system and the heap\<close>

definition no_answer :: os_answer where
  "no_answer = \<lparr>a_ret = -1, a_errno = EAGAIN, a_data = [], a_addr = SA_v4 [] [], a_events = []\<rparr>"

definition next_answer :: "socket_server \<Rightarrow> os_answer \<times> socket_server" where
  "next_answer ss = (case ss_tape ss of [] \<Rightarrow> (no_answer, ss) | a # as \<Rightarrow> (a, ss\<lparr>ss_tape := as\<rparr>))"

definition klog :: "kcall \<Rightarrow> socket_server \<Rightarrow> socket_server" where
  "klog c ss = ss\<lparr>ss_log := ss_log ss @ [c]\<rparr>"

text \<open>\<open>write\<close> and \<open>sendto\<close> accept a prefix of the bytes or fail with an error number.\<close>

definition sys_write :: "int \<Rightarrow> bytes \<Rightarrow> socket_server \<Rightarrow> (int + nat) \<times> socket_server" where
  "sys_write fd bs ss = (let (a, ss) = next_answer ss in
     if a_ret a < 0 then (Inl (a_errno a), ss)
     else let n = min (nat (a_ret a)) (length bs) in (Inr n, klog (K_write fd (take n bs)) ss))"

definition sys_sendto :: "int \<Rightarrow> bytes \<Rightarrow> sockaddr \<Rightarrow> socket_server \<Rightarrow> (int + nat) \<times> socket_server" where
  "sys_sendto fd bs sa ss = (let (a, ss) = next_answer ss in
     if a_ret a < 0 then (Inl (a_errno a), ss)
     else let n = min (nat (a_ret a)) (length bs) in (Inr n, klog (K_sendto fd (take n bs) sa) ss))"

definition sp_add :: "int \<Rightarrow> nat \<Rightarrow> socket_server \<Rightarrow> bool \<times> socket_server" where
  "sp_add fd i ss = (let (a, ss) = next_answer ss in (a_ret a = -1, klog (K_add fd i) ss))"

definition sp_del :: "int \<Rightarrow> socket_server \<Rightarrow> socket_server" where
  "sp_del fd ss = klog (K_del fd) ss"

definition sp_enable :: "int \<Rightarrow> bool \<Rightarrow> bool \<Rightarrow> socket_server \<Rightarrow> bool \<times> socket_server" where
  "sp_enable fd r w ss = (let (a, ss) = next_answer ss in (a_ret a = -1, klog (K_mod fd r w) ss))"

definition mem_read :: "nat \<Rightarrow> nat \<Rightarrow> nat \<Rightarrow> socket_server \<Rightarrow> bytes option" where
  "mem_read a p n ss = do { b \<leftarrow> ss_mem ss a; load_n b p n }"

definition mem_free :: "nat \<Rightarrow> socket_server \<Rightarrow> socket_server option" where
  "mem_free a ss = do { _ \<leftarrow> ss_mem ss a; Some (ss\<lparr>ss_mem := (ss_mem ss)(a := None)\<rparr>) }"

definition mem_alloc :: "bytes \<Rightarrow> socket_server \<Rightarrow> nat \<times> socket_server" where
  "mem_alloc bs ss = (ss_brk ss, ss\<lparr>ss_mem := (ss_mem ss)(ss_brk ss \<mapsto> bs), ss_brk := ss_brk ss + 1\<rparr>)"

section \<open>Predicates on a socket\<close>

definition socket_invalid :: "socket \<Rightarrow> int \<Rightarrow> bool" where
  "socket_invalid s sid \<longleftrightarrow> s_id s \<noteq> sid \<or> s_type s = SOCKET_TYPE_INVALID"

definition send_buffer_empty :: "socket \<Rightarrow> bool" where
  "send_buffer_empty s \<longleftrightarrow> s_high s = [] \<and> s_low s = []"

definition nomore_sending_data :: "socket \<Rightarrow> bool" where
  "nomore_sending_data s \<longleftrightarrow>
     (send_buffer_empty s \<and> s_dw_buffer s = None \<and> s_sending s AND 0xffff = 0) \<or> s_type s = SOCKET_TYPE_HALFCLOSE_WRITE"

definition halfclose_read :: "socket \<Rightarrow> bool" where
  "halfclose_read s \<longleftrightarrow> s_type s = SOCKET_TYPE_HALFCLOSE_READ"

definition can_direct_write :: "socket \<Rightarrow> int \<Rightarrow> bool" where
  "can_direct_write s sid \<longleftrightarrow>
     s_id s = sid \<and> nomore_sending_data s \<and> s_type s = SOCKET_TYPE_CONNECTED \<and> s_udpconnecting s = 0"

section \<open>Buffers\<close>

text \<open>\<open>send_object_init\<close> returns the buffer and its size; the size of an object faults in the call through \<open>soi\<close>.\<close>

definition send_object_init :: "nat \<Rightarrow> nat \<Rightarrow> (nat \<times> nat \<times> bool) option" where
  "send_object_init obj sz = (if sz = USEROBJECT then None else Some (obj, sz, False))"

definition write_buffer_free :: "write_buffer \<Rightarrow> socket_server \<Rightarrow> socket_server option" where
  "write_buffer_free wb ss = (if wb_userobject wb then None else mem_free (wb_buffer wb) ss)"

definition free_wb_list :: "write_buffer list \<Rightarrow> socket_server \<Rightarrow> socket_server option" where
  "free_wb_list ws ss = for_each write_buffer_free ws ss"

definition free_buffer :: "socket_sendbuffer \<Rightarrow> socket_server \<Rightarrow> socket_server option" where
  "free_buffer buf ss = (case buf of
     SOCKET_BUFFER_MEMORY b _ \<Rightarrow> mem_free b ss
   | SOCKET_BUFFER_OBJECT _ \<Rightarrow> None
   | SOCKET_BUFFER_RAWPOINTER _ \<Rightarrow> Some ss)"

definition clone_buffer :: "socket_sendbuffer \<Rightarrow> socket_server \<Rightarrow> nat \<times> nat \<times> socket_server" where
  "clone_buffer buf ss = (case buf of
     SOCKET_BUFFER_MEMORY b sz \<Rightarrow> (b, sz, ss)
   | SOCKET_BUFFER_OBJECT b \<Rightarrow> (b, USEROBJECT, ss)
   | SOCKET_BUFFER_RAWPOINTER bs \<Rightarrow> (let (tmp, ss) = mem_alloc bs ss in (tmp, length bs, ss)))"

definition check_wb_list :: "write_buffer list \<Rightarrow> bool" where
  "check_wb_list ws \<longleftrightarrow> ws = []"

section \<open>Events and statistics\<close>

definition enable_write :: "nat \<Rightarrow> bool \<Rightarrow> socket_server \<Rightarrow> bool \<times> socket_server" where
  "enable_write i enable ss = (let s = ss_slot ss i in
     if s_writing s \<noteq> enable then sp_enable (s_fd s) (s_reading s) enable (upd_slot i (s_writing_update (\<lambda>_. enable)) ss)
     else (False, ss))"

definition enable_read :: "nat \<Rightarrow> bool \<Rightarrow> socket_server \<Rightarrow> bool \<times> socket_server" where
  "enable_read i enable ss = (let s = ss_slot ss i in
     if s_reading s \<noteq> enable then sp_enable (s_fd s) enable (s_writing s) (upd_slot i (s_reading_update (\<lambda>_. enable)) ss)
     else (False, ss))"

definition stat_read :: "nat \<Rightarrow> nat \<Rightarrow> socket_server \<Rightarrow> socket_server" where
  "stat_read i n ss = upd_slot i (\<lambda>s. s\<lparr>s_read := s_read s + of_nat n, s_rtime := ss_time ss\<rparr>) ss"

definition stat_write :: "nat \<Rightarrow> nat \<Rightarrow> socket_server \<Rightarrow> socket_server" where
  "stat_write i n ss = upd_slot i (\<lambda>s. s\<lparr>s_write := s_write s + of_nat n, s_wtime := ss_time ss\<rparr>) ss"

section \<open>The life of a slot\<close>

text \<open>
  \<open>reserve_id\<close>: ids are handed out in order and belong to the slot of their hash. The sum \<open>fetch_add(1) + 1\<close> is
  taken to wrap around, as the test that follows it expects, and the exchange on a slot that was just seen free
  succeeds.
\<close>

definition reserved_socket :: "int \<Rightarrow> socket \<Rightarrow> socket" where
  "reserved_socket sid s = s\<lparr>s_type := SOCKET_TYPE_RESERVE, s_id := sid, s_protocol := PROTOCOL_UNKNOWN,
     s_udpconnecting := 0, s_fd := -1\<rparr>"

definition next_id :: "socket_server \<Rightarrow> int \<times> socket_server" where
  "next_id ss = (let n = ss_alloc_id ss + 1 in
     if sint n < 0 then (sint (n AND 0x7fffffff), ss\<lparr>ss_alloc_id := n AND 0x7fffffff\<rparr>)
     else (sint n, ss\<lparr>ss_alloc_id := n\<rparr>))"

fun reserve_loop :: "nat \<Rightarrow> socket_server \<Rightarrow> int option \<times> socket_server" where
  "reserve_loop 0 ss = (None, ss)"
| "reserve_loop (Suc n) ss = (let (sid, ss) = next_id ss in
     if s_type (slot_of sid ss) = SOCKET_TYPE_INVALID then (Some sid, upd_slot (HASH_ID sid) (reserved_socket sid) ss)
     else reserve_loop n ss)"

definition reserve_id :: "socket_server \<Rightarrow> int option \<times> socket_server" where
  "reserve_id ss = reserve_loop MAX_SOCKET ss"

text \<open>The fields \<open>new_fd\<close> sets, before it enables reading.\<close>

definition init_socket :: "int \<Rightarrow> int \<Rightarrow> byte \<Rightarrow> nat \<Rightarrow> socket \<Rightarrow> socket" where
  "init_socket sid fd protocol opaque s = s\<lparr>s_id := sid, s_fd := fd, s_reading := True, s_writing := False, s_closing := False,
     s_sending := push_bit 16 (ID_TAG16 sid), s_protocol := protocol, s_p_size := MIN_READ_BUFFER, s_opaque := opaque,
     s_wb_size := 0, s_warn_size := 0, s_dw_buffer := None, s_dw_size := 0,
     s_read := 0, s_write := 0, s_rtime := 0, s_wtime := 0\<rparr>"

definition set_type :: "nat \<Rightarrow> socket_type \<Rightarrow> socket_server \<Rightarrow> socket_server" where
  "set_type i t ss = upd_slot i (s_type_update (\<lambda>_. t)) ss"

definition new_fd ::
  "int \<Rightarrow> int \<Rightarrow> byte \<Rightarrow> nat \<Rightarrow> bool \<Rightarrow> socket_server \<Rightarrow> (nat option \<times> socket_server) option" where
  "new_fd sid fd protocol opaque reading ss = (let i = HASH_ID sid in
     if s_type (ss_slot ss i) \<noteq> SOCKET_TYPE_RESERVE then None
     else let (err, ss) = sp_add fd i ss in
       if err then Some (None, set_type i SOCKET_TYPE_INVALID ss)
       else if \<not> check_wb_list (s_high (ss_slot ss i)) \<or> \<not> check_wb_list (s_low (ss_slot ss i)) then None
       else let (err, ss) = enable_read i reading (upd_slot i (init_socket sid fd protocol opaque) ss) in
         if err then Some (None, set_type i SOCKET_TYPE_INVALID ss)
         else Some (Some i, ss))"

text \<open>
  \<open>force_close\<close>. The argument \<open>l\<close> is the count of the \<open>socket_lock\<close> of the caller; taking a lock that the caller
  does not count and that is taken waits for ever.
\<close>

definition message_of :: "socket \<Rightarrow> socket_message" where
  "message_of s = \<lparr>sm_id = s_id s, sm_opaque = s_opaque s, sm_ud = 0, sm_data = D_null\<rparr>"

definition free_dw :: "nat \<Rightarrow> socket_server \<Rightarrow> socket_server option" where
  "free_dw i ss = (let s = ss_slot ss i in case s_dw_buffer s of
     None \<Rightarrow> Some ss
   | Some b \<Rightarrow> do {
       ss \<leftarrow> free_buffer (if s_dw_size s = USEROBJECT then SOCKET_BUFFER_OBJECT b else SOCKET_BUFFER_MEMORY b (s_dw_size s)) ss;
       Some (upd_slot i (s_dw_buffer_update (\<lambda>_. None)) ss)
     })"

definition force_close :: "nat \<Rightarrow> nat \<Rightarrow> socket_server \<Rightarrow> (socket_message \<times> socket_server) option" where
  "force_close i l ss = (let s = ss_slot ss i in
     if s_type s = SOCKET_TYPE_INVALID then Some (message_of s, ss)
     else if s_type s = SOCKET_TYPE_RESERVE then None
     else do {
       ss \<leftarrow> free_wb_list (s_high s) ss;
       ss \<leftarrow> free_wb_list (s_low s) ss;
       let ss = upd_slot i (\<lambda>s. s\<lparr>s_high := [], s_low := []\<rparr>) ss;
       let ss = sp_del (s_fd s) ss;
       if l = 0 \<and> s_dw_lock s then None else do {
         let ss = (if s_type s \<noteq> SOCKET_TYPE_BIND then klog (K_close (s_fd s)) ss else ss);
         let ss = set_type i SOCKET_TYPE_INVALID ss;
         ss \<leftarrow> free_dw i ss;
         Some (message_of s, ss)
       }
     })"

text \<open>\<open>close_read\<close>, \<open>report_error\<close> and \<open>close_write\<close>. The error
  that \<open>close_write\<close> reports is taken to be that of the failed write, which a failing call in between would replace.\<close>

definition close_read :: "nat \<Rightarrow> socket_server \<Rightarrow> socket_message \<times> socket_server" where
  "close_read i ss = (let ss = set_type i SOCKET_TYPE_HALFCLOSE_READ ss;
     (_, ss) = enable_read i False ss;
     s = ss_slot ss i in
     (message_of s, klog (K_shutdown_rd (s_fd s)) ss))"

definition report_error :: "socket \<Rightarrow> message_data \<Rightarrow> socket_message" where
  "report_error s err = (message_of s)\<lparr>sm_data := err\<rparr>"

definition close_write ::
  "nat \<Rightarrow> nat \<Rightarrow> int \<Rightarrow> socket_message \<Rightarrow> socket_server \<Rightarrow> (socket_event \<times> socket_message \<times> socket_server) option" where
  "close_write i l err result ss = (let s = ss_slot ss i in
     if s_closing s \<or> s_type s = SOCKET_TYPE_HALFCLOSE_READ then do {
       (result, ss) \<leftarrow> force_close i l ss;
       Some (SOCKET_RST, result, ss)
     }
     else if s_type s = SOCKET_TYPE_HALFCLOSE_WRITE then Some (SOCKET_RST, result, ss)
     else let ss = set_type i SOCKET_TYPE_HALFCLOSE_WRITE ss;
       ss = klog (K_shutdown_wr (s_fd s)) ss;
       (_, ss) = enable_write i False ss in
       Some (SOCKET_ERR, report_error (ss_slot ss i) (D_strerror err), ss))"

end
