(* ===== verification/Socket_Server.thy ===== *)
theory Socket_Server
  imports Socket_Base
begin

text \<open>
  The operations of the socket server (\<^verbatim>\<open>fengnet-src/socket_server.cpp\<close>): writing the buffers of a socket, the commands
  that arrive through the control pipe, reading, accepting and connecting, the poll loop of the socket thread, and the
  functions other threads call. A command in the pipe is a value of \<open>request\<close>; the pipe is the list of the commands that
  were written and not read. A function that returns one of the codes \<open>SOCKET_...\<close> or -1 returns \<open>Some\<close> of the code or
  \<open>None\<close>; the outer \<open>option\<close> is the fault of \<open>Socket_Base\<close>.
\<close>

type_synonym reply = "socket_event option \<times> socket_message \<times> socket_server"

section \<open>Appending to the lists of a socket\<close>

definition wb_list_of :: "bool \<Rightarrow> socket \<Rightarrow> write_buffer list" where
  "wb_list_of high s = (if high then s_high s else s_low s)"

definition upd_wb_list :: "bool \<Rightarrow> (write_buffer list \<Rightarrow> write_buffer list) \<Rightarrow> socket \<Rightarrow> socket" where
  "upd_wb_list high f s = (if high then s\<lparr>s_high := f (s_high s)\<rparr> else s\<lparr>s_low := f (s_low s)\<rparr>)"

text \<open>The node is allocated as a \<open>write_buffer\<close>, whatever size the caller asks for.\<close>

definition new_write_buffer :: "request_send \<Rightarrow> nat \<Rightarrow> write_buffer option" where
  "new_write_buffer request object_size = do {
     (buffer, sz, userobject) \<leftarrow> send_object_init (rq_buffer request) (rq_sz request);
     Some \<lparr>wb_buffer = buffer, wb_ptr = 0, wb_sz = sz, wb_userobject = userobject, wb_object = sizeof_write_buffer,
       wb_udp_address = []\<rparr>
   }"

definition append_node :: "nat \<Rightarrow> bool \<Rightarrow> write_buffer \<Rightarrow> socket_server \<Rightarrow> socket_server" where
  "append_node i high wb ss = upd_slot i (\<lambda>s. (upd_wb_list high (\<lambda>ws. ws @ [wb]) s)\<lparr>s_wb_size := s_wb_size s + int (wb_sz wb)\<rparr>) ss"

definition append_sendbuffer :: "nat \<Rightarrow> request_send \<Rightarrow> socket_server \<Rightarrow> socket_server option" where
  "append_sendbuffer i request ss = do {
     wb \<leftarrow> new_write_buffer request sizeof_write_buffer;
     Some (append_node i True wb ss)
   }"

definition append_sendbuffer_low :: "nat \<Rightarrow> request_send \<Rightarrow> socket_server \<Rightarrow> socket_server option" where
  "append_sendbuffer_low i request ss = do {
     wb \<leftarrow> new_write_buffer request sizeof_write_buffer;
     Some (append_node i False wb ss)
   }"

text \<open>The address is copied behind the \<open>write_buffer\<close>, which is a write outside the object when that ends there.\<close>

definition append_sendbuffer_udp :: "nat \<Rightarrow> bool \<Rightarrow> request_send \<Rightarrow> bytes \<Rightarrow> socket_server \<Rightarrow> socket_server option" where
  "append_sendbuffer_udp i high request udp_address ss = do {
     wb \<leftarrow> new_write_buffer request sizeof_write_buffer_udp;
     if wb_object wb < sizeof_write_buffer + UDP_ADDRESS_SIZE then None
     else Some (append_node i high (wb\<lparr>wb_udp_address := udp_address\<rparr>) ss)
   }"

section \<open>Addresses\<close>

definition udp_socket_address :: "socket \<Rightarrow> bytes \<Rightarrow> sockaddr option" where
  "udp_socket_address s udp_address = (case udp_address of
     [] \<Rightarrow> None
   | type # a \<Rightarrow>
       if type \<noteq> s_protocol s then None
       else if type = PROTOCOL_UDP then Some (SA_v4 (take 2 a) (take 4 (drop 2 a)))
       else if type = PROTOCOL_UDPv6 then Some (SA_v6 (take 2 a) (take 16 (drop 2 a)))
       else None)"

definition gen_udp_address :: "byte \<Rightarrow> sockaddr \<Rightarrow> bytes" where
  "gen_udp_address protocol sa =
     (if protocol = PROTOCOL_UDP then protocol # sin_port sa @ sin_addr sa
      else protocol # sin_port sa @ sin_addr sa)"

definition udp_address_size :: "byte \<Rightarrow> nat option" where
  "udp_address_size type = (if type = PROTOCOL_UDP then Some (1 + 2 + 4)
     else if type = PROTOCOL_UDPv6 then Some (1 + 2 + 16) else None)"

section \<open>Writing the lists\<close>

text \<open>The body of the loop of \<open>send_list_tcp\<close>: one call of \<open>write\<close>.\<close>

definition send_tcp_step ::
  "nat \<Rightarrow> bool \<Rightarrow> nat \<Rightarrow> socket_message \<Rightarrow> socket_server \<Rightarrow> (socket_server + reply) option" where
  "send_tcp_step i high l result ss = (let s = ss_slot ss i in
     case wb_list_of high s of
       [] \<Rightarrow> Some (Inr (None, result, ss))
     | tmp # ws \<Rightarrow> do {
         bs \<leftarrow> mem_read (wb_buffer tmp) (wb_ptr tmp) (wb_sz tmp) ss;
         let (r, ss) = sys_write (s_fd s) bs ss;
         case r of
           Inl err \<Rightarrow>
             if err = EINTR then Some (Inl ss)
             else if err = EAGAIN then Some (Inr (None, result, ss))
             else do {
               (ev, result, ss) \<leftarrow> close_write i l err result ss;
               Some (Inr (Some ev, result, ss))
             }
         | Inr n \<Rightarrow> do {
             let ss = stat_write i n ss;
             let ss = upd_slot i (\<lambda>s. s\<lparr>s_wb_size := s_wb_size s - int n\<rparr>) ss;
             if n \<noteq> wb_sz tmp then
               Some (Inr (None, result, upd_slot i (upd_wb_list high (\<lambda>ws. case ws of [] \<Rightarrow> []
                 | tmp # ws \<Rightarrow> tmp\<lparr>wb_ptr := wb_ptr tmp + n, wb_sz := wb_sz tmp - n\<rparr> # ws)) ss))
             else do {
               ss \<leftarrow> write_buffer_free tmp (upd_slot i (upd_wb_list high tl) ss);
               Some (Inl ss)
             }
           }
       })"

definition send_list_tcp :: "nat \<Rightarrow> bool \<Rightarrow> nat \<Rightarrow> socket_message \<Rightarrow> socket_server \<Rightarrow> reply option" where
  "send_list_tcp i high l result ss = repeat_step (send_tcp_step i high l result) ss"

definition drop_udp :: "nat \<Rightarrow> bool \<Rightarrow> write_buffer \<Rightarrow> socket_server \<Rightarrow> socket_server option" where
  "drop_udp i high tmp ss =
     write_buffer_free tmp (upd_slot i (\<lambda>s. (upd_wb_list high tl s)\<lparr>s_wb_size := s_wb_size s - int (wb_sz tmp)\<rparr>) ss)"

definition send_udp_step :: "nat \<Rightarrow> bool \<Rightarrow> socket_message \<Rightarrow> socket_server \<Rightarrow> (socket_server + reply) option" where
  "send_udp_step i high result ss = (let s = ss_slot ss i in
     case wb_list_of high s of
       [] \<Rightarrow> Some (Inr (None, result, ss))
     | tmp # ws \<Rightarrow>
         if wb_object tmp < sizeof_write_buffer + UDP_ADDRESS_SIZE then None
         else (case udp_socket_address s (wb_udp_address tmp) of
             None \<Rightarrow> do { ss \<leftarrow> drop_udp i high tmp ss; Some (Inr (None, result, ss)) }
           | Some sa \<Rightarrow> do {
               bs \<leftarrow> mem_read (wb_buffer tmp) (wb_ptr tmp) (wb_sz tmp) ss;
               let (r, ss) = sys_sendto (s_fd s) bs sa ss;
               case r of
                 Inl err \<Rightarrow>
                   if err = EINTR \<or> err = EAGAIN then Some (Inr (None, result, ss))
                   else do { ss \<leftarrow> drop_udp i high tmp ss; Some (Inr (None, result, ss)) }
               | Inr _ \<Rightarrow> do {
                   ss \<leftarrow> drop_udp i high tmp (stat_write i (wb_sz tmp) ss);
                   Some (Inl ss)
                 }
             }))"

definition send_list_udp :: "nat \<Rightarrow> bool \<Rightarrow> socket_message \<Rightarrow> socket_server \<Rightarrow> reply option" where
  "send_list_udp i high result ss = repeat_step (send_udp_step i high result) ss"

definition send_list :: "nat \<Rightarrow> bool \<Rightarrow> nat \<Rightarrow> socket_message \<Rightarrow> socket_server \<Rightarrow> reply option" where
  "send_list i high l result ss =
     (if s_protocol (ss_slot ss i) = PROTOCOL_TCP then send_list_tcp i high l result ss else send_list_udp i high result ss)"

definition list_uncomplete :: "write_buffer list \<Rightarrow> bool" where
  "list_uncomplete ws = (case ws of [] \<Rightarrow> False | wb # _ \<Rightarrow> wb_ptr wb \<noteq> 0)"

definition raise_uncomplete :: "nat \<Rightarrow> socket_server \<Rightarrow> socket_server option" where
  "raise_uncomplete i ss = (let s = ss_slot ss i in case s_low s of
     [] \<Rightarrow> None
   | tmp # ws \<Rightarrow> if s_high s \<noteq> [] then None else Some (upd_slot i (\<lambda>s. s\<lparr>s_low := ws, s_high := [tmp]\<rparr>) ss))"

text \<open>The last step of \<open>send_buffer_lists\<close> (\<open>send_buffer_\<close> of the code): both lists are written.\<close>

definition send_buffer_done :: "nat \<Rightarrow> nat \<Rightarrow> socket_message \<Rightarrow> socket_server \<Rightarrow> reply option" where
  "send_buffer_done i l result ss = (let s = ss_slot ss i in
     if \<not> send_buffer_empty s \<or> s_wb_size s \<noteq> 0 then None
     else if s_closing s then do {
       (result, ss) \<leftarrow> force_close i l ss;
       Some (None, result, ss)
     }
     else let (err, ss) = enable_write i False ss in
       if err then Some (Some SOCKET_ERR, report_error (ss_slot ss i) (D_text ''disable write failed''), ss)
       else if s_warn_size s > 0 then
         Some (Some SOCKET_WARNING, message_of s, upd_slot i (s_warn_size_update (\<lambda>_. 0)) ss)
       else Some (None, result, ss))"

text \<open>An event of \<open>send_list\<close> is \<open>SOCKET_ERR\<close>, which is reported, or \<open>SOCKET_RST\<close>, which is not.\<close>

definition send_list_event :: "socket_event \<Rightarrow> socket_message \<Rightarrow> socket_server \<Rightarrow> reply" where
  "send_list_event ev result ss = (if ev = SOCKET_ERR then (Some SOCKET_ERR, result, ss) else (None, result, ss))"

text \<open>\<open>send_buffer_\<close> from the point where the high list is empty and the low list is not.\<close>

definition send_buffer_low :: "nat \<Rightarrow> nat \<Rightarrow> socket_message \<Rightarrow> socket_server \<Rightarrow> reply option" where
  "send_buffer_low i l result ss = do {
     (ret, result, ss) \<leftarrow> send_list i False l result ss;
     case ret of
       Some ev \<Rightarrow> Some (send_list_event ev result ss)
     | None \<Rightarrow>
         if list_uncomplete (s_low (ss_slot ss i)) then do {
           ss \<leftarrow> raise_uncomplete i ss;
           Some (None, result, ss)
         }
         else if s_low (ss_slot ss i) \<noteq> [] then Some (None, result, ss)
         else send_buffer_done i l result ss
   }"

definition send_buffer_lists :: "nat \<Rightarrow> nat \<Rightarrow> socket_message \<Rightarrow> socket_server \<Rightarrow> reply option" where
  "send_buffer_lists i l result ss = (
     if list_uncomplete (s_low (ss_slot ss i)) then None
     else do {
       (ret, result, ss) \<leftarrow> send_list i True l result ss;
       case ret of
         Some ev \<Rightarrow> Some (send_list_event ev result ss)
       | None \<Rightarrow>
           if s_high (ss_slot ss i) \<noteq> [] then Some (None, result, ss)
           else if s_low (ss_slot ss i) = [] then send_buffer_done i l result ss
           else send_buffer_low i l result ss
     })"

text \<open>The buffer of a direct write that was not completed goes before the high list.\<close>

definition take_dw :: "nat \<Rightarrow> socket_server \<Rightarrow> socket_server option" where
  "take_dw i ss = (let s = ss_slot ss i in case s_dw_buffer s of
     None \<Rightarrow> Some ss
   | Some b \<Rightarrow> do {
       (buffer, sz, userobject) \<leftarrow> send_object_init b (s_dw_size s);
       let wb = \<lparr>wb_buffer = buffer, wb_ptr = s_dw_offset s, wb_sz = sz - s_dw_offset s, wb_userobject = userobject,
         wb_object = sizeof_write_buffer, wb_udp_address = []\<rparr>;
       Some (upd_slot i (\<lambda>s. s\<lparr>s_wb_size := s_wb_size s + int (wb_sz wb), s_high := wb # s_high s, s_dw_buffer := None\<rparr>) ss)
     })"

definition send_buffer :: "nat \<Rightarrow> nat \<Rightarrow> socket_message \<Rightarrow> socket_server \<Rightarrow> reply option" where
  "send_buffer i l result ss = (
     if l = 0 \<and> s_dw_lock (ss_slot ss i) then Some (None, result, ss)
     else do {
       let ss = upd_slot i (s_dw_lock_update (\<lambda>_. True)) ss;
       ss \<leftarrow> take_dw i ss;
       (r, result, ss) \<leftarrow> send_buffer_lists i (l + 1) result ss;
       Some (r, result, if l = 0 then upd_slot i (s_dw_lock_update (\<lambda>_. False)) ss else ss)
     })"

section \<open>Commands\<close>

definition send_warning :: "nat \<Rightarrow> socket_message \<Rightarrow> socket_server \<Rightarrow> reply" where
  "send_warning i result ss = (let s = ss_slot ss i in
     if s_wb_size s \<ge> WARNING_SIZE \<and> s_wb_size s \<ge> s_warn_size s then
       (Some SOCKET_WARNING,
        (message_of s)\<lparr>sm_ud := if s_wb_size s mod 1024 = 0 then s_wb_size s div 1024 else s_wb_size s div 1024 + 1\<rparr>,
        upd_slot i (s_warn_size_update (\<lambda>w. if w = 0 then WARNING_SIZE * 2 else w * 2)) ss)
     else (None, result, ss))"

definition send_socket ::
  "request_send \<Rightarrow> bool \<Rightarrow> bytes option \<Rightarrow> socket_message \<Rightarrow> socket_server \<Rightarrow> reply option" where
  "send_socket request high udp_address result ss = (let i = HASH_ID (rq_id request); s = ss_slot ss i in do {
     (buffer, sz, _) \<leftarrow> send_object_init (rq_buffer request) (rq_sz request);
     if s_type s = SOCKET_TYPE_INVALID \<or> s_id s \<noteq> rq_id request \<or> s_type s = SOCKET_TYPE_HALFCLOSE_WRITE
       \<or> s_type s = SOCKET_TYPE_PACCEPT \<or> s_closing s \<or> s_type s = SOCKET_TYPE_PLISTEN \<or> s_type s = SOCKET_TYPE_LISTEN then do {
       ss \<leftarrow> mem_free (rq_buffer request) ss;
       Some (None, result, ss)
     }
     else if send_buffer_empty s then
       if s_protocol s = PROTOCOL_TCP then do {
         ss \<leftarrow> append_sendbuffer i request ss;
         let (err, ss) = enable_write i True ss;
         if err then Some (Some SOCKET_ERR, report_error (ss_slot ss i) (D_text ''enable write failed''), ss)
         else Some (send_warning i result ss)
       }
       else let udp_address = (case udp_address of None \<Rightarrow> s_udp_address s | Some a \<Rightarrow> a) in
         (case udp_socket_address s udp_address of
           None \<Rightarrow> do { ss \<leftarrow> mem_free (rq_buffer request) ss; Some (None, result, ss) }
         | Some sa \<Rightarrow> do {
             bs \<leftarrow> mem_read buffer 0 sz ss;
             let (r, ss) = sys_sendto (s_fd s) bs sa ss;
             if r = Inr sz then do {
               ss \<leftarrow> mem_free (rq_buffer request) (stat_write i sz ss);
               Some (None, result, ss)
             }
             else do {
               ss \<leftarrow> append_sendbuffer_udp i high request udp_address ss;
               let (err, ss) = enable_write i True ss;
               if err then Some (Some SOCKET_ERR, report_error (ss_slot ss i) (D_text ''enable write failed''), ss)
               else Some (send_warning i result ss)
             }
           })
     else do {
       ss \<leftarrow> (if s_protocol s = PROTOCOL_TCP then
           if high then append_sendbuffer i request ss else append_sendbuffer_low i request ss
         else append_sendbuffer_udp i high request (case udp_address of None \<Rightarrow> s_udp_address s | Some a \<Rightarrow> a) ss);
       Some (send_warning i result ss)
     }
   })"

definition trigger_write :: "int \<Rightarrow> socket_message \<Rightarrow> socket_server \<Rightarrow> reply" where
  "trigger_write sid result ss = (let i = HASH_ID sid in
     if socket_invalid (ss_slot ss i) sid then (None, result, ss)
     else let (err, ss) = enable_write i True ss in
       if err then (Some SOCKET_ERR, report_error (ss_slot ss i) (D_text ''enable write failed''), ss)
       else (None, result, ss))"

definition close_socket :: "int \<Rightarrow> bool \<Rightarrow> socket_message \<Rightarrow> socket_server \<Rightarrow> reply option" where
  "close_socket sid shutdown result ss = (let i = HASH_ID sid; s = ss_slot ss i in
     if socket_invalid s sid then Some (None, result, ss)
     else let shutdown_read = halfclose_read s in
       if shutdown \<or> nomore_sending_data s then do {
         (result, ss) \<leftarrow> force_close i 0 ss;
         Some (if shutdown_read then None else Some SOCKET_CLOSE, result, ss)
       }
       else let ss = upd_slot i (s_closing_update (\<lambda>_. True)) ss in
         if \<not> shutdown_read then let (result, ss) = close_read i ss in Some (Some SOCKET_CLOSE, result, ss)
         else Some (None, result, ss))"

definition limit_message :: "int \<Rightarrow> nat \<Rightarrow> socket_message" where
  "limit_message sid opaque = \<lparr>sm_id = sid, sm_opaque = opaque, sm_ud = 0, sm_data = D_text ''reach skynet socket number limit''\<rparr>"

definition bind_socket :: "int \<Rightarrow> int \<Rightarrow> nat \<Rightarrow> socket_server \<Rightarrow> reply option" where
  "bind_socket sid fd opaque ss = do {
     (s, ss) \<leftarrow> new_fd sid fd PROTOCOL_TCP opaque True ss;
     case s of
       None \<Rightarrow> Some (Some SOCKET_ERR, limit_message sid opaque, ss)
     | Some i \<Rightarrow> Some (Some SOCKET_OPEN, \<lparr>sm_id = sid, sm_opaque = opaque, sm_ud = 0, sm_data = D_text ''binding''\<rparr>,
         set_type i SOCKET_TYPE_BIND (klog (K_nonblocking fd) ss))
   }"

definition resume_socket :: "int \<Rightarrow> nat \<Rightarrow> socket_server \<Rightarrow> reply" where
  "resume_socket sid opaque ss = (let i = HASH_ID sid; s = ss_slot ss i;
     result = \<lparr>sm_id = sid, sm_opaque = opaque, sm_ud = 0, sm_data = D_null\<rparr> in
     if socket_invalid s sid then (Some SOCKET_ERR, result\<lparr>sm_data := D_text ''invalid socket''\<rparr>, ss)
     else if halfclose_read s then (Some SOCKET_ERR, result\<lparr>sm_data := D_text ''socket closed''\<rparr>, ss)
     else let (err, ss) = enable_read i True ss in
       if err then (Some SOCKET_ERR, result\<lparr>sm_data := D_text ''enable read failed''\<rparr>, ss)
       else if s_type s = SOCKET_TYPE_PACCEPT \<or> s_type s = SOCKET_TYPE_PLISTEN then
         (Some SOCKET_OPEN, result\<lparr>sm_data := D_text ''start''\<rparr>,
          upd_slot i (\<lambda>s. s\<lparr>s_type := if s_type s = SOCKET_TYPE_PACCEPT then SOCKET_TYPE_CONNECTED else SOCKET_TYPE_LISTEN,
            s_opaque := opaque\<rparr>) ss)
       else if s_type s = SOCKET_TYPE_CONNECTED then
         (Some SOCKET_OPEN, result\<lparr>sm_data := D_text ''transfer''\<rparr>, upd_slot i (s_opaque_update (\<lambda>_. opaque)) ss)
       else (None, result, ss))"

definition pause_socket :: "int \<Rightarrow> socket_message \<Rightarrow> socket_server \<Rightarrow> reply" where
  "pause_socket sid result ss = (let i = HASH_ID sid in
     if socket_invalid (ss_slot ss i) sid then (None, result, ss)
     else let (err, ss) = enable_read i False ss in
       if err then (Some SOCKET_ERR, report_error (ss_slot ss i) (D_text ''enable read failed''), ss)
       else (None, result, ss))"

definition setopt_socket :: "int \<Rightarrow> int \<Rightarrow> int \<Rightarrow> socket_server \<Rightarrow> socket_server" where
  "setopt_socket sid what v ss = (let s = slot_of sid ss in
     if socket_invalid s sid then ss else klog (K_setsockopt (s_fd s) what v) ss)"

text \<open>The text of an address: the result of \<open>inet_ntop\<close> and the port in decimal, cut to the buffer.\<close>

fun decimal :: "nat \<Rightarrow> bytes" where
  "decimal n = (if n < 10 then [of_nat (48 + n)] else decimal (n div 10) @ [of_nat (48 + n mod 10)])"

declare decimal.simps [simp del]

definition ntohs :: "bytes \<Rightarrow> nat" where
  "ntohs port = foldl (\<lambda>n b. n * 256 + unat b) 0 port"

definition inet_ntop :: "socket_server \<Rightarrow> (int + bytes) \<times> socket_server" where
  "inet_ntop ss = (let (a, ss) = next_answer ss in (if a_ret a = 0 then Inl (a_errno a) else Inr (a_data a), ss))"

definition getname :: "sockaddr \<Rightarrow> socket_server \<Rightarrow> bytes option \<times> socket_server" where
  "getname u ss = (let (r, ss) = inet_ntop ss in
     (case r of Inl _ \<Rightarrow> None | Inr tmp \<Rightarrow> Some (take 127 (tmp @ [58] @ decimal (ntohs (sin_port u)))), ss))"

text \<open>
  \<open>open_socket\<close>: the addresses of the host are tried in turn until \<open>connect\<close> succeeds or is in progress. \<open>getaddrinfo\<close>
  answers with one entry of its data per address.
\<close>

fun try_connect :: "nat \<Rightarrow> int \<Rightarrow> socket_server \<Rightarrow> (int + int \<times> bool) \<times> socket_server" where
  "try_connect 0 err ss = (Inl err, ss)"
| "try_connect (Suc n) err ss = (let (a, ss) = next_answer ss in
     if a_ret a < 0 then try_connect n (a_errno a) ss
     else let sock = a_ret a;
       ss = klog (K_nonblocking sock) (klog (K_setsockopt sock 9 1) ss);
       (c, ss) = next_answer ss in
       if a_ret c \<noteq> 0 \<and> a_errno c \<noteq> EINPROGRESS then try_connect n (a_errno c) (klog (K_close sock) ss)
       else (Inr (sock, a_ret c = 0), ss))"

definition open_failed :: "int \<Rightarrow> int option \<Rightarrow> socket_server \<Rightarrow> socket_server" where
  "open_failed sid sock ss =
     set_type (HASH_ID sid) SOCKET_TYPE_INVALID (case sock of None \<Rightarrow> ss | Some fd \<Rightarrow> klog (K_close fd) ss)"

definition open_socket :: "int \<Rightarrow> int \<Rightarrow> nat \<Rightarrow> bytes \<Rightarrow> socket_server \<Rightarrow> reply option" where
  "open_socket sid port opaque host ss = (
     let result = \<lparr>sm_id = sid, sm_opaque = opaque, sm_ud = 0, sm_data = D_null\<rparr>;
       (g, ss) = next_answer ss in
     if a_ret g \<noteq> 0 then Some (Some SOCKET_ERR, result\<lparr>sm_data := D_gai_strerror (a_ret g)\<rparr>, open_failed sid None ss)
     else let (r, ss) = try_connect (length (a_data g)) (a_errno g) ss in
       (case r of
         Inl err \<Rightarrow> Some (Some SOCKET_ERR, result\<lparr>sm_data := D_strerror err\<rparr>, open_failed sid None ss)
       | Inr (sock, connected) \<Rightarrow> do {
           (ns, ss) \<leftarrow> new_fd sid sock PROTOCOL_TCP opaque True ss;
           case ns of
             None \<Rightarrow> Some (Some SOCKET_ERR, limit_message sid opaque, open_failed sid (Some sock) ss)
           | Some i \<Rightarrow>
               if connected then let ss = set_type i SOCKET_TYPE_CONNECTED ss; (nm, ss) = inet_ntop ss in
                 Some (Some SOCKET_OPEN, result\<lparr>sm_data := case nm of Inl _ \<Rightarrow> D_null | Inr t \<Rightarrow> D_name t\<rparr>, ss)
               else let (err, ss) = enable_write i True ss in
                 if err then Some (Some SOCKET_ERR, result\<lparr>sm_data := D_text ''enable write failed''\<rparr>, open_failed sid (Some sock) ss)
                 else Some (None, result, set_type i SOCKET_TYPE_CONNECTING ss)
         }))"

definition listen_socket :: "int \<Rightarrow> int \<Rightarrow> nat \<Rightarrow> socket_server \<Rightarrow> reply option" where
  "listen_socket sid listen_fd opaque ss = do {
     (s, ss) \<leftarrow> new_fd sid listen_fd PROTOCOL_TCP opaque False ss;
     case s of
       None \<Rightarrow> Some (Some SOCKET_ERR, limit_message sid opaque,
         set_type (HASH_ID sid) SOCKET_TYPE_INVALID (klog (K_close listen_fd) ss))
     | Some i \<Rightarrow> do {
         let ss = set_type i SOCKET_TYPE_PLISTEN ss;
         let result = \<lparr>sm_id = sid, sm_opaque = opaque, sm_ud = 0, sm_data = D_text ''listen''\<rparr>;
         let (a, ss) = next_answer ss;
         if a_ret a \<noteq> 0 then Some (Some SOCKET_ERR, result\<lparr>sm_data := D_strerror (a_errno a)\<rparr>, ss)
         else let (r, ss) = inet_ntop ss in
           Some (case r of
             Inl err \<Rightarrow> (Some SOCKET_ERR, result\<lparr>sm_data := D_strerror err\<rparr>, ss)
           | Inr t \<Rightarrow> (Some SOCKET_OPEN, result\<lparr>sm_data := D_name t, sm_ud := int (ntohs (sin_port (a_addr a)))\<rparr>, ss))
       }
   }"

definition set_udp_address :: "int \<Rightarrow> bytes \<Rightarrow> socket_message \<Rightarrow> socket_server \<Rightarrow> reply option" where
  "set_udp_address sid address result ss = (let i = HASH_ID sid; s = ss_slot ss i in
     if socket_invalid s sid then Some (None, result, ss)
     else do {
       type \<leftarrow> load address 0;
       if type \<noteq> s_protocol s then Some (Some SOCKET_ERR, report_error s (D_text ''protocol mismatch''), ss)
       else do {
         a \<leftarrow> load_n address 0 (if type = PROTOCOL_UDP then 1 + 2 + 4 else 1 + 2 + 16);
         Some (None, result, upd_slot i (\<lambda>s. s\<lparr>s_udp_address := a @ drop (length a) (s_udp_address s),
           s_udpconnecting := s_udpconnecting s - 1\<rparr>) ss)
       }
     })"

definition add_udp_socket :: "int \<Rightarrow> int \<Rightarrow> bool \<Rightarrow> nat \<Rightarrow> socket_server \<Rightarrow> socket_server option" where
  "add_udp_socket sid fd inet6 opaque ss = do {
     (ns, ss) \<leftarrow> new_fd sid fd (if inet6 then PROTOCOL_UDPv6 else PROTOCOL_UDP) opaque True ss;
     case ns of
       None \<Rightarrow> Some (set_type (HASH_ID sid) SOCKET_TYPE_INVALID (klog (K_close fd) ss))
     | Some i \<Rightarrow> Some (upd_slot i (\<lambda>s. s\<lparr>s_type := SOCKET_TYPE_CONNECTED,
         s_udp_address := replicate UDP_ADDRESS_SIZE 0\<rparr>) ss)
   }"

text \<open>The count of the packages of a socket that are in the pipe; a full count waits for the socket thread.\<close>

definition inc_sending_ref :: "nat \<Rightarrow> int \<Rightarrow> socket_server \<Rightarrow> socket_server option" where
  "inc_sending_ref i sid ss = (let s = ss_slot ss i in
     if s_protocol s \<noteq> PROTOCOL_TCP then Some ss
     else if drop_bit 16 (s_sending s) = ID_TAG16 sid then
       if s_sending s AND 0xffff = 0xffff then None
       else Some (upd_slot i (\<lambda>s. s\<lparr>s_sending := s_sending s + 1\<rparr>) ss)
     else Some ss)"

definition dec_sending_ref :: "int \<Rightarrow> socket_server \<Rightarrow> socket_server option" where
  "dec_sending_ref sid ss = (let i = HASH_ID sid; s = ss_slot ss i in
     if s_id s = sid \<and> s_protocol s = PROTOCOL_TCP then
       if s_sending s AND 0xffff = 0 then None
       else Some (upd_slot i (\<lambda>s. s\<lparr>s_sending := s_sending s - 1\<rparr>) ss)
     else Some ss)"

definition do_request :: "request \<Rightarrow> socket_message \<Rightarrow> socket_server \<Rightarrow> reply option" where
  "do_request req result ss = (case req of
     Req_R sid opaque \<Rightarrow> Some (resume_socket sid opaque ss)
   | Req_S sid opaque \<Rightarrow> Some (pause_socket sid result ss)
   | Req_B sid fd opaque \<Rightarrow> bind_socket sid fd opaque ss
   | Req_L sid fd opaque \<Rightarrow> listen_socket sid fd opaque ss
   | Req_K sid shutdown opaque \<Rightarrow> close_socket sid shutdown result ss
   | Req_O sid port opaque host \<Rightarrow> open_socket sid port opaque host ss
   | Req_X \<Rightarrow> Some (Some SOCKET_EXIT, \<lparr>sm_id = 0, sm_opaque = 0, sm_ud = 0, sm_data = D_null\<rparr>, ss)
   | Req_W sid \<Rightarrow> Some (trigger_write sid result ss)
   | Req_D request \<Rightarrow> do {
       (ret, result, ss) \<leftarrow> send_socket request True None result ss;
       ss \<leftarrow> dec_sending_ref (rq_id request) ss;
       Some (ret, result, ss)
     }
   | Req_P request \<Rightarrow> do {
       (ret, result, ss) \<leftarrow> send_socket request False None result ss;
       ss \<leftarrow> dec_sending_ref (rq_id request) ss;
       Some (ret, result, ss)
     }
   | Req_A request address \<Rightarrow> send_socket request True (Some address) result ss
   | Req_C sid address \<Rightarrow> set_udp_address sid address result ss
   | Req_T sid what v \<Rightarrow> Some (None, result, setopt_socket sid what v ss)
   | Req_U sid fd inet6 opaque \<Rightarrow> do {
       ss \<leftarrow> add_udp_socket sid fd inet6 opaque ss;
       Some (None, result, ss)
     })"

definition ctrl_cmd :: "socket_message \<Rightarrow> socket_server \<Rightarrow> reply option" where
  "ctrl_cmd result ss = (case ss_pipe ss of
     [] \<Rightarrow> None
   | req # reqs \<Rightarrow> do_request req result (ss\<lparr>ss_pipe := reqs\<rparr>))"

section \<open>Events\<close>

definition report_connect :: "nat \<Rightarrow> nat \<Rightarrow> socket_server \<Rightarrow> reply option" where
  "report_connect i l ss = (let (a, ss) = next_answer ss; error = (if a_ret a < 0 then a_errno a else a_ret a) in
     if error \<noteq> 0 \<or> a_ret a < 0 then do {
       (result, ss) \<leftarrow> force_close i l ss;
       Some (Some SOCKET_ERR, result\<lparr>sm_data := D_strerror error\<rparr>, ss)
     }
     else let ss = set_type i SOCKET_TYPE_CONNECTED ss; s = ss_slot ss i;
       (err, ss) = (if nomore_sending_data s then enable_write i False ss else (False, ss)) in
       if err then do {
         (result, ss) \<leftarrow> force_close i l ss;
         Some (Some SOCKET_ERR, result\<lparr>sm_data := D_text ''disable write failed''\<rparr>, ss)
       }
       else let (p, ss) = next_answer ss in
         if a_ret p = 0 then let (nm, ss) = inet_ntop ss in
           Some (Some SOCKET_OPEN, (message_of s)\<lparr>sm_data := case nm of Inl _ \<Rightarrow> D_null | Inr t \<Rightarrow> D_name t\<rparr>, ss)
         else Some (Some SOCKET_OPEN, message_of s, ss))"

text \<open>\<open>report_accept\<close> returns 1, 0 or -1.\<close>

definition report_accept :: "nat \<Rightarrow> socket_message \<Rightarrow> socket_server \<Rightarrow> (int \<times> socket_message \<times> socket_server) option" where
  "report_accept i result ss = (let s = ss_slot ss i; (a, ss) = next_answer ss; client_fd = a_ret a in
     if client_fd < 0 then
       if a_errno a = EMFILE \<or> a_errno a = ENFILE then
         let result = (message_of s)\<lparr>sm_data := D_strerror (a_errno a)\<rparr> in
         if ss_reserve_fd ss \<ge> 0 then
           let ss = klog (K_close (ss_reserve_fd ss)) ss; (b, ss) = next_answer ss;
             ss = (if a_ret b \<ge> 0 then klog (K_close (a_ret b)) ss else ss);
             (c, ss) = next_answer ss in
           Some (-1, result, ss\<lparr>ss_reserve_fd := a_ret c\<rparr>)
         else Some (-1, result, ss)
       else Some (0, result, ss)
     else let (rid, ss) = reserve_id ss in
       (case rid of
         None \<Rightarrow> Some (0, result, klog (K_close client_fd) ss)
       | Some sid \<Rightarrow> do {
           let ss = klog (K_nonblocking client_fd) (klog (K_setsockopt client_fd 9 1) ss);
           (ns, ss) \<leftarrow> new_fd sid client_fd PROTOCOL_TCP (s_opaque s) False ss;
           case ns of
             None \<Rightarrow> Some (0, result, klog (K_close client_fd) ss)
           | Some j \<Rightarrow> do {
               let ss = set_type j SOCKET_TYPE_PACCEPT (stat_read i 1 ss);
               let (nm, ss) = getname (a_addr a) ss;
               Some (1, (message_of s)\<lparr>sm_ud := sid, sm_data := case nm of None \<Rightarrow> D_null | Some t \<Rightarrow> D_name t\<rparr>, ss)
             }
         }))"

fun clear_event :: "(nat \<Rightarrow> socket) \<Rightarrow> int \<Rightarrow> event list \<Rightarrow> event list" where
  "clear_event slot sid [] = []"
| "clear_event slot sid (e # es) = (case e_s e of
     None \<Rightarrow> e # clear_event slot sid es
   | Some i \<Rightarrow>
       if socket_invalid (slot i) sid \<and> s_id (slot i) = sid then e\<lparr>e_s := None\<rparr> # es
       else e # clear_event slot sid es)"

definition clear_closed_event :: "socket_message \<Rightarrow> socket_event \<Rightarrow> socket_server \<Rightarrow> socket_server" where
  "clear_closed_event result type ss =
     (if type = SOCKET_CLOSE \<or> type = SOCKET_ERR then
        ss\<lparr>ss_ev := take (ss_event_index ss) (ss_ev ss)
          @ clear_event (ss_slot ss) (sm_id result) (drop (ss_event_index ss) (ss_ev ss))\<rparr>
      else ss)"

definition forward_message_tcp :: "nat \<Rightarrow> nat \<Rightarrow> socket_message \<Rightarrow> socket_server \<Rightarrow> reply option" where
  "forward_message_tcp i l result ss = (let s = ss_slot ss i; sz = s_p_size s; (a, ss) = next_answer ss in
     if a_ret a < 0 then
       if a_errno a = EINTR \<or> a_errno a = EAGAIN then Some (None, result, ss)
       else Some (Some SOCKET_ERR, report_error s (D_strerror (a_errno a)), ss)
     else let bs = take sz (a_data a) in
       if bs = [] then
         if s_closing s then
           if nomore_sending_data s then do { (result, ss) \<leftarrow> force_close i l ss; Some (None, result, ss) }
           else Some (None, result, ss)
         else if s_type s = SOCKET_TYPE_HALFCLOSE_READ then Some (None, result, ss)
         else if s_type s = SOCKET_TYPE_HALFCLOSE_WRITE then do {
           (result, ss) \<leftarrow> force_close i l ss;
           Some (Some SOCKET_CLOSE, result, ss)
         }
         else let (result, ss) = close_read i ss in Some (Some SOCKET_CLOSE, result, ss)
       else if halfclose_read s then Some (None, result, ss)
       else let n = length bs; ss = stat_read i n ss;
         result = (message_of s)\<lparr>sm_ud := int n, sm_data := D_bytes bs\<rparr> in
         if n = sz then Some (Some SOCKET_MORE, result, upd_slot i (s_p_size_update (\<lambda>p. p * 2)) ss)
         else if sz > MIN_READ_BUFFER \<and> n * 2 < sz then Some (Some SOCKET_DATA, result, upd_slot i (s_p_size_update (\<lambda>p. p div 2)) ss)
         else Some (Some SOCKET_DATA, result, ss))"

definition forward_message_udp :: "nat \<Rightarrow> nat \<Rightarrow> socket_message \<Rightarrow> socket_server \<Rightarrow> reply option" where
  "forward_message_udp i l result ss = (let s = ss_slot ss i; (a, ss) = next_answer ss in
     if a_ret a < 0 then
       if a_errno a = EINTR \<or> a_errno a = EAGAIN then Some (None, result, ss)
       else do {
         (result, ss) \<leftarrow> force_close i l ss;
         Some (Some SOCKET_ERR, result\<lparr>sm_data := D_strerror (a_errno a)\<rparr>, ss)
       }
     else let bs = take MAX_UDP_PACKAGE (a_data a); ss = stat_read i (length bs) ss;
       protocol = (case a_addr a of SA_v4 _ _ \<Rightarrow> PROTOCOL_UDP | SA_v6 _ _ \<Rightarrow> PROTOCOL_UDPv6) in
       if s_protocol s \<noteq> protocol then Some (None, result, ss)
       else Some (Some SOCKET_UDP,
         (message_of s)\<lparr>sm_ud := int (length bs), sm_data := D_bytes (bs @ gen_udp_address protocol (a_addr a))\<rparr>, ss))"

end
