(* ===== verification/Socket_Api.thy ===== *)
theory Socket_Api
  imports Socket_Server
begin

text \<open>
  The poll loop of the socket thread and the functions the other threads call (\<^verbatim>\<open>fengnet-src/socket_server.cpp\<close>).
  Writing a command into the pipe repeats until it succeeds and is one step. A function that another thread runs
  under the lock of a socket is one step, as is each turn of the poll loop.
\<close>

section \<open>The poll loop\<close>

definition dispatch_event :: "nat \<Rightarrow> event \<Rightarrow> socket_message \<Rightarrow> socket_server \<Rightarrow> reply option" where
  "dispatch_event i e result ss = (
     let unread = (\<lambda>ss. ss\<lparr>ss_event_index := ss_event_index ss - 1\<rparr>) in
     if e_read e then do {
       (type, result, ss) \<leftarrow> (if s_protocol (ss_slot ss i) = PROTOCOL_TCP then forward_message_tcp i 0 result ss
         else forward_message_udp i 0 result ss);
       if type = Some SOCKET_MORE then Some (Some SOCKET_DATA, result, unread ss)
       else if type = Some SOCKET_UDP then Some (Some SOCKET_UDP, result, unread ss)
       else if e_write e \<and> type \<noteq> Some SOCKET_CLOSE \<and> type \<noteq> Some SOCKET_ERR then
         Some (type, result, unread (ss\<lparr>ss_ev := (ss_ev ss)[ss_event_index ss - 1 := e\<lparr>e_read := False\<rparr>]\<rparr>))
       else Some (type, result, ss)
     }
     else if e_write e then send_buffer i 0 result ss
     else if e_error e then
       let (a, ss) = next_answer ss;
         err = (if a_ret a < 0 then D_strerror (a_errno a) else if a_ret a \<noteq> 0 then D_strerror (a_ret a) else D_text ''Unknown error'') in
       Some (Some SOCKET_ERR, report_error (ss_slot ss i) err, ss)
     else if e_eof e then do {
       let halfclose = halfclose_read (ss_slot ss i);
       (result, ss) \<leftarrow> force_close i 0 ss;
       Some (if halfclose then None else Some SOCKET_CLOSE, result, ss)
     }
     else Some (None, result, ss))"

definition poll_event :: "nat \<Rightarrow> event \<Rightarrow> socket_message \<Rightarrow> socket_server \<Rightarrow> reply option" where
  "poll_event i e result ss = (case s_type (ss_slot ss i) of
     SOCKET_TYPE_CONNECTING \<Rightarrow> report_connect i 0 ss
   | SOCKET_TYPE_LISTEN \<Rightarrow> do {
       (ok, result, ss) \<leftarrow> report_accept i result ss;
       Some (if ok > 0 then Some SOCKET_ACCEPT else if ok < 0 then Some SOCKET_ERR else None, result, ss)
     }
   | SOCKET_TYPE_INVALID \<Rightarrow> Some (None, result, ss)
   | _ \<Rightarrow> dispatch_event i e result ss)"

text \<open>One turn of the loop: a command, or the next event, waiting for events when there are none left.\<close>

type_synonym poll_state = "socket_message \<times> bool \<times> socket_server"

definition poll_result :: "bool \<Rightarrow> reply \<Rightarrow> poll_state + socket_event \<times> poll_state" where
  "poll_result more_flag r = (case r of
     (None, result, ss) \<Rightarrow> Inl (result, more_flag, ss)
   | (Some type, result, ss) \<Rightarrow> Inr (type, result, more_flag, ss))"

definition next_event :: "bool \<Rightarrow> socket_message \<Rightarrow> socket_server \<Rightarrow> (poll_state + socket_event \<times> poll_state) option" where
  "next_event more_flag result ss = (let e = ss_ev ss ! ss_event_index ss; ss = ss\<lparr>ss_event_index := ss_event_index ss + 1\<rparr> in
     case e_s e of
       None \<Rightarrow> Some (Inl (result, more_flag, ss))
     | Some i \<Rightarrow> do { r \<leftarrow> poll_event i e result ss; Some (poll_result more_flag r) })"

definition poll_step :: "poll_state \<Rightarrow> (poll_state + socket_event \<times> poll_state) option" where
  "poll_step st = (let (result, more_flag, ss) = st in
     if ss_checkctrl ss \<and> ss_pipe ss \<noteq> [] then do {
       (type, result, ss) \<leftarrow> ctrl_cmd result ss;
       Some (poll_result more_flag (type, result, case type of None \<Rightarrow> ss | Some t \<Rightarrow> clear_closed_event result t ss))
     }
     else let ss = ss\<lparr>ss_checkctrl := False\<rparr> in
       if ss_event_index ss = length (ss_ev ss) then
         let (a, ss) = next_answer ss; es = take MAX_EVENT (a_events a);
           ss = ss\<lparr>ss_checkctrl := True, ss_event_index := 0, ss_ev := es\<rparr> in
         if es = [] then Some (Inl (result, False, ss))
         else next_event False result ss
       else next_event more_flag result ss)"

definition socket_server_poll :: "socket_message \<Rightarrow> bool \<Rightarrow> socket_server \<Rightarrow> (socket_event \<times> poll_state) option" where
  "socket_server_poll result more_flag ss = repeat_step poll_step (result, more_flag, ss)"

section \<open>Functions for other threads\<close>

definition send_request :: "request \<Rightarrow> socket_server \<Rightarrow> socket_server" where
  "send_request req ss = ss\<lparr>ss_pipe := ss_pipe ss @ [req]\<rparr>"

definition socket_server_exit :: "socket_server \<Rightarrow> socket_server" where
  "socket_server_exit ss = send_request Req_X ss"

definition socket_server_close :: "nat \<Rightarrow> int \<Rightarrow> socket_server \<Rightarrow> socket_server" where
  "socket_server_close opaque sid ss = send_request (Req_K sid False opaque) ss"

definition socket_server_shutdown :: "nat \<Rightarrow> int \<Rightarrow> socket_server \<Rightarrow> socket_server" where
  "socket_server_shutdown opaque sid ss = send_request (Req_K sid True opaque) ss"

definition socket_server_start :: "nat \<Rightarrow> int \<Rightarrow> socket_server \<Rightarrow> socket_server" where
  "socket_server_start opaque sid ss = send_request (Req_R sid opaque) ss"

definition socket_server_pause :: "nat \<Rightarrow> int \<Rightarrow> socket_server \<Rightarrow> socket_server" where
  "socket_server_pause opaque sid ss = send_request (Req_S sid opaque) ss"

definition socket_server_nodelay :: "int \<Rightarrow> socket_server \<Rightarrow> socket_server" where
  "socket_server_nodelay sid ss = send_request (Req_T sid 1 1) ss"

definition socket_server_updatetime :: "u64 \<Rightarrow> socket_server \<Rightarrow> socket_server" where
  "socket_server_updatetime time ss = ss\<lparr>ss_time := time\<rparr>"

text \<open>
  Sending: the bytes of a buffer and whether they are freed after a direct write (\<open>send_object_init_from_sendbuffer\<close>),
  the direct write itself, and what is left for the socket thread.
\<close>

definition sendbuffer_bytes :: "socket_sendbuffer \<Rightarrow> socket_server \<Rightarrow> bytes option" where
  "sendbuffer_bytes buf ss = (case buf of
     SOCKET_BUFFER_MEMORY b sz \<Rightarrow> do { (b, sz, _) \<leftarrow> send_object_init b sz; mem_read b 0 sz ss }
   | SOCKET_BUFFER_OBJECT b \<Rightarrow> do { (b, sz, _) \<leftarrow> send_object_init b USEROBJECT; mem_read b 0 sz ss }
   | SOCKET_BUFFER_RAWPOINTER bs \<Rightarrow> Some bs)"

definition set_dw :: "nat \<Rightarrow> socket_sendbuffer \<Rightarrow> nat \<Rightarrow> socket_server \<Rightarrow> socket_server" where
  "set_dw i buf n ss = (let (b, sz, ss) = clone_buffer buf ss in
     upd_slot i (\<lambda>s. s\<lparr>s_dw_buffer := Some b, s_dw_size := sz, s_dw_offset := n\<rparr>) ss)"

definition written :: "(int + nat) \<Rightarrow> nat" where
  "written r = (case r of Inl _ \<Rightarrow> 0 | Inr n \<Rightarrow> n)"

definition direct_write :: "int \<Rightarrow> socket_sendbuffer \<Rightarrow> socket_server \<Rightarrow> (int \<times> socket_server) option" where
  "direct_write sid buf ss = (let i = HASH_ID sid; s = ss_slot ss i in do {
     bs \<leftarrow> sendbuffer_bytes buf ss;
     case (if s_protocol s = PROTOCOL_TCP then Some (sys_write (s_fd s) bs ss)
       else (case udp_socket_address s (s_udp_address s) of
           None \<Rightarrow> None
         | Some sa \<Rightarrow> Some (sys_sendto (s_fd s) bs sa ss))) of
       None \<Rightarrow> do { ss \<leftarrow> free_buffer buf ss; Some (-1, ss) }
     | Some (r, ss) \<Rightarrow> do {
         let n = written r;
         let ss = stat_write i n ss;
         if n = length bs then do { ss \<leftarrow> free_buffer buf ss; Some (0, ss) }
         else Some (0, send_request (Req_W sid) (set_dw i buf n ss))
       }
   })"

definition socket_server_send :: "int \<Rightarrow> socket_sendbuffer \<Rightarrow> socket_server \<Rightarrow> (int \<times> socket_server) option" where
  "socket_server_send sid buf ss = (let i = HASH_ID sid; s = ss_slot ss i in
     if socket_invalid s sid \<or> s_closing s then do {
       ss \<leftarrow> free_buffer buf ss;
       Some (-1, ss)
     }
     else if can_direct_write s sid \<and> \<not> s_dw_lock s then direct_write sid buf ss
     else do {
       ss \<leftarrow> inc_sending_ref i sid ss;
       let (b, sz, ss) = clone_buffer buf ss;
       Some (0, send_request (Req_D \<lparr>rq_id = sid, rq_sz = sz, rq_buffer = b\<rparr>) ss)
     })"

definition socket_server_send_lowpriority :: "int \<Rightarrow> socket_sendbuffer \<Rightarrow> socket_server \<Rightarrow> (int \<times> socket_server) option" where
  "socket_server_send_lowpriority sid buf ss = (let i = HASH_ID sid in
     if socket_invalid (ss_slot ss i) sid then do {
       ss \<leftarrow> free_buffer buf ss;
       Some (-1, ss)
     }
     else do {
       ss \<leftarrow> inc_sending_ref i sid ss;
       let (b, sz, ss) = clone_buffer buf ss;
       Some (0, send_request (Req_P \<lparr>rq_id = sid, rq_sz = sz, rq_buffer = b\<rparr>) ss)
     })"

text \<open>Binding an address: the family of the first address found, and a bound descriptor.\<close>

definition do_bind :: "socket_server \<Rightarrow> (int \<times> bool) option \<times> socket_server" where
  "do_bind ss = (let (g, ss) = next_answer ss in
     if a_ret g \<noteq> 0 then (None, ss)
     else let inet6 = (case a_addr g of SA_v4 _ _ \<Rightarrow> False | SA_v6 _ _ \<Rightarrow> True);
       (f, ss) = next_answer ss; fd = a_ret f in
       if fd < 0 then (None, ss)
       else let (o1, ss) = next_answer (klog (K_setsockopt fd 2 1) ss) in
         if a_ret o1 = -1 then (None, klog (K_close fd) ss)
         else let (b, ss) = next_answer ss in
           if a_ret b \<noteq> 0 then (None, klog (K_close fd) ss)
           else (Some (fd, inet6), ss))"

definition do_listen :: "socket_server \<Rightarrow> int option \<times> socket_server" where
  "do_listen ss = (let (r, ss) = do_bind ss in
     case r of
       None \<Rightarrow> (None, ss)
     | Some (fd, _) \<Rightarrow> (let (a, ss) = next_answer ss in
         if a_ret a = -1 then (None, klog (K_close fd) ss) else (Some fd, ss)))"

definition socket_server_listen :: "nat \<Rightarrow> socket_server \<Rightarrow> int \<times> socket_server" where
  "socket_server_listen opaque ss = (let (r, ss) = do_listen ss in
     case r of
       None \<Rightarrow> (-1, ss)
     | Some fd \<Rightarrow> (let (rid, ss) = reserve_id ss in
         case rid of
           None \<Rightarrow> (-1, klog (K_close fd) ss)
         | Some sid \<Rightarrow> (sid, send_request (Req_L sid fd opaque) ss)))"

text \<open>The address of a host must fit into a command, whose length is one byte; \<open>request_open\<close> takes 24 bytes.\<close>

definition open_request :: "bytes \<Rightarrow> socket_server \<Rightarrow> int option \<times> socket_server" where
  "open_request addr ss = (if length addr + 24 \<ge> 256 then (None, ss) else reserve_id ss)"

definition socket_server_connect :: "nat \<Rightarrow> bytes \<Rightarrow> int \<Rightarrow> socket_server \<Rightarrow> int \<times> socket_server" where
  "socket_server_connect opaque addr port ss = (let (rid, ss) = open_request addr ss in
     case rid of
       None \<Rightarrow> (-1, ss)
     | Some sid \<Rightarrow> (sid, send_request (Req_O sid port opaque addr) ss))"

definition socket_server_bind :: "nat \<Rightarrow> int \<Rightarrow> socket_server \<Rightarrow> int \<times> socket_server" where
  "socket_server_bind opaque fd ss = (let (rid, ss) = reserve_id ss in
     case rid of
       None \<Rightarrow> (-1, ss)
     | Some sid \<Rightarrow> (sid, send_request (Req_B sid fd opaque) ss))"

text \<open>Sockets for datagrams. \<open>do_b\<close> says whether a port or an address is given.\<close>

definition socket_server_udp :: "nat \<Rightarrow> bool \<Rightarrow> socket_server \<Rightarrow> int \<times> socket_server" where
  "socket_server_udp opaque do_b ss = (
     let (r, ss) = (if do_b then do_bind ss
       else let (f, ss) = next_answer ss in (if a_ret f < 0 then None else Some (a_ret f, False), ss)) in
     case r of
       None \<Rightarrow> (-1, ss)
     | Some (fd, inet6) \<Rightarrow> (let (rid, ss) = reserve_id (klog (K_nonblocking fd) ss) in
         case rid of
           None \<Rightarrow> (-1, klog (K_close fd) ss)
         | Some sid \<Rightarrow> (sid, send_request (Req_U sid fd inet6 opaque) ss)))"

definition udp_direct :: "int \<Rightarrow> bytes \<Rightarrow> socket_sendbuffer \<Rightarrow> socket_server \<Rightarrow> (int option \<times> socket_server) option" where
  "udp_direct sid udp_address buf ss = (let i = HASH_ID sid; s = ss_slot ss i in do {
     bs \<leftarrow> sendbuffer_bytes buf ss;
     case udp_socket_address s udp_address of
       None \<Rightarrow> do { ss \<leftarrow> free_buffer buf ss; Some (Some (-1), ss) }
     | Some sa \<Rightarrow> (let (r, ss) = sys_sendto (s_fd s) bs sa ss in case r of
           Inl _ \<Rightarrow> Some (None, ss)
         | Inr n \<Rightarrow> do { ss \<leftarrow> free_buffer buf (stat_write i n ss); Some (Some 0, ss) })
   })"

definition socket_server_udp_send ::
  "int \<Rightarrow> bytes \<Rightarrow> socket_sendbuffer \<Rightarrow> socket_server \<Rightarrow> (int \<times> socket_server) option" where
  "socket_server_udp_send sid udp_address buf ss = (let i = HASH_ID sid; s = ss_slot ss i in
     if socket_invalid s sid then do { ss \<leftarrow> free_buffer buf ss; Some (-1, ss) }
     else do {
       type \<leftarrow> load udp_address 0;
       case udp_address_size type of
         None \<Rightarrow> do { ss \<leftarrow> free_buffer buf ss; Some (-1, ss) }
       | Some addrsz \<Rightarrow> do {
           (r, ss) \<leftarrow> (if can_direct_write s sid \<and> \<not> s_dw_lock s then udp_direct sid udp_address buf ss else Some (None, ss));
           case r of
             Some ret \<Rightarrow> Some (ret, ss)
           | None \<Rightarrow> do {
               a \<leftarrow> load_n udp_address 0 addrsz;
               let (b, sz, ss) = clone_buffer buf ss;
               Some (0, send_request (Req_A \<lparr>rq_id = sid, rq_sz = sz, rq_buffer = b\<rparr> a) ss)
             }
         }
     })"

definition socket_server_udp_connect :: "int \<Rightarrow> socket_server \<Rightarrow> int \<times> socket_server" where
  "socket_server_udp_connect sid ss = (let i = HASH_ID sid in
     if socket_invalid (ss_slot ss i) sid then (-1, ss)
     else let ss = upd_slot i (\<lambda>s. s\<lparr>s_udpconnecting := s_udpconnecting s + 1\<rparr>) ss; (g, ss) = next_answer ss in
       if a_ret g \<noteq> 0 then (-1, ss)
       else let protocol = (case a_addr g of SA_v4 _ _ \<Rightarrow> PROTOCOL_UDP | SA_v6 _ _ \<Rightarrow> PROTOCOL_UDPv6) in
         (0, send_request (Req_C sid (gen_udp_address protocol (a_addr g))) ss))"

definition socket_server_udp_address :: "bytes \<Rightarrow> nat \<Rightarrow> (bytes \<times> nat) option option" where
  "socket_server_udp_address data ud = do {
     type \<leftarrow> load data ud;
     Some (case udp_address_size type of None \<Rightarrow> None | Some addrsz \<Rightarrow> Some (drop ud data, addrsz))
   }"

section \<open>Start, end, and information\<close>

definition zero_socket :: socket where
  "zero_socket = \<lparr>s_opaque = 0, s_high = [], s_low = [], s_wb_size = 0, s_rtime = 0, s_wtime = 0, s_read = 0, s_write = 0,
     s_sending = 0, s_fd = 0, s_id = 0, s_type = SOCKET_TYPE_INVALID, s_protocol = 0, s_reading = False, s_writing = False,
     s_closing = False, s_udpconnecting = 0, s_warn_size = 0, s_p_size = 0, s_udp_address = replicate UDP_ADDRESS_SIZE 0,
     s_dw_lock = False, s_dw_offset = 0, s_dw_buffer = None, s_dw_size = 0\<rparr>"

text \<open>The server after its event pool and its pipe were created; \<open>reserve_fd\<close> is the result of \<open>dup\<close>.\<close>

definition socket_server_create :: "u64 \<Rightarrow> int \<Rightarrow> os_answer list \<Rightarrow> socket_server" where
  "socket_server_create time reserve_fd tape = \<lparr>ss_time = time, ss_reserve_fd = reserve_fd, ss_checkctrl = True, ss_alloc_id = 0,
     ss_event_index = 0, ss_ev = [], ss_slot = (\<lambda>_. zero_socket), ss_pipe = [], ss_mem = Map.empty, ss_brk = 1, ss_tape = tape,
     ss_log = []\<rparr>"

definition socket_server_release :: "socket_server \<Rightarrow> socket_server option" where
  "socket_server_release ss = do {
     ss \<leftarrow> for_each (\<lambda>i ss. if s_type (ss_slot ss i) \<noteq> SOCKET_TYPE_RESERVE then map_option snd (force_close i 0 ss) else Some ss)
       [0..<MAX_SOCKET] ss;
     Some (if ss_reserve_fd ss \<ge> 0 then klog (K_close (ss_reserve_fd ss)) ss else ss)
   }"

datatype socket_info_type =
  SOCKET_INFO_LISTEN | SOCKET_INFO_TCP | SOCKET_INFO_UDP | SOCKET_INFO_BIND | SOCKET_INFO_CLOSING

record socket_info =
  si_id :: int
  si_type :: socket_info_type
  si_opaque :: nat
  si_read :: u64
  si_write :: u64
  si_rtime :: u64
  si_wtime :: u64
  si_wbuffer :: int
  si_reading :: bool
  si_writing :: bool
  si_name :: bytes

text \<open>The name a system call finds for a descriptor, if it does; \<open>si_name\<close> stays empty otherwise.\<close>

definition fd_name :: "socket_server \<Rightarrow> bytes \<times> socket_server" where
  "fd_name ss = (let (a, ss) = next_answer ss in
     if a_ret a = 0 then let (nm, ss) = getname (a_addr a) ss in (case nm of None \<Rightarrow> [] | Some t \<Rightarrow> t, ss) else ([], ss))"

definition query_info :: "nat \<Rightarrow> socket_server \<Rightarrow> socket_info option \<times> socket_server" where
  "query_info i ss = (let s = ss_slot ss i;
     closing = (s_type s = SOCKET_TYPE_HALFCLOSE_READ \<or> s_type s = SOCKET_TYPE_HALFCLOSE_WRITE);
     info = (\<lambda>t nm. \<lparr>si_id = s_id s, si_type = t, si_opaque = s_opaque s, si_read = s_read s, si_write = s_write s,
       si_rtime = s_rtime s, si_wtime = s_wtime s, si_wbuffer = s_wb_size s, si_reading = s_reading s, si_writing = s_writing s,
       si_name = nm\<rparr>) in
     if s_type s = SOCKET_TYPE_BIND then (Some (info SOCKET_INFO_BIND []), ss)
     else if s_type s = SOCKET_TYPE_LISTEN then let (nm, ss) = fd_name ss in (Some (info SOCKET_INFO_LISTEN nm), ss)
     else if closing \<or> s_type s = SOCKET_TYPE_CONNECTED then
       if s_protocol s = PROTOCOL_TCP then
         let (nm, ss) = fd_name ss in (Some (info (if closing then SOCKET_INFO_CLOSING else SOCKET_INFO_TCP) nm), ss)
       else (case udp_socket_address s (s_udp_address s) of
           None \<Rightarrow> (Some (info SOCKET_INFO_UDP []), ss)
         | Some u \<Rightarrow> (let (nm, ss) = getname u ss in (Some (info SOCKET_INFO_UDP (case nm of None \<Rightarrow> [] | Some t \<Rightarrow> t)), ss)))
     else (None, ss))"

fun collect_info :: "nat list \<Rightarrow> socket_info list \<Rightarrow> socket_server \<Rightarrow> socket_info list \<times> socket_server" where
  "collect_info [] si ss = (si, ss)"
| "collect_info (i # is) si ss = (let (r, ss) = query_info i ss in
     collect_info is (case r of None \<Rightarrow> si | Some t \<Rightarrow> t # si) ss)"

definition socket_server_info :: "socket_server \<Rightarrow> socket_info list \<times> socket_server" where
  "socket_server_info ss = collect_info [0..<MAX_SOCKET] [] ss"

end
