(* ===== verification/Socket_Inv.thy ===== *)
theory Socket_Inv
  imports Socket_Api "HOL-Library.Multiset"
begin

text \<open>
  The invariant of the socket server (\<open>ss_inv\<close>): every buffer on the heap has one owner, the buffers of a socket are
  in the order in which they are written, and the count in \<open>s_sending\<close> is the number of packages of the socket in the
  pipe. It holds when UDP is not used. Then what closing a socket and enabling its events do, and the relation
  \<open>tcp_step\<close> that every operation on a socket satisfies: nothing else changes, and what was written is a piece of the
  packages in order.
\<close>

section \<open>System calls keep the state of the server\<close>

text \<open>What the invariant is about: the slots, the pipe and the heap.\<close>

definition core :: "socket_server \<Rightarrow> (nat \<Rightarrow> socket) \<times> request list \<times> (nat \<rightharpoonup> bytes) \<times> nat" where
  "core ss = (ss_slot ss, ss_pipe ss, ss_mem ss, ss_brk ss)"

lemma core_eq_iff:
  "core ss' = core ss \<longleftrightarrow> ss_slot ss' = ss_slot ss \<and> ss_pipe ss' = ss_pipe ss \<and> ss_mem ss' = ss_mem ss \<and> ss_brk ss' = ss_brk ss"
  by (auto simp: core_def)

named_theorems os_simps \<open>fields that a system call leaves alone\<close>

lemma klog_sel [os_simps]:
  "ss_slot (klog c ss) = ss_slot ss" "ss_pipe (klog c ss) = ss_pipe ss" "ss_mem (klog c ss) = ss_mem ss"
  "ss_brk (klog c ss) = ss_brk ss" "ss_tape (klog c ss) = ss_tape ss" "ss_log (klog c ss) = ss_log ss @ [c]"
  "ss_ev (klog c ss) = ss_ev ss" "ss_event_index (klog c ss) = ss_event_index ss" "ss_time (klog c ss) = ss_time ss"
  "ss_alloc_id (klog c ss) = ss_alloc_id ss"
  by (simp_all add: klog_def)

lemma next_answer_keeps:
  assumes "next_answer ss = (a, ss')"
  shows "ss_slot ss' = ss_slot ss \<and> ss_pipe ss' = ss_pipe ss \<and> ss_mem ss' = ss_mem ss \<and> ss_brk ss' = ss_brk ss \<and>
    ss_log ss' = ss_log ss \<and> ss_ev ss' = ss_ev ss \<and> ss_event_index ss' = ss_event_index ss \<and> ss_time ss' = ss_time ss \<and>
    ss_alloc_id ss' = ss_alloc_id ss \<and> ss_tape ss' = tl (ss_tape ss)"
  using assms by (auto simp: next_answer_def split: list.splits)

lemma sys_write_cases:
  obtains (fail) err ss' where "sys_write fd bs ss = (Inl err, ss')" "core ss' = core ss" "ss_log ss' = ss_log ss"
      "ss_tape ss' = tl (ss_tape ss)" "ss_tape ss = [] \<Longrightarrow> err = EAGAIN" "ss_ev ss' = ss_ev ss" "ss_event_index ss' = ss_event_index ss"
  | (ok) n ss' where "sys_write fd bs ss = (Inr n, ss')" "core ss' = core ss" "n \<le> length bs"
      "ss_log ss' = ss_log ss @ [K_write fd (take n bs)]" "ss_tape ss' = tl (ss_tape ss)" "ss_tape ss \<noteq> []"
      "ss_ev ss' = ss_ev ss" "ss_event_index ss' = ss_event_index ss"
proof -
  obtain a ss1 where na: "next_answer ss = (a, ss1)" by fastforce
  note keep = next_answer_keeps [OF na]
  show thesis
  proof (cases "a_ret a < 0")
    case True
    with na keep show thesis
      by (intro fail [of "a_errno a" ss1])
        (auto simp: sys_write_def core_def next_answer_def no_answer_def split: list.splits)
  next
    case False
    with na keep show thesis
      by (intro ok [of "min (nat (a_ret a)) (length bs)" "klog (K_write fd (take (min (nat (a_ret a)) (length bs)) bs)) ss1"])
        (auto simp: sys_write_def core_def os_simps Let_def next_answer_def no_answer_def split: list.splits)
  qed
qed

lemma sp_enable_cases:
  obtains err ss' where "sp_enable fd r w ss = (err, ss')" "core ss' = core ss" "ss_tape ss' = tl (ss_tape ss)"
    "ss_log ss' = ss_log ss @ [K_mod fd r w]" "ss_time ss' = ss_time ss" "ss_ev ss' = ss_ev ss" "ss_event_index ss' = ss_event_index ss"
proof -
  obtain a ss1 where na: "next_answer ss = (a, ss1)" by fastforce
  show thesis
    by (rule that [of "a_ret a = -1" "klog (K_mod fd r w) ss1"])
      (use next_answer_keeps [OF na] na in \<open>simp_all add: sp_enable_def core_def os_simps\<close>)
qed

section \<open>The invariant\<close>

definition live :: "socket \<Rightarrow> bool" where
  "live s \<longleftrightarrow> s_type s \<noteq> SOCKET_TYPE_INVALID \<and> s_type s \<noteq> SOCKET_TYPE_RESERVE"

text \<open>The buffers of a socket in the order they will be written, the buffer of an incomplete direct write first.\<close>

definition dw_list :: "socket \<Rightarrow> write_buffer list" where
  "dw_list s = (case s_dw_buffer s of None \<Rightarrow> []
   | Some b \<Rightarrow> [\<lparr>wb_buffer = b, wb_ptr = s_dw_offset s, wb_sz = s_dw_size s - s_dw_offset s, wb_userobject = False,
       wb_object = sizeof_write_buffer, wb_udp_address = []\<rparr>])"

lemma dw_list_upd [simp]:
  "dw_list (s_opaque_update f1 s) = dw_list s"
  "dw_list (s_high_update f2 s) = dw_list s"
  "dw_list (s_low_update f3 s) = dw_list s"
  "dw_list (s_wb_size_update f4 s) = dw_list s"
  "dw_list (s_rtime_update f5 s) = dw_list s"
  "dw_list (s_wtime_update f6 s) = dw_list s"
  "dw_list (s_read_update f7 s) = dw_list s"
  "dw_list (s_write_update f8 s) = dw_list s"
  "dw_list (s_sending_update f9 s) = dw_list s"
  "dw_list (s_fd_update f10 s) = dw_list s"
  "dw_list (s_id_update f11 s) = dw_list s"
  "dw_list (s_type_update f12 s) = dw_list s"
  "dw_list (s_protocol_update f13 s) = dw_list s"
  "dw_list (s_reading_update f14 s) = dw_list s"
  "dw_list (s_writing_update f15 s) = dw_list s"
  "dw_list (s_closing_update f16 s) = dw_list s"
  "dw_list (s_udpconnecting_update f17 s) = dw_list s"
  "dw_list (s_warn_size_update f18 s) = dw_list s"
  "dw_list (s_p_size_update f19 s) = dw_list s"
  "dw_list (s_udp_address_update f20 s) = dw_list s"
  "dw_list (s_dw_lock_update f21 s) = dw_list s"
  by (auto simp: dw_list_def split: option.splits)

definition wb_queue :: "socket \<Rightarrow> write_buffer list" where
  "wb_queue s = dw_list s @ s_high s @ s_low s"

abbreviation slot_own :: "socket \<Rightarrow> nat list" where
  "slot_own s \<equiv> map wb_buffer (wb_queue s)"

definition node_ok :: "(nat \<rightharpoonup> bytes) \<Rightarrow> write_buffer \<Rightarrow> bool" where
  "node_ok m wb \<longleftrightarrow> \<not> wb_userobject wb \<and> (case m (wb_buffer wb) of None \<Rightarrow> False | Some b \<Rightarrow> wb_ptr wb + wb_sz wb \<le> length b)"

definition slot_ok :: "(nat \<rightharpoonup> bytes) \<Rightarrow> socket \<Rightarrow> bool" where
  "slot_ok m s \<longleftrightarrow> (\<forall>wb\<in>set (wb_queue s). node_ok m wb)
     \<and> (s_dw_buffer s \<noteq> None \<longrightarrow> s_dw_size s \<noteq> USEROBJECT \<and> s_dw_offset s \<le> s_dw_size s)
     \<and> (\<forall>wb\<in>set (tl (wb_queue s)). wb_ptr wb = 0)
     \<and> (\<not> live s \<longrightarrow> wb_queue s = [])
     \<and> (live s \<longrightarrow> s_protocol s = PROTOCOL_TCP \<and> s_wb_size s = (\<Sum>wb\<leftarrow>s_high s @ s_low s. int (wb_sz wb)))
     \<and> (s_type s = SOCKET_TYPE_RESERVE \<longrightarrow> s_protocol s = PROTOCOL_UNKNOWN)"

text \<open>The packages in the pipe, the sockets whose creation is in the pipe.\<close>

definition req_sends :: "request \<Rightarrow> request_send list" where
  "req_sends r = (case r of Req_D q \<Rightarrow> [q] | Req_P q \<Rightarrow> [q] | Req_A q _ \<Rightarrow> [q] | _ \<Rightarrow> [])"

definition req_creates :: "request \<Rightarrow> int list" where
  "req_creates r = (case r of Req_B sid _ _ \<Rightarrow> [sid] | Req_L sid _ _ \<Rightarrow> [sid] | Req_O sid _ _ _ \<Rightarrow> [sid] | Req_U sid _ _ _ \<Rightarrow> [sid] | _ \<Rightarrow> [])"

abbreviation "pipe_sends p \<equiv> concat (map req_sends p)"
abbreviation "pipe_creates p \<equiv> concat (map req_creates p)"

definition tcp_request :: "request \<Rightarrow> bool" where
  "tcp_request r = (case r of Req_A _ _ \<Rightarrow> False | Req_U _ _ _ _ \<Rightarrow> False | Req_C _ _ \<Rightarrow> False | _ \<Rightarrow> True)"

definition req_ok :: "(nat \<rightharpoonup> bytes) \<Rightarrow> request_send \<Rightarrow> bool" where
  "req_ok m q \<longleftrightarrow> rq_sz q \<noteq> USEROBJECT \<and> (case m (rq_buffer q) of None \<Rightarrow> False | Some b \<Rightarrow> rq_sz q \<le> length b)"

text \<open>\<open>cs\<close> are the ids of packages taken from the pipe whose count was not given back yet.\<close>

definition pending_count :: "int list \<Rightarrow> request list \<Rightarrow> int \<Rightarrow> nat" where
  "pending_count cs p sid = count_list (map rq_id (pipe_sends p)) sid + count_list cs sid"

definition sending_ok :: "int list \<Rightarrow> request list \<Rightarrow> socket \<Rightarrow> bool" where
  "sending_ok cs p s \<longleftrightarrow> s_protocol s = PROTOCOL_TCP \<longrightarrow>
     pending_count cs p (s_id s) \<le> 0xffff \<and> s_sending s = push_bit 16 (ID_TAG16 (s_id s)) + of_nat (pending_count cs p (s_id s))"

definition slot_inv :: "int list \<Rightarrow> request list \<Rightarrow> (nat \<rightharpoonup> bytes) \<Rightarrow> nat \<Rightarrow> socket \<Rightarrow> bool" where
  "slot_inv cs p m i s \<longleftrightarrow> slot_ok m s \<and> (HASH_ID (s_id s) = i \<longrightarrow> sending_ok cs p s)
     \<and> (s_type s \<noteq> SOCKET_TYPE_INVALID \<longrightarrow> HASH_ID (s_id s) = i)
     \<and> (s_type s = SOCKET_TYPE_RESERVE \<longrightarrow> pending_count cs p (s_id s) = 0)
     \<and> (\<forall>sid\<in>set (pipe_creates p). HASH_ID sid = i \<longrightarrow> s_type s = SOCKET_TYPE_RESERVE \<and> s_id s = sid)"

definition owned :: "nat list \<Rightarrow> socket_server \<Rightarrow> nat list" where
  "owned xs ss = xs @ map rq_buffer (pipe_sends (ss_pipe ss)) @ concat (map (\<lambda>i. slot_own (ss_slot ss i)) [0..<MAX_SOCKET])"

text \<open>
  \<open>ss_inv xs cs ss\<close>: every buffer in the heap has exactly one owner, namely the running function (\<open>xs\<close>), a package in
  the pipe or a socket.
\<close>

definition ss_inv :: "nat list \<Rightarrow> int list \<Rightarrow> socket_server \<Rightarrow> bool" where
  "ss_inv xs cs ss \<longleftrightarrow> (\<forall>i<MAX_SOCKET. slot_inv cs (ss_pipe ss) (ss_mem ss) i (ss_slot ss i))
     \<and> (\<forall>q\<in>set (pipe_sends (ss_pipe ss)). req_ok (ss_mem ss) q) \<and> (\<forall>r\<in>set (ss_pipe ss). tcp_request r)
     \<and> distinct (pipe_creates (ss_pipe ss))
     \<and> distinct (owned xs ss) \<and> set (owned xs ss) = dom (ss_mem ss) \<and> (\<forall>a\<in>dom (ss_mem ss). a < ss_brk ss)"

lemma ss_inv_core: "core ss' = core ss \<Longrightarrow> ss_inv xs cs ss' = ss_inv xs cs ss"
  by (simp add: ss_inv_def core_eq_iff owned_def)

text \<open>Ownership after one slot changed.\<close>

lemma mset_concat_slots:
  assumes "i < n"
  shows "mset (concat (map (\<lambda>j. f ((g(i := y)) j)) [0..<n])) + mset (f (g i)) = mset (concat (map (\<lambda>j. f (g j)) [0..<n])) + mset (f y)"
proof -
  have split: "[0..<n] = [0..<i] @ i # [Suc i..<n]"
    using assms by (metis append_Cons append_Nil le_add1 less_imp_le_nat plus_nat.add_0 upt_add_eq_append upt_conv_Cons le_Suc_ex)
  have "concat (map (\<lambda>j. f (if j = i then y else g j)) [0..<i]) = concat (map (\<lambda>j. f (g j)) [0..<i])"
    "concat (map (\<lambda>j. f (if j = i then y else g j)) [Suc i..<n]) = concat (map (\<lambda>j. f (g j)) [Suc i..<n])"
    by (rule arg_cong [where f = concat], simp)+
  then show ?thesis unfolding split by simp
qed

lemma mset_same: "mset xs = mset ys \<Longrightarrow> distinct xs = distinct ys" "mset xs = mset ys \<Longrightarrow> set xs = set ys"
  by (rule mset_eq_imp_distinct_iff, assumption) (rule mset_eq_setD, assumption)

lemma owned_slot:
  assumes "i < MAX_SOCKET" "ss_slot ss' = (ss_slot ss)(i := s')" "ss_pipe ss' = ss_pipe ss"
    and "mset (slot_own s') + mset xs' = mset (slot_own (ss_slot ss i)) + mset xs"
  shows "mset (owned xs' ss') = mset (owned xs ss)"
proof -
  let ?A = "mset (slot_own (ss_slot ss i))" and ?P = "mset (map rq_buffer (pipe_sends (ss_pipe ss)))"
  define N where "N = mset (concat (map (\<lambda>j. slot_own (ss_slot ss j)) [0..<MAX_SOCKET]))"
  define N' where "N' = mset (concat (map (\<lambda>j. slot_own (ss_slot ss' j)) [0..<MAX_SOCKET]))"
  have upd: "N' + ?A = N + mset (slot_own s')"
    using mset_concat_slots [OF assms(1), of "\<lambda>s. slot_own s" "ss_slot ss" s'] by (simp add: assms(2) N_def N'_def)
  have "mset (owned xs' ss') + ?A = ?P + mset xs' + (N' + ?A)" using assms(3) by (simp add: owned_def N'_def ac_simps)
  also have "\<dots> = ?P + N + (mset (slot_own s') + mset xs')" by (simp only: upd ac_simps)
  also have "\<dots> = mset (owned xs ss) + ?A" by (simp only: assms(4)) (simp add: owned_def N_def ac_simps)
  finally have "mset (owned xs' ss') + ?A = mset (owned xs ss) + ?A" .
  then show ?thesis by simp
qed

lemma ss_inv_slot:
  assumes inv: "ss_inv xs cs ss" and i: "i < MAX_SOCKET"
    and new: "ss_slot ss' = (ss_slot ss)(i := s')" "ss_pipe ss' = ss_pipe ss" "ss_mem ss' = ss_mem ss" "ss_brk ss' = ss_brk ss"
    and own: "mset (slot_own s') + mset xs' = mset (slot_own (ss_slot ss i)) + mset xs"
    and ok: "slot_inv cs (ss_pipe ss) (ss_mem ss) i s'"
  shows "ss_inv xs' cs ss'"
proof -
  have "mset (owned xs' ss') = mset (owned xs ss)" by (rule owned_slot [OF i new(1,2) own])
  then have "distinct (owned xs' ss') = distinct (owned xs ss)" "set (owned xs' ss') = set (owned xs ss)" by - (erule mset_same)+
  with inv ok new show ?thesis by (auto simp: ss_inv_def)
qed

lemma ss_inv_slotD: "ss_inv xs cs ss \<Longrightarrow> i < MAX_SOCKET \<Longrightarrow> slot_inv cs (ss_pipe ss) (ss_mem ss) i (ss_slot ss i)"
  by (simp add: ss_inv_def)

text \<open>Fields that matter for the invariant.\<close>

definition same_queue :: "socket \<Rightarrow> socket \<Rightarrow> bool" where
  "same_queue s s' \<longleftrightarrow> s_high s' = s_high s \<and> s_low s' = s_low s \<and> s_wb_size s' = s_wb_size s \<and> s_sending s' = s_sending s
     \<and> s_id s' = s_id s \<and> s_protocol s' = s_protocol s \<and> s_dw_buffer s' = s_dw_buffer s \<and> s_dw_size s' = s_dw_size s
     \<and> s_dw_offset s' = s_dw_offset s"

lemma same_queue_wb_queue: "same_queue s s' \<Longrightarrow> wb_queue s' = wb_queue s"
  by (auto simp: same_queue_def wb_queue_def dw_list_def split: option.splits)

lemma slot_inv_same:
  assumes "slot_inv cs p m i s" "same_queue s s'" "s_type s' = s_type s \<or> live s \<and> live s'"
  shows "slot_inv cs p m i s'"
proof -
  have same: "wb_queue s' = wb_queue s" "dw_list s' = dw_list s" "s_high s' = s_high s" "s_low s' = s_low s" "s_wb_size s' = s_wb_size s"
    "s_sending s' = s_sending s" "s_id s' = s_id s" "s_protocol s' = s_protocol s" "s_dw_buffer s' = s_dw_buffer s"
    "s_dw_size s' = s_dw_size s" "s_dw_offset s' = s_dw_offset s"
    using assms(2) by (auto simp: same_queue_def wb_queue_def dw_list_def split: option.splits)
  show ?thesis
  proof (cases "s_type s' = s_type s")
    case True
    then show ?thesis using assms(1) unfolding slot_inv_def slot_ok_def sending_ok_def live_def by (simp only: same True)
  next
    case False
    with assms(3) have "live s" "live s'" by simp_all
    then show ?thesis using assms(1) unfolding slot_inv_def slot_ok_def sending_ok_def live_def
      by (simp add: same)
  qed
qed

lemma ss_inv_same:
  assumes "ss_inv xs cs ss" "i < MAX_SOCKET" "same_queue (ss_slot ss i) (f (ss_slot ss i))"
    "s_type (f (ss_slot ss i)) = s_type (ss_slot ss i) \<or> live (ss_slot ss i) \<and> live (f (ss_slot ss i))"
  shows "ss_inv xs cs (upd_slot i f ss)"
  using assms(1,2) by (rule ss_inv_slot [where xs' = xs and s' = "f (ss_slot ss i)"])
    (use assms in \<open>simp_all add: slot_inv_same [OF ss_inv_slotD] same_queue_wb_queue\<close>)

lemma ss_inv_free:
  assumes "ss_inv (a # xs) cs ss"
  shows "\<exists>ss'. mem_free a ss = Some ss' \<and> ss_inv xs cs ss' \<and> ss_slot ss' = ss_slot ss \<and> ss_pipe ss' = ss_pipe ss \<and>
    ss_log ss' = ss_log ss \<and> ss_tape ss' = ss_tape ss \<and> ss_ev ss' = ss_ev ss \<and> ss_event_index ss' = ss_event_index ss \<and>
    (\<forall>b. b \<noteq> a \<longrightarrow> ss_mem ss' b = ss_mem ss b)"
proof -
  let ?ss' = "ss\<lparr>ss_mem := (ss_mem ss)(a := None)\<rparr>"
  have dist: "distinct (owned (a # xs) ss)" and dom: "set (owned (a # xs) ss) = dom (ss_mem ss)"
    using assms by (auto simp: ss_inv_def)
  have own: "owned (a # xs) ss = a # owned xs ss" "owned xs ?ss' = owned xs ss" by (simp_all add: owned_def)
  then have a: "a \<notin> set (owned xs ss)" "a \<in> dom (ss_mem ss)" using dist dom by auto
  have slots: "slot_inv cs (ss_pipe ss) ((ss_mem ss)(a := None)) i (ss_slot ss i)" if "i < MAX_SOCKET" for i
  proof -
    have "wb_buffer wb \<noteq> a" if "wb \<in> set (wb_queue (ss_slot ss i))" for wb
      using that a(1) \<open>i < MAX_SOCKET\<close> by (auto simp: owned_def)
    then have "node_ok ((ss_mem ss)(a := None)) wb = node_ok (ss_mem ss) wb" if "wb \<in> set (wb_queue (ss_slot ss i))" for wb
      using that by (simp add: node_ok_def)
    then show ?thesis using ss_inv_slotD [OF assms that] by (simp add: slot_inv_def slot_ok_def)
  qed
  have reqs: "req_ok ((ss_mem ss)(a := None)) q" if "q \<in> set (pipe_sends (ss_pipe ss))" for q
  proof -
    have "rq_buffer q \<noteq> a" using that a(1) by (auto simp: owned_def)
    with assms that show ?thesis by (auto simp: ss_inv_def req_ok_def)
  qed
  have "dom (ss_mem ?ss') = set (owned xs ?ss')" using dom a own by auto
  moreover have "distinct (owned xs ?ss')" using dist own by simp
  moreover have "b < ss_brk ss" if "b \<in> dom (ss_mem ?ss')" for b using that assms by (auto simp: ss_inv_def split: if_splits)
  ultimately have "ss_inv xs cs ?ss'" using assms slots reqs by (simp add: ss_inv_def)
  moreover have "mem_free a ss = Some ?ss'" using a(2) by (auto simp: mem_free_def)
  ultimately show ?thesis by auto
qed

section \<open>What an operation changes\<close>

text \<open>
  \<open>view i ss\<close>: the packages waiting at a socket, each with the number of its bytes that were written. \<open>out fd ss\<close>: the bytes
  written to a descriptor. \<open>frame i fds ss ss'\<close>: nothing changed but the slot \<open>i\<close> and what was written to \<open>fds\<close>.
\<close>

definition package :: "(nat \<rightharpoonup> bytes) \<Rightarrow> write_buffer \<Rightarrow> bytes" where
  "package m wb = take (wb_ptr wb + wb_sz wb) (case m (wb_buffer wb) of None \<Rightarrow> [] | Some b \<Rightarrow> b)"

definition view :: "nat \<Rightarrow> socket_server \<Rightarrow> (nat \<times> bytes) list" where
  "view i ss = map (\<lambda>wb. (wb_ptr wb, package (ss_mem ss) wb)) (wb_queue (ss_slot ss i))"

fun wire :: "int \<Rightarrow> kcall list \<Rightarrow> bytes" where
  "wire fd [] = []"
| "wire fd (K_write fd' bs # cs) = (if fd' = fd then bs @ wire fd cs else wire fd cs)"
| "wire fd (c # cs) = wire fd cs"

abbreviation out :: "int \<Rightarrow> socket_server \<Rightarrow> bytes" where
  "out fd ss \<equiv> wire fd (ss_log ss)"

lemma wire_append [simp]: "wire fd (xs @ ys) = wire fd xs @ wire fd ys"
  by (induction fd xs rule: wire.induct) auto

definition rq_bytes :: "(nat \<rightharpoonup> bytes) \<Rightarrow> request_send \<Rightarrow> bytes" where
  "rq_bytes m q = take (rq_sz q) (case m (rq_buffer q) of None \<Rightarrow> [] | Some b \<Rightarrow> b)"

definition frame :: "nat set \<Rightarrow> int set \<Rightarrow> socket_server \<Rightarrow> socket_server \<Rightarrow> bool" where
  "frame I fds ss ss' \<longleftrightarrow> (\<forall>j<MAX_SOCKET. j \<notin> I \<longrightarrow> ss_slot ss' j = ss_slot ss j \<and> view j ss' = view j ss)
     \<and> ss_pipe ss' = ss_pipe ss \<and> (\<forall>fd. fd \<notin> fds \<longrightarrow> out fd ss' = out fd ss)
     \<and> ss_ev ss' = ss_ev ss \<and> ss_event_index ss' = ss_event_index ss
     \<and> (\<forall>q\<in>set (pipe_sends (ss_pipe ss)). rq_bytes (ss_mem ss') q = rq_bytes (ss_mem ss) q)"

lemma frame_refl [simp]: "frame I fds ss ss"
  by (simp add: frame_def)

lemma frame_trans [trans]: "frame I fds ss ss' \<Longrightarrow> frame I fds ss' ss'' \<Longrightarrow> frame I fds ss ss''"
  by (simp add: frame_def)

lemma frame_mono: "frame I fds ss ss' \<Longrightarrow> I \<subseteq> J \<Longrightarrow> fds \<subseteq> fds' \<Longrightarrow> frame J fds' ss ss'"
  by (auto simp: frame_def)

lemma frame_upd_slot: "i \<in> I \<Longrightarrow> frame I fds ss (upd_slot i f ss)"
  by (auto simp: frame_def view_def)

lemma view_core: "core ss' = core ss \<Longrightarrow> view i ss' = view i ss"
  by (simp add: view_def core_eq_iff)

text \<open>A block freed by its owner.\<close>

lemma free_frame:
  assumes "ss_inv (a # xs) cs ss"
  shows "\<exists>ss'. mem_free a ss = Some ss' \<and> ss_inv xs cs ss' \<and> ss_slot ss' = ss_slot ss \<and> ss_tape ss' = ss_tape ss \<and>
    ss_log ss' = ss_log ss \<and> frame {} {} ss ss'"
proof -
  obtain ss' where free: "mem_free a ss = Some ss'" "ss_inv xs cs ss'" "ss_slot ss' = ss_slot ss" "ss_pipe ss' = ss_pipe ss"
    "ss_log ss' = ss_log ss" "ss_tape ss' = ss_tape ss" "ss_ev ss' = ss_ev ss" "ss_event_index ss' = ss_event_index ss"
    and mem: "\<And>b. b \<noteq> a \<Longrightarrow> ss_mem ss' b = ss_mem ss b"
    using ss_inv_free [OF assms] by auto
  have "view i ss' = view i ss" if "i < MAX_SOCKET" for i
  proof -
    have "a \<notin> set (slot_own (ss_slot ss i))"
      using assms that by (auto simp: ss_inv_def owned_def)
    then have "package (ss_mem ss') wb = package (ss_mem ss) wb" if "wb \<in> set (wb_queue (ss_slot ss i))" for wb
    proof -
      have "wb_buffer wb \<noteq> a" using that \<open>a \<notin> set (slot_own (ss_slot ss i))\<close> by auto
      then show ?thesis by (simp add: package_def mem)
    qed
    then show ?thesis by (simp add: view_def free)
  qed
  moreover have "rq_bytes (ss_mem ss') q = rq_bytes (ss_mem ss) q" if "q \<in> set (pipe_sends (ss_pipe ss))" for q
  proof -
    have "rq_buffer q \<noteq> a" using assms that by (auto simp: ss_inv_def owned_def)
    then show ?thesis by (simp add: rq_bytes_def mem)
  qed
  ultimately show ?thesis using free by (auto simp: frame_def)
qed

lemma free_all_frame:
  assumes "ss_inv (as @ xs) cs ss"
  shows "\<exists>ss'. for_each mem_free as ss = Some ss' \<and> ss_inv xs cs ss' \<and> ss_slot ss' = ss_slot ss \<and> ss_tape ss' = ss_tape ss \<and>
    ss_log ss' = ss_log ss \<and> frame {} {} ss ss'"
  using assms
proof (induction as arbitrary: ss)
  case Nil
  then show ?case by simp
next
  case (Cons a as)
  obtain ss1 where "mem_free a ss = Some ss1" "ss_inv (as @ xs) cs ss1" "ss_slot ss1 = ss_slot ss" "ss_tape ss1 = ss_tape ss"
    "ss_log ss1 = ss_log ss" "frame {} {} ss ss1"
    using free_frame [of a "as @ xs" cs ss] Cons.prems by auto
  moreover then obtain ss2 where "for_each mem_free as ss1 = Some ss2" "ss_inv xs cs ss2" "ss_slot ss2 = ss_slot ss1"
    "ss_tape ss2 = ss_tape ss1" "ss_log ss2 = ss_log ss1" "frame {} {} ss1 ss2"
    using Cons.IH by blast
  ultimately show ?case by (auto intro: frame_trans)
qed

text \<open>Freeing does not look at the slots or the log.\<close>

lemma mem_free_upd: "mem_free a (upd_slot i f ss) = map_option (upd_slot i f) (mem_free a ss)"
  by (cases "ss_mem ss a") (auto simp: mem_free_def upd_slot_def)

lemma mem_free_klog: "mem_free a (klog c ss) = map_option (klog c) (mem_free a ss)"
  by (cases "ss_mem ss a") (auto simp: mem_free_def klog_def)

lemma free_all_commute:
  assumes "\<And>a ss. mem_free a (f ss) = map_option f (mem_free a ss)"
  shows "for_each mem_free as (f ss) = map_option f (for_each mem_free as ss)"
proof (induction as arbitrary: ss)
  case (Cons a as)
  then show ?case by (cases "mem_free a ss") (simp_all add: assms)
qed simp

lemmas free_all_upd = free_all_commute [OF mem_free_upd] and free_all_klog = free_all_commute [OF mem_free_klog]

lemma free_wb_list_eq:
  "\<forall>wb\<in>set ws. \<not> wb_userobject wb \<Longrightarrow> free_wb_list ws ss = for_each mem_free (map wb_buffer ws) ss"
  unfolding free_wb_list_def by (induction ws arbitrary: ss) (simp_all add: write_buffer_free_def)

section \<open>Closing\<close>

definition closed_socket :: "socket \<Rightarrow> socket" where
  "closed_socket s = s\<lparr>s_high := [], s_low := [], s_type := SOCKET_TYPE_INVALID, s_dw_buffer := None\<rparr>"

lemma slot_inv_closed:
  assumes "slot_inv cs p m i s" "s_type s \<noteq> SOCKET_TYPE_RESERVE"
  shows "slot_inv cs p m i (closed_socket s)"
  using assms unfolding slot_inv_def slot_ok_def sending_ok_def closed_socket_def
  by (auto simp: wb_queue_def dw_list_def live_def)

lemma free_all_slot: "for_each mem_free as ss = Some ss' \<Longrightarrow> ss_slot ss' = ss_slot ss"
proof (induction as arbitrary: ss)
  case (Cons a as)
  then obtain ss1 where "mem_free a ss = Some ss1" "for_each mem_free as ss1 = Some ss'" by (auto split: Option.bind_splits)
  moreover then have "ss_slot ss1 = ss_slot ss" by (auto simp: mem_free_def split: Option.bind_splits)
  ultimately show ?case using Cons.IH by simp
qed simp

lemma upd_slot_compose: "upd_slot i f (upd_slot i g ss) = upd_slot i (f \<circ> g) ss"
  by (simp add: upd_slot_def)

lemma upd_slot_klog: "upd_slot i f (klog c ss) = klog c (upd_slot i f ss)"
  by (simp add: upd_slot_def klog_def)

lemma free_dw_eq:
  assumes "s_dw_buffer (ss_slot ss i) \<noteq> None \<longrightarrow> s_dw_size (ss_slot ss i) \<noteq> USEROBJECT"
  shows "free_dw i ss = for_each mem_free (map wb_buffer (dw_list (ss_slot ss i))) (upd_slot i (s_dw_buffer_update (\<lambda>_. None)) ss)"
proof (cases "s_dw_buffer (ss_slot ss i)")
  case None
  then have "s_dw_buffer_update (\<lambda>_. None) (ss_slot ss i) = ss_slot ss i" by simp
  then have "upd_slot i (s_dw_buffer_update (\<lambda>_. None)) ss = ss" by (simp add: upd_slot_def)
  with None show ?thesis by (simp add: free_dw_def dw_list_def)
next
  case (Some b)
  with assms show ?thesis by (cases "mem_free b ss") (simp_all add: free_dw_def dw_list_def free_buffer_def mem_free_upd)
qed

lemma force_close_eq:
  assumes ok: "slot_ok (ss_mem ss) (ss_slot ss i)" and "live (ss_slot ss i)" "l > 0 \<or> \<not> s_dw_lock (ss_slot ss i)"
  shows "force_close i l ss = (let s = ss_slot ss i; ss1 = klog (K_del (s_fd s)) (upd_slot i closed_socket ss);
     ss2 = (if s_type s \<noteq> SOCKET_TYPE_BIND then klog (K_close (s_fd s)) ss1 else ss1) in
     do { ss3 \<leftarrow> for_each mem_free (map wb_buffer (s_high s @ s_low s @ dw_list s)) ss2; Some (message_of s, ss3) })"
proof -
  define s where "s = ss_slot ss i"
  have nu: "\<forall>wb\<in>set (s_high s). \<not> wb_userobject wb" "\<forall>wb\<in>set (s_low s). \<not> wb_userobject wb"
    and dw: "s_dw_buffer s \<noteq> None \<longrightarrow> s_dw_size s \<noteq> USEROBJECT"
    using ok by (auto simp: slot_ok_def wb_queue_def node_ok_def s_def)
  have comp: "s_dw_buffer_update (\<lambda>_. None) \<circ> s_type_update (\<lambda>_. SOCKET_TYPE_INVALID) \<circ> (\<lambda>s. s\<lparr>s_high := [], s_low := []\<rparr>) = closed_socket"
    by (auto simp: closed_socket_def)
  define H where "H = for_each mem_free (map wb_buffer (s_high s)) ss"
  show ?thesis
  proof (cases H)
    case None
    then show ?thesis using assms(2,3) nu
      by (simp add: force_close_def Let_def live_def H_def free_wb_list_eq for_each_append free_all_klog free_all_upd flip: s_def)
  next
    case (Some ss1)
    then have s1: "ss_slot ss1 = ss_slot ss" using free_all_slot by (simp add: H_def)
    show ?thesis
    proof (cases "for_each mem_free (map wb_buffer (s_low s)) ss1")
      case None
      with Some show ?thesis using assms(2,3) nu
        by (simp add: force_close_def Let_def live_def H_def free_wb_list_eq for_each_append free_all_klog free_all_upd flip: s_def)
    next
      case (Some ss2)
      then have s2: "ss_slot ss2 = ss_slot ss" using free_all_slot s1 by metis
      have "free_dw i (set_type i SOCKET_TYPE_INVALID (f (upd_slot i (\<lambda>s. s\<lparr>s_high := [], s_low := []\<rparr>) ss2))) =
          for_each mem_free (map wb_buffer (dw_list s)) (f (upd_slot i closed_socket ss2))"
        if f: "f = klog c1 \<or> f = klog c1 \<circ> klog c2" for f c1 c2
      proof -
        have "ss_slot (set_type i SOCKET_TYPE_INVALID (f (upd_slot i (\<lambda>s. s\<lparr>s_high := [], s_low := []\<rparr>) ss2))) i
            = s\<lparr>s_high := [], s_low := [], s_type := SOCKET_TYPE_INVALID\<rparr>"
          using f s2 by (auto simp: set_type_def os_simps s_def)
        moreover from this have "dw_list (ss_slot (set_type i SOCKET_TYPE_INVALID (f (upd_slot i (\<lambda>s. s\<lparr>s_high := [], s_low := []\<rparr>) ss2))) i) = dw_list s"
          by simp
        moreover have "upd_slot i (s_dw_buffer_update (\<lambda>_. None)) (set_type i SOCKET_TYPE_INVALID (f (upd_slot i (\<lambda>s. s\<lparr>s_high := [], s_low := []\<rparr>) ss2)))
            = f (upd_slot i closed_socket ss2)"
          using f by (auto simp: set_type_def upd_slot_klog upd_slot_compose comp)
        ultimately show ?thesis using dw by (subst free_dw_eq) simp_all
      qed
      from this [of "klog c1" c1 c2 for c1 c2] this [of "klog c1 \<circ> klog c2" c1 c2 for c1 c2]
      show ?thesis using assms(2,3) nu Some \<open>H = Some ss1\<close> s1 s2
        by (simp add: force_close_def Let_def live_def H_def free_wb_list_eq for_each_append free_all_klog free_all_upd sp_del_def os_simps flip: s_def) blast
    qed
  qed
qed

text \<open>Closing a socket gives back everything it owns.\<close>

lemma force_close_frame:
  assumes inv: "ss_inv xs cs ss" and i: "i < MAX_SOCKET" and live: "live (ss_slot ss i)" and lock: "l > 0 \<or> \<not> s_dw_lock (ss_slot ss i)"
  shows "\<exists>ss'. force_close i l ss = Some (message_of (ss_slot ss i), ss') \<and> ss_inv xs cs ss' \<and>
    ss_slot ss' i = closed_socket (ss_slot ss i) \<and> ss_tape ss' = ss_tape ss \<and> frame {i} {} ss ss'"
proof -
  define s where "s = ss_slot ss i"
  let ?del = "klog (K_del (s_fd s)) (upd_slot i closed_socket ss)"
  define ss2 where "ss2 = (if s_type s \<noteq> SOCKET_TYPE_BIND then klog (K_close (s_fd s)) ?del else ?del)"
  have ok: "slot_inv cs (ss_pipe ss) (ss_mem ss) i s" using ss_inv_slotD [OF inv i] by (simp add: s_def)
  have "ss_slot ss2 = (ss_slot ss)(i := closed_socket s)" and keep: "ss_pipe ss2 = ss_pipe ss" "ss_mem ss2 = ss_mem ss" "ss_brk ss2 = ss_brk ss"
    "ss_tape ss2 = ss_tape ss" and fr: "frame {i} {} ss ss2"
    by (auto simp: ss2_def s_def os_simps frame_def view_def)
  moreover have "mset (slot_own (closed_socket s)) + mset (map wb_buffer (s_high s @ s_low s @ dw_list s) @ xs) = mset (slot_own s) + mset xs"
    by (simp add: closed_socket_def wb_queue_def dw_list_def)
  moreover have "slot_inv cs (ss_pipe ss) (ss_mem ss) i (closed_socket s)"
    using ok live by (intro slot_inv_closed) (auto simp: live_def s_def)
  ultimately have inv2: "ss_inv (map wb_buffer (s_high s @ s_low s @ dw_list s) @ xs) cs ss2"
    by (intro ss_inv_slot [OF inv i]) (simp_all add: s_def)
  obtain ss' where "for_each mem_free (map wb_buffer (s_high s @ s_low s @ dw_list s)) ss2 = Some ss'" "ss_inv xs cs ss'"
    "ss_slot ss' = ss_slot ss2" "ss_tape ss' = ss_tape ss2" "frame {} {} ss2 ss'"
    using free_all_frame [OF inv2] by auto
  moreover have "slot_ok (ss_mem ss) (ss_slot ss i)" using ok by (simp add: slot_inv_def s_def)
  ultimately show ?thesis using live lock fr keep(4) \<open>ss_slot ss2 = _\<close>
    by (auto simp: force_close_eq Let_def ss2_def [symmetric] s_def [symmetric] intro: frame_trans [OF fr] frame_mono)
qed

text \<open>Closing a socket that is closed does nothing.\<close>

lemma force_close_invalid: "s_type (ss_slot ss i) = SOCKET_TYPE_INVALID \<Longrightarrow> force_close i l ss = Some (message_of (ss_slot ss i), ss)"
  by (simp add: force_close_def)

lemma set_type_inv:
  assumes "ss_inv xs cs ss" "i < MAX_SOCKET" "live (ss_slot ss i)" "t \<noteq> SOCKET_TYPE_INVALID" "t \<noteq> SOCKET_TYPE_RESERVE"
  shows "ss_inv xs cs (set_type i t ss)"
  unfolding set_type_def using assms by (intro ss_inv_same) (auto simp: same_queue_def live_def)

text \<open>Enabling events and the other changes of fields that are not about buffers.\<close>

lemma enable_frame:
  assumes "ss_inv xs cs ss" "i < MAX_SOCKET"
  shows "\<exists>err ss'. enable_write i b ss = (err, ss') \<and> ss_inv xs cs ss' \<and> frame {i} {} ss ss' \<and> view i ss' = view i ss \<and>
      ss_slot ss' i = (ss_slot ss i)\<lparr>s_writing := b\<rparr> \<and> (\<forall>fd. out fd ss' = out fd ss)" (is ?W)
    "\<exists>err ss'. enable_read i b ss = (err, ss') \<and> ss_inv xs cs ss' \<and> frame {i} {} ss ss' \<and> view i ss' = view i ss \<and>
      ss_slot ss' i = (ss_slot ss i)\<lparr>s_reading := b\<rparr> \<and> (\<forall>fd. out fd ss' = out fd ss)" (is ?R)
proof -
  let ?w = "upd_slot i (s_writing_update (\<lambda>_. b)) ss" and ?r = "upd_slot i (s_reading_update (\<lambda>_. b)) ss" and ?s = "ss_slot ss i"
  have inv_w: "ss_inv xs cs ?w" and inv_r: "ss_inv xs cs ?r"
    using assms by (intro ss_inv_same; simp add: same_queue_def)+
  have same: "wb_queue (?s\<lparr>s_writing := b\<rparr>) = wb_queue ?s" "wb_queue (?s\<lparr>s_reading := b\<rparr>) = wb_queue ?s"
    by (simp_all add: wb_queue_def)
  show ?W
  proof (cases "s_writing ?s = b")
    case False
    obtain err ss' where "sp_enable (s_fd ?s) (s_reading ?s) b ?w = (err, ss')" "core ss' = core ?w"
      "ss_log ss' = ss_log ss @ [K_mod (s_fd ?s) (s_reading ?s) b]" "ss_ev ss' = ss_ev ss" "ss_event_index ss' = ss_event_index ss"
      by (rule sp_enable_cases [of "s_fd ?s" "s_reading ?s" b ?w]) simp
    with False inv_w same show ?thesis
      by (simp add: enable_write_def Let_def ss_inv_core [OF \<open>core ss' = _\<close>]) (simp add: frame_def view_def core_eq_iff)
  qed (use assms(1) in \<open>auto simp: enable_write_def Let_def\<close>)
  show ?R
  proof (cases "s_reading ?s = b")
    case False
    obtain err ss' where "sp_enable (s_fd ?s) b (s_writing ?s) ?r = (err, ss')" "core ss' = core ?r"
      "ss_log ss' = ss_log ss @ [K_mod (s_fd ?s) b (s_writing ?s)]" "ss_ev ss' = ss_ev ss" "ss_event_index ss' = ss_event_index ss"
      by (rule sp_enable_cases [of "s_fd ?s" b "s_writing ?s" ?r]) simp
    with False inv_r same show ?thesis
      by (simp add: enable_read_def Let_def ss_inv_core [OF \<open>core ss' = _\<close>]) (simp add: frame_def view_def core_eq_iff)
  qed (use assms(1) in \<open>auto simp: enable_read_def Let_def\<close>)
qed

section \<open>Writing\<close>

text \<open>
  \<open>advance w v v'\<close>: writing the bytes \<open>w\<close> takes the packages \<open>v\<close>, each with the number of its bytes already written, to
  \<open>v'\<close>: whole packages go in order, and what the first one has written continues where it was.
\<close>

definition begun :: "(nat \<times> bytes) list \<Rightarrow> bytes" where
  "begun v = (case v of [] \<Rightarrow> [] | (k, p) # _ \<Rightarrow> take k p)"

definition advance :: "bytes \<Rightarrow> (nat \<times> bytes) list \<Rightarrow> (nat \<times> bytes) list \<Rightarrow> bool" where
  "advance w v v' \<longleftrightarrow> (\<exists>ds. map snd v = ds @ map snd v' \<and> begun v @ w = concat ds @ begun v')"

lemma advance_refl [simp]: "advance [] v v"
  by (auto simp: advance_def)

lemma advance_trans:
  assumes "advance w1 v v1" "advance w2 v1 v2"
  shows "advance (w1 @ w2) v v2"
proof -
  obtain d1 d2 where d1: "map snd v = d1 @ map snd v1" "begun v @ w1 = concat d1 @ begun v1"
    and d2: "map snd v1 = d2 @ map snd v2" "begun v1 @ w2 = concat d2 @ begun v2"
    using assms by (auto simp: advance_def)
  have "begun v @ w1 @ w2 = concat (d1 @ d2) @ begun v2"
    using d1(2) d2(2) by (metis append.assoc concat_append)
  with d1(1) d2(1) show ?thesis unfolding advance_def by (intro exI [of _ "d1 @ d2"]) simp
qed

text \<open>The effect of an operation on the socket in slot \<open>i\<close>, which writes to the descriptor of that socket only.\<close>

definition wfd :: "socket \<Rightarrow> int set" where
  "wfd s = (if live s then {s_fd s} else {})"

definition type_step :: "socket_type \<Rightarrow> socket_type \<Rightarrow> bool" where
  "type_step t t' \<longleftrightarrow> (t = SOCKET_TYPE_HALFCLOSE_READ \<longrightarrow> t' = SOCKET_TYPE_HALFCLOSE_READ \<or> t' = SOCKET_TYPE_INVALID)
     \<and> (t = SOCKET_TYPE_INVALID \<longrightarrow> t' = SOCKET_TYPE_INVALID) \<and> (t' = SOCKET_TYPE_RESERVE \<longrightarrow> t = SOCKET_TYPE_RESERVE)"

lemma type_step_trans: "type_step t t' \<Longrightarrow> type_step t' t'' \<Longrightarrow> type_step t t''"
  unfolding type_step_def by (cases t') simp_all

definition keeps :: "socket \<Rightarrow> socket \<Rightarrow> bool" where
  "keeps s s' \<longleftrightarrow> s_id s' = s_id s \<and> s_fd s' = s_fd s \<and> (live s' \<longrightarrow> live s) \<and> length (s_low s') \<le> length (s_low s)
     \<and> type_step (s_type s) (s_type s')"

lemma keeps_refl [simp]: "keeps s s"
  by (simp add: keeps_def type_step_def)

lemma keeps_trans: "keeps s s' \<Longrightarrow> keeps s' s'' \<Longrightarrow> keeps s s''"
  by (auto simp: keeps_def intro: type_step_trans)

definition tcp_step :: "nat \<Rightarrow> socket_server \<Rightarrow> socket_server \<Rightarrow> bool" where
  "tcp_step i ss ss' \<longleftrightarrow> frame {i} (wfd (ss_slot ss i)) ss ss' \<and> keeps (ss_slot ss i) (ss_slot ss' i)
     \<and> (\<exists>w. out (s_fd (ss_slot ss i)) ss' = out (s_fd (ss_slot ss i)) ss @ w
          \<and> (live (ss_slot ss' i) \<longrightarrow> advance w (view i ss) (view i ss')))"

lemmas tcp_step_defs = tcp_step_def keeps_def type_step_def

lemma tcp_step_refl [simp]: "tcp_step i ss ss"
  by (auto simp: tcp_step_def intro: exI [of _ "[]"])

lemma tcp_step_trans [trans]:
  assumes "tcp_step i ss ss'" "tcp_step i ss' ss''"
  shows "tcp_step i ss ss''"
proof -
  let ?fd = "s_fd (ss_slot ss i)"
  obtain w where w: "out ?fd ss' = out ?fd ss @ w" "live (ss_slot ss' i) \<Longrightarrow> advance w (view i ss) (view i ss')"
    using assms(1) by (auto simp: tcp_step_def)
  have k: "keeps (ss_slot ss i) (ss_slot ss' i)" "keeps (ss_slot ss' i) (ss_slot ss'' i)" using assms by (simp_all add: tcp_step_def)
  then have fd: "s_fd (ss_slot ss' i) = ?fd" and lv: "live (ss_slot ss'' i) \<Longrightarrow> live (ss_slot ss' i)" by (simp_all add: keeps_def)
  obtain w' where w': "out ?fd ss'' = out ?fd ss' @ w'" "live (ss_slot ss'' i) \<Longrightarrow> advance w' (view i ss') (view i ss'')"
    using assms(2) fd by (auto simp: tcp_step_def)
  have "wfd (ss_slot ss' i) \<subseteq> wfd (ss_slot ss i)" using k(1) by (auto simp: keeps_def wfd_def)
  then have "frame {i} (wfd (ss_slot ss i)) ss ss''" using assms unfolding tcp_step_def by (meson frame_mono frame_trans order_refl)
  moreover have "\<exists>w. out ?fd ss'' = out ?fd ss @ w \<and> (live (ss_slot ss'' i) \<longrightarrow> advance w (view i ss) (view i ss''))"
    using w w' lv by (intro exI [of _ "w @ w'"]) (auto intro: advance_trans)
  ultimately show ?thesis using keeps_trans [OF k] by (simp add: tcp_step_def)
qed

lemma tcp_stepI:
  assumes "frame {i} {} ss ss'" "s_id (ss_slot ss' i) = s_id (ss_slot ss i)" "s_fd (ss_slot ss' i) = s_fd (ss_slot ss i)"
    "live (ss_slot ss' i) \<Longrightarrow> live (ss_slot ss i) \<and> view i ss' = view i ss" "length (s_low (ss_slot ss' i)) \<le> length (s_low (ss_slot ss i))"
    "s_type (ss_slot ss i) = SOCKET_TYPE_HALFCLOSE_READ \<Longrightarrow>
       s_type (ss_slot ss' i) = SOCKET_TYPE_HALFCLOSE_READ \<or> s_type (ss_slot ss' i) = SOCKET_TYPE_INVALID"
    "s_type (ss_slot ss i) = SOCKET_TYPE_INVALID \<Longrightarrow> s_type (ss_slot ss' i) = SOCKET_TYPE_INVALID"
    "s_type (ss_slot ss' i) = SOCKET_TYPE_RESERVE \<Longrightarrow> s_type (ss_slot ss i) = SOCKET_TYPE_RESERVE"
  shows "tcp_step i ss ss'"
  using assms by (auto simp: tcp_step_defs frame_def)

text \<open>\<open>close_read\<close> and \<open>close_write\<close>.\<close>

lemma close_read_spec:
  assumes "ss_inv xs cs ss" "i < MAX_SOCKET" "live (ss_slot ss i)"
  shows "\<exists>ss'. close_read i ss = (message_of (ss_slot ss i), ss') \<and> ss_inv xs cs ss' \<and> tcp_step i ss ss' \<and>
    ss_slot ss' i = (ss_slot ss i)\<lparr>s_type := SOCKET_TYPE_HALFCLOSE_READ, s_reading := False\<rparr>"
proof -
  let ?t = "set_type i SOCKET_TYPE_HALFCLOSE_READ ss"
  have "ss_inv xs cs ?t" using assms by (intro set_type_inv) auto
  then obtain err ss' where r: "enable_read i False ?t = (err, ss')" "ss_inv xs cs ss'" "frame {i} {} ?t ss'" "view i ss' = view i ?t"
    "ss_slot ss' i = (ss_slot ?t i)\<lparr>s_reading := False\<rparr>" "\<forall>fd. out fd ss' = out fd ?t"
    using enable_frame(2) assms(2) by metis
  let ?k = "klog (K_shutdown_rd (s_fd (ss_slot ss i))) ss'"
  have "close_read i ss = (message_of (ss_slot ss i), ?k)" using r by (simp add: close_read_def Let_def set_type_def message_of_def)
  moreover have "ss_inv xs cs ?k" using r(2) ss_inv_core [of ?k ss'] by (simp add: core_def os_simps)
  moreover have "view i ?t = view i ss" by (simp add: view_def set_type_def wb_queue_def)
  then have "tcp_step i ss ?k" using r assms(3)
    by (intro tcp_stepI) (auto simp: frame_def os_simps set_type_def view_def wb_queue_def live_def)
  ultimately show ?thesis using r(5) by (auto simp: os_simps set_type_def)
qed

lemma close_write_spec:
  assumes "ss_inv xs cs ss" "i < MAX_SOCKET" "live (ss_slot ss i)" "l > 0 \<or> \<not> s_dw_lock (ss_slot ss i)"
  shows "\<exists>ev result' ss'. close_write i l err result ss = Some (ev, result', ss') \<and> ss_inv xs cs ss' \<and> tcp_step i ss ss' \<and>
    ev \<in> {SOCKET_RST, SOCKET_ERR} \<and>
    (ss_slot ss' i = closed_socket (ss_slot ss i) \<or>
     ss_slot ss' i = (ss_slot ss i)\<lparr>s_type := SOCKET_TYPE_HALFCLOSE_WRITE\<rparr> \<or>
     ss_slot ss' i = (ss_slot ss i)\<lparr>s_type := SOCKET_TYPE_HALFCLOSE_WRITE, s_writing := False\<rparr>)"
proof -
  let ?s = "ss_slot ss i"
  consider (close) "s_closing ?s \<or> s_type ?s = SOCKET_TYPE_HALFCLOSE_READ"
    | (again) "\<not> s_closing ?s" "s_type ?s = SOCKET_TYPE_HALFCLOSE_WRITE"
    | (err) "\<not> s_closing ?s" "s_type ?s \<noteq> SOCKET_TYPE_HALFCLOSE_READ" "s_type ?s \<noteq> SOCKET_TYPE_HALFCLOSE_WRITE" by auto
  then show ?thesis
  proof cases
    case close
    obtain ss' where "force_close i l ss = Some (message_of ?s, ss')" "ss_inv xs cs ss'" "ss_slot ss' i = closed_socket ?s"
      "frame {i} {} ss ss'" using force_close_frame [OF assms] by auto
    moreover then have "tcp_step i ss ss'" by (intro tcp_stepI) (auto simp: closed_socket_def live_def)
    ultimately show ?thesis using close by (simp add: close_write_def Let_def)
  next
    case again
    then have "close_write i l err result ss = Some (SOCKET_RST, result, ss)" by (simp add: close_write_def Let_def)
    moreover have "ss_slot ss i = ?s\<lparr>s_type := SOCKET_TYPE_HALFCLOSE_WRITE\<rparr>" unfolding again(2) [symmetric] by simp
    ultimately show ?thesis using assms(1) by (intro exI [of _ SOCKET_RST] exI [of _ result] exI [of _ ss] conjI disjI2 disjI1) auto
  next
    case err
    let ?t = "klog (K_shutdown_wr (s_fd ?s)) (set_type i SOCKET_TYPE_HALFCLOSE_WRITE ss)"
    have "ss_inv xs cs (set_type i SOCKET_TYPE_HALFCLOSE_WRITE ss)" using assms by (intro set_type_inv) auto
    then have "ss_inv xs cs ?t" using ss_inv_core [of ?t "set_type i SOCKET_TYPE_HALFCLOSE_WRITE ss"] by (simp add: core_def os_simps)
    then obtain e ss' where w: "enable_write i False ?t = (e, ss')" "ss_inv xs cs ss'" "frame {i} {} ?t ss'" "view i ss' = view i ?t"
      "ss_slot ss' i = (ss_slot ?t i)\<lparr>s_writing := False\<rparr>"
      using enable_frame(1) assms(2) by metis
    have "view i ?t = view i ss" by (simp add: view_def set_type_def wb_queue_def os_simps)
    then have "tcp_step i ss ss'" using w assms(3) err
      by (intro tcp_stepI) (auto simp: frame_def os_simps set_type_def view_def wb_queue_def live_def)
    moreover have "ss_slot ss' i = ?s\<lparr>s_type := SOCKET_TYPE_HALFCLOSE_WRITE, s_writing := False\<rparr>"
      using w(5) by (simp add: os_simps set_type_def)
    ultimately show ?thesis using err w(1,2) by (simp add: close_write_def Let_def)
  qed
qed

lemma dw_list_None [simp]: "s_dw_buffer s = None \<Longrightarrow> dw_list s = []"
  by (simp add: dw_list_def)

lemma slot_inv_queueI:
  assumes "slot_inv cs p m i s" "live s" "s_dw_buffer s' = None" "s_type s' = s_type s" "s_id s' = s_id s"
    "s_protocol s' = s_protocol s" "s_sending s' = s_sending s"
    "\<forall>wb\<in>set (wb_queue s'). node_ok m wb" "\<forall>wb\<in>set (tl (wb_queue s')). wb_ptr wb = 0"
    "s_wb_size s' = (\<Sum>wb\<leftarrow>wb_queue s'. int (wb_sz wb))"
  shows "slot_inv cs p m i s'"
proof -
  have "wb_queue s' = s_high s' @ s_low s'" using assms(3) by (simp add: wb_queue_def)
  moreover have "s_type s \<noteq> SOCKET_TYPE_INVALID" "s_type s \<noteq> SOCKET_TYPE_RESERVE" using assms(2) by (auto simp: live_def)
  ultimately show ?thesis using assms unfolding slot_inv_def slot_ok_def sending_ok_def live_def by simp
qed

text \<open>What a turn of \<open>send_list_tcp\<close> keeps of a socket.\<close>

definition send_keeps :: "bool \<Rightarrow> socket \<Rightarrow> socket \<Rightarrow> bool" where
  "send_keeps high s s' \<longleftrightarrow> s_type s' = s_type s \<and> s_closing s' = s_closing s \<and> s_dw_lock s' = s_dw_lock s
     \<and> s_dw_buffer s' = s_dw_buffer s \<and> wb_list_of (\<not> high) s' = wb_list_of (\<not> high) s"

lemma send_keeps_refl [simp]: "send_keeps high s s"
  by (simp add: send_keeps_def)

lemma send_keeps_trans: "send_keeps high s s' \<Longrightarrow> send_keeps high s' s'' \<Longrightarrow> send_keeps high s s''"
  by (simp add: send_keeps_def)

lemma write_part:
  assumes inv: "ss_inv xs cs ss" and i: "i < MAX_SOCKET" and live: "live (ss_slot ss i)" and dw: "s_dw_buffer (ss_slot ss i) = None"
    and q: "wb_queue (ss_slot ss i) = tmp # rest" and n: "n \<le> wb_sz tmp"
    and s': "ss_slot ss' = (ss_slot ss)(i := s')" "ss_pipe ss' = ss_pipe ss" "ss_mem ss' = ss_mem ss" "ss_brk ss' = ss_brk ss"
    and f: "s_dw_buffer s' = None" "s_type s' = s_type (ss_slot ss i)" "s_id s' = s_id (ss_slot ss i)"
    "s_protocol s' = s_protocol (ss_slot ss i)" "s_sending s' = s_sending (ss_slot ss i)"
    "s_wb_size s' = s_wb_size (ss_slot ss i) - int n"
    and q': "wb_queue s' = tmp\<lparr>wb_ptr := wb_ptr tmp + n, wb_sz := wb_sz tmp - n\<rparr> # rest"
  shows "ss_inv xs cs ss'" "\<exists>bs. mem_read (wb_buffer tmp) (wb_ptr tmp) (wb_sz tmp) ss = Some bs \<and> length bs = wb_sz tmp \<and>
     advance (take n bs) (view i ss) (view i ss')"
proof -
  let ?s = "ss_slot ss i" and ?tmp' = "tmp\<lparr>wb_ptr := wb_ptr tmp + n, wb_sz := wb_sz tmp - n\<rparr>"
  have ok: "slot_inv cs (ss_pipe ss) (ss_mem ss) i ?s" by (rule ss_inv_slotD [OF inv i])
  then have so: "slot_ok (ss_mem ss) ?s" by (simp add: slot_inv_def)
  then have tmp: "node_ok (ss_mem ss) tmp" by (simp add: slot_ok_def q)
  then obtain b where b: "ss_mem ss (wb_buffer tmp) = Some b" "wb_ptr tmp + wb_sz tmp \<le> length b"
    by (auto simp: node_ok_def split: option.splits)
  have q0: "s_high ?s @ s_low ?s = tmp # rest" using q dw by (simp add: wb_queue_def)
  have "s_wb_size ?s = int (wb_sz tmp) + (\<Sum>wb\<leftarrow>rest. int (wb_sz wb))"
    using so live arg_cong [OF q0, of "\<lambda>ws. \<Sum>wb\<leftarrow>ws. int (wb_sz wb)"] by (simp add: slot_ok_def)
  then have sum': "s_wb_size s' = (\<Sum>wb\<leftarrow>wb_queue s'. int (wb_sz wb))" using n f(6) by (simp add: q' of_nat_diff)
  have "slot_inv cs (ss_pipe ss) (ss_mem ss) i s'"
  proof (rule slot_inv_queueI [OF ok live])
    show "\<forall>wb\<in>set (wb_queue s'). node_ok (ss_mem ss) wb" using so n tmp by (auto simp: slot_ok_def q q' node_ok_def split: option.splits)
    show "\<forall>wb\<in>set (tl (wb_queue s')). wb_ptr wb = 0" using so by (simp add: slot_ok_def q q')
  qed (use f sum' in auto)
  then show "ss_inv xs cs ss'" by (intro ss_inv_slot [OF inv i s']) (simp_all add: q q')
  let ?bs = "take (wb_sz tmp) (drop (wb_ptr tmp) b)" and ?p = "package (ss_mem ss) tmp"
  have p: "?p = take (wb_ptr tmp + wb_sz tmp) b" "package (ss_mem ss) ?tmp' = ?p" using n by (simp_all add: package_def b)
  have "take (wb_ptr tmp) ?p @ take n ?bs = take (wb_ptr tmp + n) ?p"
    using n b(2) by (simp add: p take_add drop_take min_def)
  then have "advance (take n ?bs) (view i ss) (view i ss')"
    unfolding advance_def by (intro exI [of _ "[]"]) (simp add: view_def s' q q' begun_def p)
  then show "\<exists>bs. mem_read (wb_buffer tmp) (wb_ptr tmp) (wb_sz tmp) ss = Some bs \<and> length bs = wb_sz tmp \<and>
     advance (take n bs) (view i ss) (view i ss')"
    using b by (intro exI [of _ ?bs]) (simp add: mem_read_def load_n_def)
qed

lemma write_whole:
  assumes inv: "ss_inv xs cs ss" and i: "i < MAX_SOCKET" and live: "live (ss_slot ss i)" and dw: "s_dw_buffer (ss_slot ss i) = None"
    and q: "wb_queue (ss_slot ss i) = tmp # rest"
    and s': "ss_slot ss' = (ss_slot ss)(i := s')" "ss_pipe ss' = ss_pipe ss" "ss_mem ss' = ss_mem ss" "ss_brk ss' = ss_brk ss"
    and f: "s_dw_buffer s' = None" "s_type s' = s_type (ss_slot ss i)" "s_id s' = s_id (ss_slot ss i)"
    "s_protocol s' = s_protocol (ss_slot ss i)" "s_sending s' = s_sending (ss_slot ss i)"
    "s_wb_size s' = s_wb_size (ss_slot ss i) - int (wb_sz tmp)"
    and q': "wb_queue s' = rest"
  shows "ss_inv (wb_buffer tmp # xs) cs ss'" "\<exists>bs. mem_read (wb_buffer tmp) (wb_ptr tmp) (wb_sz tmp) ss = Some bs \<and> length bs = wb_sz tmp \<and>
     advance bs (view i ss) (view i ss')"
proof -
  let ?s = "ss_slot ss i"
  have ok: "slot_inv cs (ss_pipe ss) (ss_mem ss) i ?s" by (rule ss_inv_slotD [OF inv i])
  then have so: "slot_ok (ss_mem ss) ?s" by (simp add: slot_inv_def)
  then obtain b where b: "ss_mem ss (wb_buffer tmp) = Some b" "wb_ptr tmp + wb_sz tmp \<le> length b"
    by (auto simp: slot_ok_def q node_ok_def split: option.splits)
  have rest: "\<forall>wb\<in>set rest. wb_ptr wb = 0" using so by (simp add: slot_ok_def q)
  have q0: "s_high ?s @ s_low ?s = tmp # rest" using q dw by (simp add: wb_queue_def)
  have "s_wb_size ?s = int (wb_sz tmp) + (\<Sum>wb\<leftarrow>rest. int (wb_sz wb))"
    using so live arg_cong [OF q0, of "\<lambda>ws. \<Sum>wb\<leftarrow>ws. int (wb_sz wb)"] by (simp add: slot_ok_def)
  then have sum': "s_wb_size s' = (\<Sum>wb\<leftarrow>wb_queue s'. int (wb_sz wb))" using f(6) by (simp add: q')
  have "slot_inv cs (ss_pipe ss) (ss_mem ss) i s'"
  proof (rule slot_inv_queueI [OF ok live])
    show "\<forall>wb\<in>set (wb_queue s'). node_ok (ss_mem ss) wb" using so by (auto simp: slot_ok_def q q')
    show "\<forall>wb\<in>set (tl (wb_queue s')). wb_ptr wb = 0" using rest by (cases rest) (simp_all add: q')
  qed (use f sum' in auto)
  then show "ss_inv (wb_buffer tmp # xs) cs ss'" by (intro ss_inv_slot [OF inv i s']) (simp_all add: q q')
  let ?bs = "take (wb_sz tmp) (drop (wb_ptr tmp) b)" and ?p = "package (ss_mem ss) tmp"
  have "take (wb_ptr tmp) ?p @ ?bs = ?p" using b(2) by (simp add: package_def b(1) take_add min_def)
  moreover have "begun (map (\<lambda>wb. (wb_ptr wb, package (ss_mem ss) wb)) rest) = []"
    using rest by (cases rest) (simp_all add: begun_def)
  ultimately have "advance ?bs (view i ss) (view i ss')"
    unfolding advance_def by (intro exI [of _ "[?p]"]) (simp add: view_def s' q q', simp add: begun_def)
  then show "\<exists>bs. mem_read (wb_buffer tmp) (wb_ptr tmp) (wb_sz tmp) ss = Some bs \<and> length bs = wb_sz tmp \<and>
     advance bs (view i ss) (view i ss')"
    using b by (intro exI [of _ ?bs]) (simp add: mem_read_def load_n_def)
qed

end
