(* ===== verification/Socket_Write.thy ===== *)
theory Socket_Write
  imports Socket_Inv
begin

text \<open>
  Writing the lists of a socket: \<open>send_list_tcp\<close>, \<open>send_buffer_\<close> and \<open>send_buffer\<close> return, no assertion in them fails,
  the invariant is kept, and the bytes written continue the packages that wait.
\<close>

text \<open>The slot after \<open>n\<close> bytes were written, and the first buffer of a list changed by \<open>f\<close>.\<close>

definition after_write :: "bool \<Rightarrow> nat \<Rightarrow> u64 \<Rightarrow> (write_buffer list \<Rightarrow> write_buffer list) \<Rightarrow> socket \<Rightarrow> socket" where
  "after_write high n t f s = upd_wb_list high f
     (s\<lparr>s_write := s_write s + of_nat n, s_wtime := t, s_wb_size := s_wb_size s - int n\<rparr>)"

lemma after_write_sel [simp]:
  "s_dw_buffer (after_write high n t f s) = s_dw_buffer s" "s_type (after_write high n t f s) = s_type s"
  "s_id (after_write high n t f s) = s_id s" "s_fd (after_write high n t f s) = s_fd s"
  "s_protocol (after_write high n t f s) = s_protocol s" "s_sending (after_write high n t f s) = s_sending s"
  "s_wb_size (after_write high n t f s) = s_wb_size s - int n" "live (after_write high n t f s) = live s"
  "send_keeps high s (after_write high n t f s)"
  by (simp_all add: after_write_def upd_wb_list_def live_def send_keeps_def wb_list_of_def)

lemma after_write_list [simp]: "wb_list_of high (after_write high n t f s) = f (wb_list_of high s)"
  by (simp add: after_write_def upd_wb_list_def wb_list_of_def)

lemma after_write_low:
  "(\<And>ws. length (f ws) \<le> length ws) \<Longrightarrow> length (s_low (after_write high n t f s)) \<le> length (s_low s)"
  by (simp add: after_write_def upd_wb_list_def)

lemma queue_of_list:
  assumes "s_dw_buffer s = None" "\<not> high \<Longrightarrow> s_high s = []"
  shows "wb_queue s = wb_list_of high s @ (if high then s_low s else [])"
    "wb_queue (after_write high n t f s) = f (wb_list_of high s) @ (if high then s_low s else [])"
  using assms by (auto simp: wb_queue_def wb_list_of_def after_write_def upd_wb_list_def)

definition send_cont :: "nat \<Rightarrow> bool \<Rightarrow> nat list \<Rightarrow> int list \<Rightarrow> socket_server \<Rightarrow> socket_server \<Rightarrow> bool" where
  "send_cont i high xs cs ss ss' \<longleftrightarrow> ss_inv xs cs ss' \<and> tcp_step i ss ss' \<and> send_keeps high (ss_slot ss i) (ss_slot ss' i)"

text \<open>After \<open>close_write\<close> the socket is closed, or writing is over and its lists are as they were.\<close>

definition write_over :: "socket \<Rightarrow> socket \<Rightarrow> bool" where
  "write_over s s' \<longleftrightarrow> s' = closed_socket s \<or> s_type s' = SOCKET_TYPE_HALFCLOSE_WRITE \<and> s_low s' = s_low s \<and> s_dw_lock s' = s_dw_lock s"

lemma send_cont_trans: "send_cont i high xs cs ss ss' \<Longrightarrow> send_cont i high xs cs ss' ss'' \<Longrightarrow> send_cont i high xs cs ss ss''"
  by (auto simp: send_cont_def intro: tcp_step_trans send_keeps_trans)

lemma core_tcp_step:
  assumes "core ss' = core ss" "ss_log ss' = ss_log ss" "ss_ev ss' = ss_ev ss" "ss_event_index ss' = ss_event_index ss"
  shows "tcp_step i ss ss'"
  using assms view_core [OF assms(1)] by (intro tcp_stepI) (auto simp: frame_def core_eq_iff)

lemma queue_head_read:
  assumes "ss_inv xs cs ss" "i < MAX_SOCKET" "wb_queue (ss_slot ss i) = tmp # rest"
  shows "\<exists>bs. mem_read (wb_buffer tmp) (wb_ptr tmp) (wb_sz tmp) ss = Some bs \<and> length bs = wb_sz tmp"
proof -
  have "node_ok (ss_mem ss) tmp" using ss_inv_slotD [OF assms(1,2)] assms(3) by (simp add: slot_inv_def slot_ok_def)
  then show ?thesis by (auto simp: node_ok_def mem_read_def load_n_def split: option.splits)
qed

lemma written_step:
  assumes "core ss' = core (upd_slot i (after_write high n t f) ss)" "ss_log ss' = ss_log ss @ [K_write (s_fd (ss_slot ss i)) w]"
    "ss_ev ss' = ss_ev ss" "ss_event_index ss' = ss_event_index ss" "advance w (view i ss) (view i ss')"
    "\<And>ws. length (f ws) \<le> length ws" "live (ss_slot ss i)"
  shows "tcp_step i ss ss'"
  using assms after_write_low [OF assms(6)] by (auto simp: tcp_step_defs wfd_def frame_def core_eq_iff view_def)

lemma stat_write_size:
  "upd_slot i (upd_wb_list high f) (upd_slot i (\<lambda>s. s\<lparr>s_wb_size := s_wb_size s - int n\<rparr>) (stat_write i n ss)) =
   upd_slot i (after_write high n (ss_time ss) f) ss"
  by (simp add: stat_write_def upd_slot_compose after_write_def comp_def)

definition advance_head :: "nat \<Rightarrow> write_buffer list \<Rightarrow> write_buffer list" where
  "advance_head n ws = (case ws of [] \<Rightarrow> [] | tmp # ws \<Rightarrow> tmp\<lparr>wb_ptr := wb_ptr tmp + n, wb_sz := wb_sz tmp - n\<rparr> # ws)"

lemma low_after_write:
  assumes "\<forall>wb\<in>set (tl (wb_queue s)). wb_ptr wb = 0" "s_dw_buffer s = None" "\<not> high \<Longrightarrow> s_high s = []"
  shows "list_uncomplete (s_low (after_write high n t tl s)) \<longrightarrow> list_uncomplete (s_low s)"
proof (cases high)
  case False
  with assms(1) have "\<forall>wb\<in>set (tl (s_low s)). wb_ptr wb = 0" using assms(2,3) by (simp add: wb_queue_def)
  then have "\<not> list_uncomplete (tl (s_low s))" by (cases "tl (s_low s)") (simp_all add: list_uncomplete_def)
  with False show ?thesis by (simp add: after_write_def upd_wb_list_def)
qed (simp add: after_write_def upd_wb_list_def)

lemma send_tcp_step_spec:
  assumes inv: "ss_inv xs cs ss" and i: "i < MAX_SOCKET" and live: "live (ss_slot ss i)" and dw: "s_dw_buffer (ss_slot ss i) = None"
    and hi: "high \<or> s_high (ss_slot ss i) = []" and lock: "l > 0 \<or> \<not> s_dw_lock (ss_slot ss i)"
  shows "(\<exists>ss'. send_tcp_step i high l result ss = Some (Inl ss') \<and> send_cont i high xs cs ss ss' \<and>
      (list_uncomplete (s_low (ss_slot ss' i)) \<longrightarrow> list_uncomplete (s_low (ss_slot ss i))) \<and>
      length (wb_list_of high (ss_slot ss' i)) + length (ss_tape ss') < length (wb_list_of high (ss_slot ss i)) + length (ss_tape ss)) \<or>
    (\<exists>ss'. send_tcp_step i high l result ss = Some (Inr (None, result, ss')) \<and> send_cont i high xs cs ss ss') \<or>
    (\<exists>ev result' ss'. send_tcp_step i high l result ss = Some (Inr (Some ev, result', ss')) \<and> ss_inv xs cs ss' \<and> tcp_step i ss ss' \<and>
      ev \<in> {SOCKET_RST, SOCKET_ERR} \<and> write_over (ss_slot ss i) (ss_slot ss' i))"
    (is "?Go \<or> ?Stop \<or> ?Close")
proof (cases "wb_list_of high (ss_slot ss i)")
  case Nil
  then have ?Stop using inv by (simp add: send_tcp_step_def send_cont_def)
  then show ?thesis by simp
next
  case (Cons tmp ws)
  have high: "s_high (ss_slot ss i) = []" if "\<not> high" using hi that by simp
  let ?s = "ss_slot ss i" and ?rest = "ws @ (if high then s_low (ss_slot ss i) else [])"
  have q: "wb_queue ?s = tmp # ?rest" using Cons by (simp add: queue_of_list(1) [OF dw high])
  have q': "wb_queue (after_write high n t f ?s) = f (tmp # ws) @ (if high then s_low ?s else [])" for n t f
    using Cons by (simp add: queue_of_list(2) [OF dw high])
  obtain bs where bs: "mem_read (wb_buffer tmp) (wb_ptr tmp) (wb_sz tmp) ss = Some bs" "length bs = wb_sz tmp"
    using queue_head_read [OF inv i q] by auto
  show ?thesis
  proof (rule sys_write_cases [of "s_fd ?s" bs ss])
    fix err ss1 assume w: "sys_write (s_fd ?s) bs ss = (Inl err, ss1)" "core ss1 = core ss" "ss_log ss1 = ss_log ss"
      "ss_tape ss1 = tl (ss_tape ss)" "ss_tape ss = [] \<Longrightarrow> err = EAGAIN" "ss_ev ss1 = ss_ev ss" "ss_event_index ss1 = ss_event_index ss"
    have ts: "tcp_step i ss ss1" using w by (intro core_tcp_step) auto
    have slot: "ss_slot ss1 = ss_slot ss" using w(2) by (simp add: core_eq_iff)
    have inv1: "ss_inv xs cs ss1" using inv ss_inv_core [OF w(2)] by simp
    have sc: "send_cont i high xs cs ss ss1" using ts inv1 slot by (simp add: send_cont_def)
    consider "err = EINTR" | "err = EAGAIN" | "err \<noteq> EINTR" "err \<noteq> EAGAIN" by blast
    then show ?thesis
    proof cases
      case 1
      then have "ss_tape ss \<noteq> []" using w(5) by (auto simp: EINTR_def EAGAIN_def)
      with 1 have ?Go using Cons bs w(1,4) sc slot by (cases "ss_tape ss") (auto simp: send_tcp_step_def)
      then show ?thesis ..
    next
      case 2
      then have ?Stop using Cons bs w(1) sc by (simp add: send_tcp_step_def EINTR_def EAGAIN_def)
      then show ?thesis by simp
    next
      case 3
      obtain ev result' ss' where c: "close_write i l err result ss1 = Some (ev, result', ss')" "ss_inv xs cs ss'" "tcp_step i ss1 ss'"
        "ev \<in> {SOCKET_RST, SOCKET_ERR}" and sl: "ss_slot ss' i = closed_socket (ss_slot ss1 i) \<or>
          ss_slot ss' i = (ss_slot ss1 i)\<lparr>s_type := SOCKET_TYPE_HALFCLOSE_WRITE\<rparr> \<or>
          ss_slot ss' i = (ss_slot ss1 i)\<lparr>s_type := SOCKET_TYPE_HALFCLOSE_WRITE, s_writing := False\<rparr>"
        using close_write_spec [OF inv1 i, of l err result] live lock slot by auto
      have "tcp_step i ss ss'" using ts c(3) by (rule tcp_step_trans)
      moreover have "write_over ?s (ss_slot ss' i)" using sl slot by (auto simp: write_over_def)
      ultimately have ?Close using Cons bs w(1) c 3 by (simp add: send_tcp_step_def)
      then show ?thesis by simp
    qed
  next
    fix n ss1 assume w: "sys_write (s_fd ?s) bs ss = (Inr n, ss1)" "core ss1 = core ss" "n \<le> length bs"
      "ss_log ss1 = ss_log ss @ [K_write (s_fd ?s) (take n bs)]" "ss_tape ss1 = tl (ss_tape ss)" "ss_tape ss \<noteq> []"
      "ss_ev ss1 = ss_ev ss" "ss_event_index ss1 = ss_event_index ss"
    let ?u = "\<lambda>f. upd_slot i (after_write high n (ss_time ss1) f) ss1"
    have slot1: "ss_slot ss1 = ss_slot ss" using w(2) by (simp add: core_eq_iff)
    have cu: "core (?u f) = core (upd_slot i (after_write high n (ss_time ss1) f) ss)" for f using w(2) by (simp add: core_eq_iff)
    have eqs: "ss_slot (?u f) = (ss_slot ss)(i := after_write high n (ss_time ss1) f ?s)" "ss_pipe (?u f) = ss_pipe ss"
      "ss_mem (?u f) = ss_mem ss" "ss_brk (?u f) = ss_brk ss" for f using w(2) by (simp_all add: core_eq_iff)
    show ?thesis
    proof (cases "n = wb_sz tmp")
      case False
      have "ss_inv xs cs (?u (advance_head n))" "advance (take n bs) (view i ss) (view i (?u (advance_head n)))"
        using write_part [OF inv i live dw q _ eqs, of n "advance_head n"] w(3) bs dw by (simp_all add: q' advance_head_def)
      then have "send_cont i high xs cs ss (?u (advance_head n))"
        using w live by (simp add: send_cont_def written_step [OF cu] slot1 advance_head_def split: list.splits)
      moreover have "send_tcp_step i high l result ss = Some (Inr (None, result, ?u (advance_head n)))"
        using Cons bs w(1) False by (simp add: send_tcp_step_def stat_write_size advance_head_def [abs_def])
      ultimately show ?thesis by simp
    next
      case True
      have inv': "ss_inv (wb_buffer tmp # xs) cs (?u tl)" and adv: "advance bs (view i ss) (view i (?u tl))"
        using write_whole [OF inv i live dw q eqs, of tl] bs dw True by (simp_all add: q')
      obtain ss' where f: "mem_free (wb_buffer tmp) (?u tl) = Some ss'" "ss_inv xs cs ss'" "ss_slot ss' = ss_slot (?u tl)"
        "ss_tape ss' = ss_tape (?u tl)" "ss_log ss' = ss_log (?u tl)" "frame {} {} (?u tl) ss'" using free_frame [OF inv'] by auto
      have "tcp_step i ss (?u tl)" using w live adv bs True by (intro written_step [OF cu]) simp_all
      moreover have "tcp_step i (?u tl) ss'" using f i by (intro tcp_stepI) (auto simp: frame_def)
      ultimately have "tcp_step i ss ss'" by (rule tcp_step_trans)
      then have "send_cont i high xs cs ss ss'" using f slot1 by (simp add: send_cont_def)
      moreover have "\<not> wb_userobject tmp" using ss_inv_slotD [OF inv i] q by (simp add: slot_inv_def slot_ok_def node_ok_def)
      then have "send_tcp_step i high l result ss = Some (Inl ss')"
        using Cons bs w(1) True f(1) by (simp add: send_tcp_step_def stat_write_size write_buffer_free_def)
      moreover have "list_uncomplete (s_low (ss_slot ss' i)) \<longrightarrow> list_uncomplete (s_low ?s)"
        using low_after_write [of ?s high n "ss_time ss1"] dw high ss_inv_slotD [OF inv i] f(3) slot1
        by (simp add: slot_inv_def slot_ok_def)
      moreover have "length (wb_list_of high (ss_slot ss' i)) + length (ss_tape ss') < length (wb_list_of high ?s) + length (ss_tape ss)"
        using f(3,4) slot1 Cons w(5,6) by (cases "ss_tape ss") simp_all
      ultimately show ?thesis by blast
    qed
  qed
qed

text \<open>What \<open>send_list_tcp\<close> returns: the list is empty or cannot be written any further, or writing is over.\<close>

definition send_post :: "nat \<Rightarrow> bool \<Rightarrow> nat list \<Rightarrow> int list \<Rightarrow> socket_message \<Rightarrow> socket_server \<Rightarrow> reply \<Rightarrow> bool" where
  "send_post i high xs cs result ss r = (case r of
      (None, result', ss') \<Rightarrow> result' = result \<and> send_cont i high xs cs ss ss'
    | (Some ev, _, ss') \<Rightarrow> ss_inv xs cs ss' \<and> tcp_step i ss ss' \<and> ev \<in> {SOCKET_RST, SOCKET_ERR} \<and>
        (s_type (ss_slot ss' i) = SOCKET_TYPE_INVALID \<or> s_type (ss_slot ss' i) = SOCKET_TYPE_HALFCLOSE_WRITE) \<and>
        s_dw_lock (ss_slot ss' i) = s_dw_lock (ss_slot ss i) \<and> \<not> list_uncomplete (s_low (ss_slot ss' i)))"

text \<open>The loop ends: every turn takes a buffer from the list or an answer from the tape.\<close>

lemma send_list_tcp_spec:
  assumes "ss_inv xs cs ss" "i < MAX_SOCKET" "live (ss_slot ss i)" "s_dw_buffer (ss_slot ss i) = None"
    "high \<or> s_high (ss_slot ss i) = []" "l > 0 \<or> \<not> s_dw_lock (ss_slot ss i)" "\<not> list_uncomplete (s_low (ss_slot ss i))"
  shows "\<exists>r. send_list_tcp i high l result ss = Some r \<and> send_post i high xs cs result ss r"
  unfolding send_list_tcp_def
proof (rule repeat_step_total [where P = "\<lambda>ss1. send_cont i high xs cs ss ss1 \<and> \<not> list_uncomplete (s_low (ss_slot ss1 i))"
      and m = "\<lambda>ss. length (wb_list_of high (ss_slot ss i)) + length (ss_tape ss)"])
  show "send_cont i high xs cs ss ss \<and> \<not> list_uncomplete (s_low (ss_slot ss i))" using assms by (simp add: send_cont_def)
next
  fix ss1 assume P: "send_cont i high xs cs ss ss1 \<and> \<not> list_uncomplete (s_low (ss_slot ss1 i))"
  then have inv1: "ss_inv xs cs ss1" and k: "send_keeps high (ss_slot ss i) (ss_slot ss1 i)" and ts: "tcp_step i ss ss1"
    by (simp_all add: send_cont_def)
  from k have k': "live (ss_slot ss1 i)" "s_dw_buffer (ss_slot ss1 i) = None" "high \<or> s_high (ss_slot ss1 i) = []"
    "l > 0 \<or> \<not> s_dw_lock (ss_slot ss1 i)"
    using assms(3-6) by (auto simp: send_keeps_def live_def wb_list_of_def split: if_splits)
  have over: "(s_type s' = SOCKET_TYPE_INVALID \<or> s_type s' = SOCKET_TYPE_HALFCLOSE_WRITE) \<and>
        s_dw_lock s' = s_dw_lock (ss_slot ss i) \<and> \<not> list_uncomplete (s_low s')" if "write_over (ss_slot ss1 i) s'" for s'
    using that P k by (auto simp: write_over_def closed_socket_def list_uncomplete_def send_keeps_def)
  from send_tcp_step_spec [where high = high and result = result, OF inv1 assms(2) k']
  show "(\<exists>ss'. send_tcp_step i high l result ss1 = Some (Inl ss') \<and>
      (send_cont i high xs cs ss ss' \<and> \<not> list_uncomplete (s_low (ss_slot ss' i))) \<and>
      length (wb_list_of high (ss_slot ss' i)) + length (ss_tape ss') < length (wb_list_of high (ss_slot ss1 i)) + length (ss_tape ss1)) \<or>
    (\<exists>r. send_tcp_step i high l result ss1 = Some (Inr r) \<and> send_post i high xs cs result ss r)"
    (is "?A \<or> ?B")
  proof (elim disjE exE conjE)
    fix ss' assume "send_tcp_step i high l result ss1 = Some (Inl ss')" "send_cont i high xs cs ss1 ss'"
      "list_uncomplete (s_low (ss_slot ss' i)) \<longrightarrow> list_uncomplete (s_low (ss_slot ss1 i))"
      "length (wb_list_of high (ss_slot ss' i)) + length (ss_tape ss') < length (wb_list_of high (ss_slot ss1 i)) + length (ss_tape ss1)"
    then have ?A using P send_cont_trans by blast
    then show ?thesis ..
  next
    fix ss' assume "send_tcp_step i high l result ss1 = Some (Inr (None, result, ss'))" "send_cont i high xs cs ss1 ss'"
    then have ?B using P send_cont_trans by (auto simp: send_post_def)
    then show ?thesis ..
  next
    fix ev result' ss' assume "send_tcp_step i high l result ss1 = Some (Inr (Some ev, result', ss'))" "ss_inv xs cs ss'" "tcp_step i ss1 ss'"
      "ev \<in> {SOCKET_RST, SOCKET_ERR}" "write_over (ss_slot ss1 i) (ss_slot ss' i)"
    then have ?B using over tcp_step_trans [OF ts] by (auto simp: send_post_def)
    then show ?thesis ..
  qed
qed

text \<open>The result of an operation on one socket.\<close>

definition op_post :: "nat list \<Rightarrow> int list \<Rightarrow> nat \<Rightarrow> socket_server \<Rightarrow> socket_server \<Rightarrow> bool" where
  "op_post xs cs i ss ss' \<longleftrightarrow> ss_inv xs cs ss' \<and> tcp_step i ss ss' \<and> s_dw_lock (ss_slot ss' i) = s_dw_lock (ss_slot ss i)
     \<and> \<not> list_uncomplete (s_low (ss_slot ss' i))"

lemma op_post_trans: "op_post xs cs i ss ss' \<Longrightarrow> op_post xs cs i ss' ss'' \<Longrightarrow> op_post xs cs i ss ss''"
  by (auto simp: op_post_def intro: tcp_step_trans)

lemma op_post_refl: "ss_inv xs cs ss \<Longrightarrow> \<not> list_uncomplete (s_low (ss_slot ss i)) \<Longrightarrow> op_post xs cs i ss ss"
  by (simp add: op_post_def)

lemma force_close_post:
  assumes "ss_inv xs cs ss" "i < MAX_SOCKET" "live (ss_slot ss i)" "l > 0 \<or> \<not> s_dw_lock (ss_slot ss i)"
  shows "\<exists>ss'. force_close i l ss = Some (message_of (ss_slot ss i), ss') \<and> op_post xs cs i ss ss' \<and>
    s_type (ss_slot ss' i) = SOCKET_TYPE_INVALID"
proof -
  obtain ss' where f: "force_close i l ss = Some (message_of (ss_slot ss i), ss')" "ss_inv xs cs ss'"
    "ss_slot ss' i = closed_socket (ss_slot ss i)" "frame {i} {} ss ss'" using force_close_frame [OF assms] by auto
  then have "tcp_step i ss ss'" using assms(3) by (intro tcp_stepI) (auto simp: closed_socket_def live_def)
  with f show ?thesis by (simp add: op_post_def closed_socket_def list_uncomplete_def)
qed

lemma same_post:
  assumes "ss_inv xs cs ss" "i < MAX_SOCKET" "same_queue (ss_slot ss i) (f (ss_slot ss i))"
    "s_type (f (ss_slot ss i)) = s_type (ss_slot ss i)" "s_fd (f (ss_slot ss i)) = s_fd (ss_slot ss i)"
    "s_dw_lock (f (ss_slot ss i)) = s_dw_lock (ss_slot ss i)" "\<not> list_uncomplete (s_low (ss_slot ss i))"
  shows "op_post xs cs i ss (upd_slot i f ss)"
proof -
  have "view i (upd_slot i f ss) = view i ss" using assms(3) by (simp add: view_def same_queue_wb_queue)
  then have "tcp_step i ss (upd_slot i f ss)" using assms
    by (intro tcp_stepI frame_upd_slot) (auto simp: same_queue_def live_def)
  with assms show ?thesis by (auto simp: op_post_def same_queue_def intro: ss_inv_same)
qed

lemma enable_post:
  assumes "ss_inv xs cs ss" "i < MAX_SOCKET" "\<not> list_uncomplete (s_low (ss_slot ss i))"
  shows "\<exists>err ss'. enable_write i b ss = (err, ss') \<and> op_post xs cs i ss ss' \<and> ss_slot ss' i = (ss_slot ss i)\<lparr>s_writing := b\<rparr>" (is ?W)
    "\<exists>err ss'. enable_read i b ss = (err, ss') \<and> op_post xs cs i ss ss' \<and> ss_slot ss' i = (ss_slot ss i)\<lparr>s_reading := b\<rparr>" (is ?R)
proof -
  obtain err ss' where w: "enable_write i b ss = (err, ss')" "ss_inv xs cs ss'" "frame {i} {} ss ss'" "view i ss' = view i ss"
    "ss_slot ss' i = (ss_slot ss i)\<lparr>s_writing := b\<rparr>" using enable_frame(1) [OF assms(1,2)] by metis
  then have "tcp_step i ss ss'" by (intro tcp_stepI) (auto simp: live_def)
  with w assms(3) show ?W by (simp add: op_post_def)
  obtain err ss' where r: "enable_read i b ss = (err, ss')" "ss_inv xs cs ss'" "frame {i} {} ss ss'" "view i ss' = view i ss"
    "ss_slot ss' i = (ss_slot ss i)\<lparr>s_reading := b\<rparr>" using enable_frame(2) [OF assms(1,2)] by metis
  then have "tcp_step i ss ss'" by (intro tcp_stepI) (auto simp: live_def)
  with r assms(3) show ?R by (simp add: op_post_def)
qed

text \<open>The events a write may raise.\<close>

definition write_event :: "socket_event option \<Rightarrow> bool" where
  "write_event ev \<longleftrightarrow> ev \<in> {None, Some SOCKET_ERR, Some SOCKET_WARNING}"

lemma send_buffer_done_spec:
  assumes inv: "ss_inv xs cs ss" and i: "i < MAX_SOCKET" and live: "live (ss_slot ss i)" and lock: "l > 0 \<or> \<not> s_dw_lock (ss_slot ss i)"
    and empty: "s_high (ss_slot ss i) = []" "s_low (ss_slot ss i) = []"
  shows "\<exists>ev r ss'. send_buffer_done i l result ss = Some (ev, r, ss') \<and> op_post xs cs i ss ss' \<and> write_event ev"
proof -
  let ?s = "ss_slot ss i"
  have nl: "\<not> list_uncomplete (s_low ?s)" by (simp add: empty list_uncomplete_def)
  have size: "s_wb_size ?s = 0" using ss_inv_slotD [OF inv i] live empty by (simp add: slot_inv_def slot_ok_def)
  show ?thesis
  proof (cases "s_closing ?s")
    case True
    then show ?thesis using force_close_post [OF inv i live lock] size empty
      by (auto simp: send_buffer_done_def Let_def send_buffer_empty_def write_event_def)
  next
    case False
    obtain err ss1 where w: "enable_write i False ss = (err, ss1)" "op_post xs cs i ss ss1" "ss_slot ss1 i = ?s\<lparr>s_writing := False\<rparr>"
      using enable_post(1) [OF inv i nl] by metis
    then have "ss_inv xs cs ss1" "\<not> list_uncomplete (s_low (ss_slot ss1 i))" by (auto simp: op_post_def)
    then have "op_post xs cs i ss1 (upd_slot i (s_warn_size_update (\<lambda>_. 0)) ss1)"
      using i by (intro same_post) (auto simp: same_queue_def)
    then have "op_post xs cs i ss (upd_slot i (s_warn_size_update (\<lambda>_. 0)) ss1)" using w(2) by (rule op_post_trans [rotated])
    then show ?thesis using w(1,2) False size empty
      by (auto simp: send_buffer_done_def Let_def send_buffer_empty_def write_event_def)
  qed
qed

lemma raise_uncomplete_spec:
  assumes inv: "ss_inv xs cs ss" and i: "i < MAX_SOCKET" and live: "live (ss_slot ss i)" and dw: "s_dw_buffer (ss_slot ss i) = None"
    and empty: "s_high (ss_slot ss i) = []" and unc: "list_uncomplete (s_low (ss_slot ss i))"
  shows "\<exists>ss'. raise_uncomplete i ss = Some ss' \<and> op_post xs cs i ss ss'"
proof -
  let ?s = "ss_slot ss i"
  obtain tmp ws where low: "s_low ?s = tmp # ws" using unc by (auto simp: list_uncomplete_def split: list.splits)
  let ?f = "\<lambda>s. s\<lparr>s_low := ws, s_high := [tmp]\<rparr>"
  have ok: "slot_inv cs (ss_pipe ss) (ss_mem ss) i ?s" by (rule ss_inv_slotD [OF inv i])
  have q: "wb_queue ?s = tmp # ws" "wb_queue (?f ?s) = tmp # ws" using dw empty low by (simp_all add: wb_queue_def)
  have so: "slot_ok (ss_mem ss) ?s" using ok by (simp add: slot_inv_def)
  have "slot_inv cs (ss_pipe ss) (ss_mem ss) i (?f ?s)"
    using so live dw empty low by (intro slot_inv_queueI [OF ok live]) (auto simp: q slot_ok_def)
  then have "ss_inv xs cs (upd_slot i ?f ss)" by (intro ss_inv_slot [OF inv i]) (simp_all add: q)
  moreover have "view i (upd_slot i ?f ss) = view i ss" by (simp add: view_def q)
  then have "tcp_step i ss (upd_slot i ?f ss)" using low by (intro tcp_stepI frame_upd_slot) (auto simp: live_def)
  moreover have "\<not> list_uncomplete ws" using so by (cases ws) (auto simp: slot_ok_def q list_uncomplete_def)
  ultimately show ?thesis using low empty by (simp add: raise_uncomplete_def op_post_def)
qed

lemma send_list_TCP: "live (ss_slot ss i) \<Longrightarrow> ss_inv xs cs ss \<Longrightarrow> i < MAX_SOCKET \<Longrightarrow>
   send_list i high l result ss = send_list_tcp i high l result ss"
  using ss_inv_slotD [of xs cs ss i] by (simp add: send_list_def slot_inv_def slot_ok_def)

lemma send_post_event:
  "send_post i high xs cs result ss (Some ev, r, ss') \<Longrightarrow> op_post xs cs i ss ss' \<and> write_event (fst (send_list_event ev r ss')) \<and>
    snd (snd (send_list_event ev r ss')) = ss'"
  by (auto simp: send_post_def op_post_def send_list_event_def write_event_def)

lemma send_cont_keeps:
  assumes "send_cont i high xs cs ss ss'" "live (ss_slot ss i)" "s_dw_buffer (ss_slot ss i) = None" "l > 0 \<or> \<not> s_dw_lock (ss_slot ss i)"
  shows "live (ss_slot ss' i)" "s_dw_buffer (ss_slot ss' i) = None" "l > 0 \<or> \<not> s_dw_lock (ss_slot ss' i)"
    "\<not> list_uncomplete (s_low (ss_slot ss' i)) \<Longrightarrow> op_post xs cs i ss ss'" "ss_inv xs cs ss'"
  using assms by (auto simp: send_cont_def send_keeps_def live_def op_post_def)

lemma send_buffer_low_spec:
  assumes inv: "ss_inv xs cs ss" and i: "i < MAX_SOCKET" and live: "live (ss_slot ss i)" and dw: "s_dw_buffer (ss_slot ss i) = None"
    and lock: "l > 0 \<or> \<not> s_dw_lock (ss_slot ss i)" and nl: "\<not> list_uncomplete (s_low (ss_slot ss i))" and high: "s_high (ss_slot ss i) = []"
  shows "\<exists>ev r ss'. send_buffer_low i l result ss = Some (ev, r, ss') \<and> op_post xs cs i ss ss' \<and> write_event ev"
proof -
  obtain ret r1 ss1 where l: "send_list_tcp i False l result ss = Some (ret, r1, ss1)" "send_post i False xs cs result ss (ret, r1, ss1)"
    using send_list_tcp_spec [where high = False and result = result, OF inv i live dw _ lock nl] high by auto
  note unf = send_buffer_low_def send_list_TCP [OF live inv i] l(1)
  show ?thesis
  proof (cases ret)
    case (Some ev)
    obtain ev' r' where ev': "send_list_event ev r1 ss1 = (ev', r', ss1)" by (cases "ev = SOCKET_ERR") (simp_all add: send_list_event_def)
    show ?thesis using send_post_event [OF l(2) [unfolded Some]] Some by (simp add: unf ev')
  next
    case None
    then have sc: "send_cont i False xs cs ss ss1" and [simp]: "r1 = result" using l(2) by (simp_all add: send_post_def)
    note k = send_cont_keeps [OF sc live dw lock]
    have high1: "s_high (ss_slot ss1 i) = []" using sc high by (simp add: send_cont_def send_keeps_def wb_list_of_def)
    show ?thesis
    proof (cases "list_uncomplete (s_low (ss_slot ss1 i))")
      case True
      obtain ss2 where r: "raise_uncomplete i ss1 = Some ss2" "op_post xs cs i ss1 ss2"
        using raise_uncomplete_spec [OF k(5) i k(1,2) high1 True] by blast
      then have "op_post xs cs i ss ss2" using sc by (auto simp: op_post_def send_cont_def send_keeps_def intro: tcp_step_trans)
      with r True None show ?thesis by (simp add: unf write_event_def)
    next
      case nl1: False
      note post = k(4) [OF nl1]
      show ?thesis
      proof (cases "s_low (ss_slot ss1 i) = []")
        case True
        then obtain ev r ss2 where "send_buffer_done i l result ss1 = Some (ev, r, ss2)" "op_post xs cs i ss1 ss2" "write_event ev"
          using send_buffer_done_spec [OF k(5) i k(1,3) high1 True] by blast
        then show ?thesis using nl1 True None op_post_trans [OF post] by (simp add: unf)
      qed (use nl1 None post in \<open>simp add: unf write_event_def\<close>)
    qed
  qed
qed

lemma send_buffer_lists_spec:
  assumes inv: "ss_inv xs cs ss" and i: "i < MAX_SOCKET" and live: "live (ss_slot ss i)" and dw: "s_dw_buffer (ss_slot ss i) = None"
    and lock: "l > 0 \<or> \<not> s_dw_lock (ss_slot ss i)" and nl: "\<not> list_uncomplete (s_low (ss_slot ss i))"
  shows "\<exists>ev r ss'. send_buffer_lists i l result ss = Some (ev, r, ss') \<and> op_post xs cs i ss ss' \<and> write_event ev"
proof -
  obtain ret r1 ss1 where h: "send_list_tcp i True l result ss = Some (ret, r1, ss1)" "send_post i True xs cs result ss (ret, r1, ss1)"
    using send_list_tcp_spec [where high = True and result = result, OF inv i live dw _ lock nl] by auto
  note unf = send_buffer_lists_def send_list_TCP [OF live inv i] nl h(1)
  show ?thesis
  proof (cases ret)
    case (Some ev)
    obtain ev' r' where ev': "send_list_event ev r1 ss1 = (ev', r', ss1)" by (cases "ev = SOCKET_ERR") (simp_all add: send_list_event_def)
    show ?thesis using send_post_event [OF h(2) [unfolded Some]] Some by (simp add: unf ev')
  next
    case None
    then have sc: "send_cont i True xs cs ss ss1" and [simp]: "r1 = result" using h(2) by (simp_all add: send_post_def)
    note k = send_cont_keeps [OF sc live dw lock]
    have nl1: "\<not> list_uncomplete (s_low (ss_slot ss1 i))" using sc nl by (simp add: send_cont_def send_keeps_def wb_list_of_def)
    note post = k(4) [OF nl1]
    show ?thesis
    proof (cases "s_high (ss_slot ss1 i) = []")
      case False
      with None post show ?thesis by (simp add: unf write_event_def)
    next
      case high: True
      show ?thesis
      proof (cases "s_low (ss_slot ss1 i) = []")
        case True
        then obtain ev r ss2 where "send_buffer_done i l result ss1 = Some (ev, r, ss2)" "op_post xs cs i ss1 ss2" "write_event ev"
          using send_buffer_done_spec [OF k(5) i k(1,3) high True] by blast
        then show ?thesis using None high True op_post_trans [OF post] by (simp add: unf)
      next
        case False
        obtain ev r ss2 where "send_buffer_low i l result ss1 = Some (ev, r, ss2)" "op_post xs cs i ss1 ss2" "write_event ev"
          using send_buffer_low_spec [OF k(5) i k(1,2,3) nl1 high, of result] by blast
        then show ?thesis using None high False op_post_trans [OF post] by (simp add: unf)
      qed
    qed
  qed
qed

lemma take_dw_spec:
  assumes inv: "ss_inv xs cs ss" and i: "i < MAX_SOCKET" and live: "live (ss_slot ss i)" and nl: "\<not> list_uncomplete (s_low (ss_slot ss i))"
  shows "\<exists>ss'. take_dw i ss = Some ss' \<and> op_post xs cs i ss ss' \<and> s_dw_buffer (ss_slot ss' i) = None \<and> live (ss_slot ss' i)"
proof (cases "s_dw_buffer (ss_slot ss i)")
  case None
  with assms show ?thesis by (simp add: take_dw_def op_post_refl)
next
  case (Some b)
  let ?s = "ss_slot ss i"
  let ?wb = "\<lparr>wb_buffer = b, wb_ptr = s_dw_offset ?s, wb_sz = s_dw_size ?s - s_dw_offset ?s, wb_userobject = False,
    wb_object = sizeof_write_buffer, wb_udp_address = []\<rparr>"
  let ?f = "\<lambda>s. s\<lparr>s_wb_size := s_wb_size s + int (wb_sz ?wb), s_high := ?wb # s_high s, s_dw_buffer := None\<rparr>"
  have ok: "slot_inv cs (ss_pipe ss) (ss_mem ss) i ?s" by (rule ss_inv_slotD [OF inv i])
  then have so: "slot_ok (ss_mem ss) ?s" by (simp add: slot_inv_def)
  have q: "wb_queue ?s = ?wb # s_high ?s @ s_low ?s" "wb_queue (?f ?s) = ?wb # s_high ?s @ s_low ?s"
    using Some by (simp_all add: wb_queue_def dw_list_def)
  have "slot_inv cs (ss_pipe ss) (ss_mem ss) i (?f ?s)"
  proof (rule slot_inv_queueI [OF ok live])
    show "\<forall>wb\<in>set (wb_queue (?f ?s)). node_ok (ss_mem ss) wb" "\<forall>wb\<in>set (tl (wb_queue (?f ?s))). wb_ptr wb = 0"
      using so unfolding q slot_ok_def by simp_all
    show "s_wb_size (?f ?s) = (\<Sum>wb\<leftarrow>wb_queue (?f ?s). int (wb_sz wb))" using so live unfolding q slot_ok_def by simp
  qed simp_all
  then have "ss_inv xs cs (upd_slot i ?f ss)" by (intro ss_inv_slot [OF inv i]) (simp_all add: q(1) q(2) [simplified])
  moreover have "view i (upd_slot i ?f ss) = view i ss" by (simp add: view_def q(1) q(2) [simplified])
  then have "tcp_step i ss (upd_slot i ?f ss)" by (intro tcp_stepI frame_upd_slot) (auto simp: live_def)
  moreover have "take_dw i ss = Some (upd_slot i ?f ss)"
    using Some so by (simp add: take_dw_def Let_def send_object_init_def slot_ok_def)
  ultimately show ?thesis using nl live by (simp add: op_post_def live_def)
qed

lemma lock_step:
  assumes "ss_inv xs cs ss" "i < MAX_SOCKET"
  shows "ss_inv xs cs (upd_slot i (s_dw_lock_update (\<lambda>_. b)) ss)" "tcp_step i ss (upd_slot i (s_dw_lock_update (\<lambda>_. b)) ss)"
proof -
  show "ss_inv xs cs (upd_slot i (s_dw_lock_update (\<lambda>_. b)) ss)" using assms by (intro ss_inv_same) (auto simp: same_queue_def)
  have "view i (upd_slot i (s_dw_lock_update (\<lambda>_. b)) ss) = view i ss" by (simp add: view_def wb_queue_def)
  then show "tcp_step i ss (upd_slot i (s_dw_lock_update (\<lambda>_. b)) ss)" by (intro tcp_stepI frame_upd_slot) (auto simp: live_def)
qed

lemma send_buffer_spec:
  assumes inv: "ss_inv xs cs ss" and i: "i < MAX_SOCKET" and live: "live (ss_slot ss i)" and lock: "\<not> s_dw_lock (ss_slot ss i)"
    and nl: "\<not> list_uncomplete (s_low (ss_slot ss i))"
  shows "\<exists>ev r ss'. send_buffer i 0 result ss = Some (ev, r, ss') \<and> op_post xs cs i ss ss' \<and> write_event ev"
proof -
  let ?l = "upd_slot i (s_dw_lock_update (\<lambda>_. True)) ss"
  note l = lock_step [OF inv i, of True]
  obtain ss1 where t: "take_dw i ?l = Some ss1" "op_post xs cs i ?l ss1" "s_dw_buffer (ss_slot ss1 i) = None" "live (ss_slot ss1 i)"
    using take_dw_spec [OF l(1) i] live nl by (auto simp: live_def)
  then have p1: "ss_inv xs cs ss1" "\<not> list_uncomplete (s_low (ss_slot ss1 i))" by (auto simp: op_post_def)
  obtain ev r ss2 where s: "send_buffer_lists i 1 result ss1 = Some (ev, r, ss2)" "op_post xs cs i ss1 ss2" "write_event ev"
    using send_buffer_lists_spec [OF p1(1) i t(4,3) _ p1(2), of 1 result] by auto
  let ?u = "upd_slot i (s_dw_lock_update (\<lambda>_. False)) ss2"
  have inv2: "ss_inv xs cs ss2" using s(2) by (simp add: op_post_def)
  note u = lock_step [OF inv2 i, of False]
  have "tcp_step i ss ?u"
    using l(2) t(2) s(2) u(2) unfolding op_post_def by (meson tcp_step_trans)
  then have "op_post xs cs i ss ?u" using u(1) lock s(2) by (simp add: op_post_def)
  moreover have "send_buffer i 0 result ss = Some (ev, r, ?u)" using lock t(1) s(1) by (simp add: send_buffer_def)
  ultimately show ?thesis using s(3) by blast
qed

section \<open>Commands on packages\<close>

text \<open>What a package in the pipe adds to the packages of its socket.\<close>

lemma new_write_buffer_eq:
  "rq_sz q \<noteq> USEROBJECT \<Longrightarrow> new_write_buffer q n = Some \<lparr>wb_buffer = rq_buffer q, wb_ptr = 0, wb_sz = rq_sz q, wb_userobject = False,
     wb_object = sizeof_write_buffer, wb_udp_address = []\<rparr>"
  by (simp add: new_write_buffer_def send_object_init_def)

text \<open>The step of a package: it is inserted between whole packages, before the low list or at the end.\<close>

definition append_step :: "nat \<Rightarrow> bool \<Rightarrow> bytes \<Rightarrow> socket_server \<Rightarrow> socket_server \<Rightarrow> bool" where
  "append_step i high p ss ss' \<longleftrightarrow> frame {i} {} ss ss' \<and> s_id (ss_slot ss' i) = s_id (ss_slot ss i)
     \<and> s_fd (ss_slot ss' i) = s_fd (ss_slot ss i) \<and> s_type (ss_slot ss' i) = s_type (ss_slot ss i)
     \<and> (\<exists>v1 v2. view i ss = v1 @ v2 \<and> view i ss' = v1 @ (0, p) # v2 \<and> (v1 = [] \<longrightarrow> begun v2 = []) \<and>
          (length (s_low (ss_slot ss' i)) = length (s_low (ss_slot ss i)) \<and> length v2 = length (s_low (ss_slot ss i)) \<and> (high \<or> v2 = []) \<or>
           length (s_low (ss_slot ss' i)) = Suc (length (s_low (ss_slot ss i))) \<and> v2 = [] \<and> \<not> high))"

end
