(* ===== verification/Socket_Commands.thy ===== *)
theory Socket_Commands
  imports Socket_Write
begin

text \<open>
  The commands of the control pipe, one lemma for each: packages, closing, starting and pausing, and the creation of
  sockets on reserved ids.
\<close>

text \<open>The counter of packages in the pipe below the tag of the id.\<close>

lemma ID_TAG16_bound: "unat (ID_TAG16 sid) < 65536"
proof -
  define k where "k = nat ((sid div int MAX_SOCKET) mod 65536)"
  have k: "(sid div int MAX_SOCKET) mod 65536 = int k" "k < 65536" by (simp_all add: k_def nat_less_iff)
  then have "unat (of_nat k :: u64) = k" by (simp add: unat_of_nat)
  with k show ?thesis by (simp add: ID_TAG16_def)
qed

lemma sending_word:
  fixes t :: u64
  assumes "unat t < 65536" "n \<le> 0xffff"
  shows "unat (push_bit 16 t + of_nat n) = unat t * 65536 + n"
    "(push_bit 16 t + of_nat n) AND 0xffff = of_nat n" "drop_bit 16 (push_bit 16 t + of_nat n) = t"
proof -
  have "unat (push_bit 16 t) = unat t * 65536" using assms(1)
    by (simp add: push_bit_eq_mult) (subst unat_mult_lem [THEN iffD1], simp_all)
  moreover have n: "unat (of_nat n :: u64) = n" using assms(2) by (simp add: unat_of_nat)
  ultimately show u: "unat (push_bit 16 t + of_nat n) = unat t * 65536 + n"
    using assms by (subst unat_add_lem [THEN iffD1]) simp_all
  have "(0xffff :: u64) = mask 16" by (simp add: mask_eq_exp_minus_1)
  then have "(push_bit 16 t + of_nat n) AND 0xffff = take_bit 16 (push_bit 16 t + of_nat n)" by (simp add: take_bit_eq_mask)
  also have "unat \<dots> = n" using assms by (simp add: unsigned_take_bit_eq u) (simp add: take_bit_eq_mod)
  finally show "(push_bit 16 t + of_nat n) AND 0xffff = of_nat n" by (simp add: word_unat_eq_iff n)
  have "unat (drop_bit 16 (push_bit 16 t + of_nat n)) = unat t" using assms by (simp add: unat_drop_bit_eq u) (simp add: drop_bit_eq_div)
  then show "drop_bit 16 (push_bit 16 t + of_nat n) = t" by (simp add: word_unat_eq_iff)
qed

lemma ss_inv_pop:
  assumes inv: "ss_inv xs cs ss" and p: "ss_pipe ss = r # rs"
  shows "ss_inv (map rq_buffer (req_sends r) @ xs) (map rq_id (req_sends r) @ cs) (ss\<lparr>ss_pipe := rs\<rparr>)"
proof -
  have pend: "pending_count (map rq_id (req_sends r) @ cs) rs sid = pending_count cs (r # rs) sid" for sid by (simp add: pending_count_def)
  have slots: "slot_inv (map rq_id (req_sends r) @ cs) rs (ss_mem ss) i (ss_slot ss i)" if "i < MAX_SOCKET" for i
    using ss_inv_slotD [OF inv that] unfolding slot_inv_def sending_ok_def pend p by auto
  have "mset (owned (map rq_buffer (req_sends r) @ xs) (ss\<lparr>ss_pipe := rs\<rparr>)) = mset (owned xs ss)"
    using p by (simp add: owned_def)
  then have "distinct (owned (map rq_buffer (req_sends r) @ xs) (ss\<lparr>ss_pipe := rs\<rparr>)) = distinct (owned xs ss)"
    "set (owned (map rq_buffer (req_sends r) @ xs) (ss\<lparr>ss_pipe := rs\<rparr>)) = set (owned xs ss)" by - (erule mset_same)+
  with inv slots p show ?thesis by (simp add: ss_inv_def)
qed

text \<open>Giving back the count of a package that was taken from the pipe.\<close>

lemma pending_count_Cons: "pending_count (sid # cs) p sid' = pending_count cs p sid' + (if sid' = sid then 1 else 0)"
  by (simp add: pending_count_def)

lemma dec_sending_spec:
  assumes inv: "ss_inv xs (sid # cs) ss"
  shows "\<exists>ss'. dec_sending_ref sid ss = Some ss' \<and> ss_inv xs cs ss' \<and> (\<exists>n. ss' = upd_slot (HASH_ID sid) (s_sending_update (\<lambda>_. n)) ss)"
proof -
  let ?i = "HASH_ID sid" and ?s = "slot_of sid ss"
  define n where "n = (if s_id ?s = sid \<and> s_protocol ?s = PROTOCOL_TCP then s_sending ?s - 1 else s_sending ?s)"
  let ?ss' = "upd_slot ?i (s_sending_update (\<lambda>_. n)) ss"
  have ok: "slot_inv (sid # cs) (ss_pipe ss) (ss_mem ss) i (ss_slot ss i)" if "i < MAX_SOCKET" for i
    by (rule ss_inv_slotD [OF inv that])
  have other: "slot_inv cs (ss_pipe ss) (ss_mem ss) i (ss_slot ss i)" if "i < MAX_SOCKET" "i \<noteq> ?i" for i
    using ok [OF that(1)] that(2) unfolding slot_inv_def sending_ok_def pending_count_Cons by (auto split: if_splits)
  have cnt: "s_sending ?s = push_bit 16 (ID_TAG16 sid) + of_nat (Suc (pending_count cs (ss_pipe ss) sid))" "pending_count cs (ss_pipe ss) sid < 0xffff"
    if "s_id ?s = sid" "s_protocol ?s = PROTOCOL_TCP"
    using ok [of ?i] that by (auto simp: slot_inv_def sending_ok_def pending_count_Cons)
  have here: "slot_inv cs (ss_pipe ss) (ss_mem ss) ?i (?s\<lparr>s_sending := n\<rparr>)"
  proof -
    have "slot_ok (ss_mem ss) (?s\<lparr>s_sending := n\<rparr>)" using ok [of ?i] by (simp add: slot_inv_def slot_ok_def wb_queue_def live_def)
    moreover have "HASH_ID (s_id ?s) = ?i \<longrightarrow> sending_ok cs (ss_pipe ss) (?s\<lparr>s_sending := n\<rparr>)"
    proof (cases "s_id ?s = sid \<and> s_protocol ?s = PROTOCOL_TCP")
      case True
      then show ?thesis using cnt by (simp add: sending_ok_def n_def)
    next
      case False
      then show ?thesis using ok [of ?i] \<open>slot_ok _ _\<close> by (auto simp: slot_inv_def sending_ok_def pending_count_Cons n_def)
    qed
    ultimately show ?thesis using ok [of ?i] unfolding slot_inv_def pending_count_Cons by (auto split: if_splits)
  qed
  have "mset (owned xs ?ss') = mset (owned xs ss)" by (rule owned_slot [where i = "?i" and s' = "?s\<lparr>s_sending := n\<rparr>"]) (simp_all add: wb_queue_def)
  then have "distinct (owned xs ?ss') = distinct (owned xs ss)" "set (owned xs ?ss') = set (owned xs ss)" by - (erule mset_same)+
  with inv here other have "ss_inv xs cs ?ss'" by (auto simp: ss_inv_def)
  moreover have "dec_sending_ref sid ss = Some ?ss'"
  proof (cases "s_id ?s = sid \<and> s_protocol ?s = PROTOCOL_TCP")
    case True
    then have "s_sending ?s AND 0xffff = of_nat (Suc (pending_count cs (ss_pipe ss) sid))"
      using cnt sending_word(2) [OF ID_TAG16_bound, of "Suc (pending_count cs (ss_pipe ss) sid)" sid] by simp
    moreover have "(of_nat (Suc (pending_count cs (ss_pipe ss) sid)) :: u64) \<noteq> 0"
      using cnt(2) True by (metis Suc_leI nat.distinct(1) unat_0 sending_word(1) [of 0 "Suc (pending_count cs (ss_pipe ss) sid)"] add.left_neutral mult_0
          push_bit_of_0 unsigned_0 zero_less_numeral)
    ultimately show ?thesis using True by (simp add: dec_sending_ref_def Let_def n_def upd_slot_def)
  next
    case False
    then show ?thesis by (auto simp: dec_sending_ref_def Let_def n_def upd_slot_def)
  qed
  ultimately show ?thesis by auto
qed

section \<open>Packages from the pipe\<close>

definition rq_node :: "request_send \<Rightarrow> write_buffer" where
  "rq_node q = \<lparr>wb_buffer = rq_buffer q, wb_ptr = 0, wb_sz = rq_sz q, wb_userobject = False, wb_object = sizeof_write_buffer,
     wb_udp_address = []\<rparr>"

lemma append_node_spec:
  assumes inv: "ss_inv (rq_buffer q # xs) cs ss" and i: "i < MAX_SOCKET" and live: "live (ss_slot ss i)" and q: "req_ok (ss_mem ss) q"
    and nl: "\<not> list_uncomplete (s_low (ss_slot ss i))" and hi: "high' = (high \<or> send_buffer_empty (ss_slot ss i))"
  shows "ss_inv xs cs (append_node i high' (rq_node q) ss)" "append_step i high (rq_bytes (ss_mem ss) q) ss (append_node i high' (rq_node q) ss)"
    "\<not> list_uncomplete (s_low (ss_slot (append_node i high' (rq_node q) ss) i))"
proof -
  let ?s = "ss_slot ss i" and ?ss' = "append_node i high' (rq_node q) ss"
  define s' where "s' = (upd_wb_list high' (\<lambda>ws. ws @ [rq_node q]) ?s)\<lparr>s_wb_size := s_wb_size ?s + int (wb_sz (rq_node q))\<rparr>"
  have ss': "ss_slot ?ss' = (ss_slot ss)(i := s')" "ss_pipe ?ss' = ss_pipe ss" "ss_mem ?ss' = ss_mem ss" "ss_brk ?ss' = ss_brk ss"
    by (simp_all add: append_node_def s'_def)
  have same: "s_dw_buffer s' = s_dw_buffer ?s" "s_dw_size s' = s_dw_size ?s" "s_dw_offset s' = s_dw_offset ?s" "dw_list s' = dw_list ?s"
    "s_type s' = s_type ?s" "s_id s' = s_id ?s" "s_protocol s' = s_protocol ?s" "s_sending s' = s_sending ?s" "s_fd s' = s_fd ?s"
    "s_high s' = (if high' then s_high ?s @ [rq_node q] else s_high ?s)" "s_low s' = (if high' then s_low ?s else s_low ?s @ [rq_node q])"
    "s_wb_size s' = s_wb_size ?s + int (rq_sz q)"
    by (simp_all add: s'_def upd_wb_list_def rq_node_def)
  have ok: "slot_inv cs (ss_pipe ss) (ss_mem ss) i ?s" by (rule ss_inv_slotD [OF inv i])
  then have so: "slot_ok (ss_mem ss) ?s" by (simp add: slot_inv_def)
  define q1 where "q1 = dw_list ?s @ s_high ?s @ (if high' then [] else s_low ?s)"
  define q2 where "q2 = (if high' then s_low ?s else [])"
  have qs: "wb_queue ?s = q1 @ q2" "wb_queue s' = q1 @ rq_node q # q2" by (simp_all add: wb_queue_def q1_def q2_def same)
  have node: "node_ok (ss_mem ss) (rq_node q)" "wb_ptr (rq_node q) = 0" using q by (auto simp: node_ok_def rq_node_def req_ok_def split: option.splits)
  have hd2: "\<forall>wb\<in>set q2. q1 = [] \<longrightarrow> wb_ptr wb = 0"
  proof (intro ballI impI)
    fix wb assume wb: "wb \<in> set q2" "q1 = []"
    then have "wb_queue ?s = s_low ?s" "wb \<in> set (s_low ?s)" by (simp_all add: qs q2_def split: if_splits)
    then show "wb_ptr wb = 0" using nl so by (cases "s_low ?s") (auto simp: list_uncomplete_def slot_ok_def)
  qed
  have "\<forall>wb\<in>set (tl (wb_queue s')). wb_ptr wb = 0"
    using so node(2) hd2 unfolding slot_ok_def qs by (cases q1) auto
  moreover have "\<forall>wb\<in>set (wb_queue s'). node_ok (ss_mem ss) wb" using so node(1) unfolding slot_ok_def qs by auto
  moreover have "(\<Sum>wb\<leftarrow>s_high s' @ s_low s'. int (wb_sz wb)) = (\<Sum>wb\<leftarrow>s_high ?s @ s_low ?s. int (wb_sz wb)) + int (rq_sz q)"
    by (simp add: same rq_node_def)
  ultimately have "slot_ok (ss_mem ss) s'" using so live unfolding slot_ok_def live_def by (simp add: same)
  then have "slot_inv cs (ss_pipe ss) (ss_mem ss) i s'" using ok unfolding slot_inv_def sending_ok_def by (simp add: same)
  then show "ss_inv xs cs ?ss'" by (intro ss_inv_slot [OF inv i ss']) (simp_all add: qs rq_node_def)
  have "package (ss_mem ss) (rq_node q) = rq_bytes (ss_mem ss) q" by (simp add: package_def rq_node_def rq_bytes_def)
  then have v: "view i ss = map (\<lambda>wb. (wb_ptr wb, package (ss_mem ss) wb)) q1 @ map (\<lambda>wb. (wb_ptr wb, package (ss_mem ss) wb)) q2"
    "view i ?ss' = map (\<lambda>wb. (wb_ptr wb, package (ss_mem ss) wb)) q1 @ (0, rq_bytes (ss_mem ss) q) # map (\<lambda>wb. (wb_ptr wb, package (ss_mem ss) wb)) q2"
    by (simp_all add: view_def ss' qs node(2))
  have "frame {i} {} ss ?ss'" unfolding append_node_def by (rule frame_upd_slot) simp
  moreover have "begun (map (\<lambda>wb. (wb_ptr wb, package (ss_mem ss) wb)) q2) = []" if "q1 = []"
    using hd2 that by (cases q2) (auto simp: begun_def)
  moreover have "high' \<and> length q2 = length (s_low ?s) \<and> (high \<or> q2 = []) \<or> \<not> high' \<and> q2 = [] \<and> \<not> high"
    using hi by (auto simp: q2_def send_buffer_empty_def)
  ultimately show "append_step i high (rq_bytes (ss_mem ss) q) ss ?ss'"
    unfolding append_step_def using v same by (intro conjI exI) (auto simp: ss')
  show "\<not> list_uncomplete (s_low (ss_slot ?ss' i))" using nl node(2) by (cases "s_low ?s") (auto simp: ss' same list_uncomplete_def)
qed

text \<open>The sockets that take packages.\<close>

definition accepts :: "socket \<Rightarrow> int \<Rightarrow> bool" where
  "accepts s sid \<longleftrightarrow> live s \<and> s_id s = sid \<and> \<not> s_closing s \<and>
     s_type s \<notin> {SOCKET_TYPE_HALFCLOSE_WRITE, SOCKET_TYPE_PACCEPT, SOCKET_TYPE_PLISTEN, SOCKET_TYPE_LISTEN}"

lemma append_step_same:
  assumes "append_step i high p ss ss1" "frame {i} {} ss1 ss2" "view i ss2 = view i ss1" "s_id (ss_slot ss2 i) = s_id (ss_slot ss1 i)"
    "s_fd (ss_slot ss2 i) = s_fd (ss_slot ss1 i)" "s_type (ss_slot ss2 i) = s_type (ss_slot ss1 i)" "s_low (ss_slot ss2 i) = s_low (ss_slot ss1 i)"
  shows "append_step i high p ss ss2"
  using assms frame_trans [of "{i}" "{}" ss ss1 ss2] unfolding append_step_def by simp

lemma udp_address_unknown: "s_protocol s = PROTOCOL_UNKNOWN \<Longrightarrow> udp_socket_address s a = None"
  by (cases a) (simp_all add: udp_socket_address_def PROTOCOL_UNKNOWN_def PROTOCOL_UDP_def PROTOCOL_UDPv6_def)

lemma send_warning_spec:
  assumes "ss_inv xs cs ss" "i < MAX_SOCKET"
  obtains ev r ss' where "send_warning i result ss = (ev, r, ss')" "ss_inv xs cs ss'" "write_event ev" "frame {i} {} ss ss'" "view i ss' = view i ss"
    "\<exists>w. ss_slot ss' i = (ss_slot ss i)\<lparr>s_warn_size := w\<rparr>"
proof -
  let ?f = "\<lambda>w :: int. if w = 0 then WARNING_SIZE * 2 else w * 2"
  have upd: "ss_inv xs cs (upd_slot i (s_warn_size_update ?f) ss)" "view i (upd_slot i (s_warn_size_update ?f) ss) = view i ss"
    "frame {i} {} ss (upd_slot i (s_warn_size_update ?f) ss)"
    using assms by (auto simp: same_queue_def view_def wb_queue_def intro: ss_inv_same frame_upd_slot)
  have "ss_slot (upd_slot i (s_warn_size_update ?f) ss) i = (ss_slot ss i)\<lparr>s_warn_size := ?f (s_warn_size (ss_slot ss i))\<rparr>" by simp
  then have upd': "\<exists>w. ss_slot (upd_slot i (s_warn_size_update ?f) ss) i = (ss_slot ss i)\<lparr>s_warn_size := w\<rparr>" by (rule exI)
  have same: "\<exists>w. ss_slot ss i = (ss_slot ss i)\<lparr>s_warn_size := w\<rparr>" by (rule exI [of _ "s_warn_size (ss_slot ss i)"]) simp
  have we: "write_event (Some SOCKET_WARNING)" "write_event None" by (simp_all add: write_event_def)
  show thesis
  proof (cases "s_wb_size (ss_slot ss i) \<ge> WARNING_SIZE \<and> s_wb_size (ss_slot ss i) \<ge> s_warn_size (ss_slot ss i)")
    case True
    then show thesis by (intro that [OF _ upd(1) we(1) upd(3,2) upd']) (simp add: send_warning_def Let_def)
  next
    case False
    then show thesis by (intro that [OF _ assms(1) we(2) frame_refl refl same]) (simp add: send_warning_def Let_def)
  qed
qed

lemma append_enable_warn:
  assumes inv: "ss_inv xs cs ss1" and i: "i < MAX_SOCKET" and app: "append_step i high p ss ss1" and nl: "\<not> list_uncomplete (s_low (ss_slot ss1 i))"
    and lock: "s_dw_lock (ss_slot ss1 i) = s_dw_lock (ss_slot ss i)"
    and r: "r = (if en then let (err, ss) = enable_write i True ss1 in
         if err then (Some SOCKET_ERR, report_error (ss_slot ss i) (D_text ''enable write failed''), ss) else send_warning i result ss
       else send_warning i result ss1)"
  shows "\<exists>ev m ss'. r = (ev, m, ss') \<and> ss_inv xs cs ss' \<and> append_step i high p ss ss' \<and> write_event ev \<and>
    \<not> list_uncomplete (s_low (ss_slot ss' i)) \<and> s_dw_lock (ss_slot ss' i) = s_dw_lock (ss_slot ss i)"
proof -
  obtain err ss2 where w: "enable_write i True ss1 = (err, ss2)" "ss_inv xs cs ss2" "frame {i} {} ss1 ss2" "view i ss2 = view i ss1"
    "ss_slot ss2 i = (ss_slot ss1 i)\<lparr>s_writing := True\<rparr>" using enable_frame(1) [OF inv i] by metis
  have warn: "\<exists>ev m ss'. send_warning i result ss3 = (ev, m, ss') \<and> ss_inv xs cs ss' \<and> append_step i high p ss ss' \<and> write_event ev \<and>
      \<not> list_uncomplete (s_low (ss_slot ss' i)) \<and> s_dw_lock (ss_slot ss' i) = s_dw_lock (ss_slot ss i)"
    if "ss_inv xs cs ss3" "append_step i high p ss ss3" "\<not> list_uncomplete (s_low (ss_slot ss3 i))" "s_dw_lock (ss_slot ss3 i) = s_dw_lock (ss_slot ss i)" for ss3
    by (rule send_warning_spec [OF that(1) i, of result]) (use that in \<open>auto intro: append_step_same\<close>)
  have app2: "append_step i high p ss ss2" using w by (intro append_step_same [OF app w(3,4)]) simp_all
  show ?thesis
  proof (cases en)
    case True
    then show ?thesis using w app2 nl lock warn [OF w(2) app2] unfolding r by (cases err) (auto simp: write_event_def)
  next
    case False
    then show ?thesis using warn [OF inv app nl lock] unfolding r by simp
  qed
qed

lemma send_socket_spec:
  assumes inv: "ss_inv (rq_buffer q # xs) cs ss" and q: "req_ok (ss_mem ss) q" and i: "i = HASH_ID (rq_id q)"
    and nl: "\<not> list_uncomplete (s_low (ss_slot ss i))"
  shows "\<exists>ev r ss'. send_socket q high None result ss = Some (ev, r, ss') \<and> ss_inv xs cs ss' \<and> write_event ev \<and>
    \<not> list_uncomplete (s_low (ss_slot ss' i)) \<and> s_dw_lock (ss_slot ss' i) = s_dw_lock (ss_slot ss i) \<and>
    (if accepts (ss_slot ss i) (rq_id q) then append_step i high (rq_bytes (ss_mem ss) q) ss ss' else frame {} {} ss ss')"
proof -
  let ?s = "ss_slot ss i"
  have i': "i < MAX_SOCKET" by (simp add: i)
  have obj: "send_object_init (rq_buffer q) (rq_sz q) = Some (rq_buffer q, rq_sz q, False)" using q by (simp add: send_object_init_def req_ok_def)
  have node: "new_write_buffer q n = Some (rq_node q)" for n using q by (simp add: new_write_buffer_eq rq_node_def req_ok_def)
  obtain ss1 where free: "mem_free (rq_buffer q) ss = Some ss1" "ss_inv xs cs ss1" "ss_slot ss1 = ss_slot ss" "frame {} {} ss ss1"
    using free_frame [OF inv] by auto
  have so: "slot_ok (ss_mem ss) ?s" using ss_inv_slotD [OF inv i'] by (simp add: slot_inv_def)
  show ?thesis
  proof (cases "accepts ?s (rq_id q)")
    case False
    have "send_socket q high None result ss = Some (None, result, ss1)"
    proof (cases "s_type ?s = SOCKET_TYPE_RESERVE")
      case True
      then have "s_protocol ?s = PROTOCOL_UNKNOWN" "send_buffer_empty ?s"
        using so by (auto simp: slot_ok_def live_def wb_queue_def send_buffer_empty_def)
      then show ?thesis using True free(1) obj udp_address_unknown [of ?s]
        by (simp add: send_socket_def Let_def i [symmetric] PROTOCOL_UNKNOWN_def PROTOCOL_TCP_def)
    next
      case F: False
      then show ?thesis using False free(1) obj
        by (auto simp: send_socket_def Let_def i [symmetric] accepts_def live_def)
    qed
    then show ?thesis using False free nl by (simp add: write_event_def)
  next
    case True
    then have live: "live ?s" by (simp add: accepts_def)
    then have tcp: "s_protocol ?s = PROTOCOL_TCP" using so by (simp add: slot_ok_def)
    define high' where "high' = (high \<or> send_buffer_empty ?s)"
    let ?ss1 = "append_node i high' (rq_node q) ss"
    note app = append_node_spec [OF inv i' live q nl high'_def]
    have lock: "s_dw_lock (ss_slot ?ss1 i) = s_dw_lock ?s" by (simp add: append_node_def upd_wb_list_def)
    let ?r = "if send_buffer_empty ?s then let (err, ss) = enable_write i True ?ss1 in
         if err then (Some SOCKET_ERR, report_error (ss_slot ss i) (D_text ''enable write failed''), ss) else send_warning i result ss
       else send_warning i result ?ss1"
    have "send_socket q high None result ss = Some ?r"
      using True tcp obj node
      by (auto simp: send_socket_def Let_def i [symmetric] accepts_def live_def high'_def append_sendbuffer_def append_sendbuffer_low_def
          split: prod.splits)
    then show ?thesis using append_enable_warn [OF app(1) i' app(2,3) lock refl, of "send_buffer_empty ?s" result] True by auto
  qed
qed

section \<open>Creating sockets\<close>

text \<open>A slot that owns nothing may be given any type.\<close>

lemma slot_inv_empty:
  assumes "wb_queue s = []" "HASH_ID (s_id s) = i" "s_protocol s = PROTOCOL_TCP" "s_sending s = push_bit 16 (ID_TAG16 (s_id s))"
    "s_wb_size s = 0" "pending_count cs p (s_id s) = 0" "s_type s \<noteq> SOCKET_TYPE_RESERVE" "\<forall>sid\<in>set (pipe_creates p). HASH_ID sid \<noteq> i"
  shows "slot_inv cs p m i s"
  using assms by (auto simp: slot_inv_def slot_ok_def sending_ok_def wb_queue_def dw_list_def split: option.splits)

lemma init_socket_sel [simp]:
  "s_id (init_socket sid fd pr op s) = sid" "s_protocol (init_socket sid fd pr op s) = pr" "s_wb_size (init_socket sid fd pr op s) = 0"
  "s_sending (init_socket sid fd pr op s) = push_bit 16 (ID_TAG16 sid)" "s_dw_buffer (init_socket sid fd pr op s) = None"
  "s_high (init_socket sid fd pr op s) = s_high s" "s_low (init_socket sid fd pr op s) = s_low s" "s_type (init_socket sid fd pr op s) = s_type s"
  "s_dw_lock (init_socket sid fd pr op s) = s_dw_lock s" "s_fd (init_socket sid fd pr op s) = fd" "s_closing (init_socket sid fd pr op s) = False"
  by (simp_all add: init_socket_def)

lemma sp_add_cases:
  obtains err ss' where "sp_add fd i ss = (err, ss')" "core ss' = core ss" "ss_log ss' = ss_log ss @ [K_add fd i]" "ss_ev ss' = ss_ev ss"
    "ss_event_index ss' = ss_event_index ss"
proof -
  obtain a ss1 where na: "next_answer ss = (a, ss1)" by fastforce
  show thesis
    by (rule that [of "a_ret a = -1" "klog (K_add fd i) ss1"])
      (use next_answer_keeps [OF na] na in \<open>simp_all add: sp_add_def core_def os_simps\<close>)
qed

text \<open>What \<open>new_fd\<close> leaves behind: a slot that is ready for its type, or an invalid one.\<close>

definition new_fd_post :: "nat list \<Rightarrow> int list \<Rightarrow> nat \<Rightarrow> int \<Rightarrow> nat option \<Rightarrow> socket_server \<Rightarrow> socket_server \<Rightarrow> bool" where
  "new_fd_post xs cs i sid r ss ss' \<longleftrightarrow> frame {i} {} ss ss' \<and> s_low (ss_slot ss' i) = [] \<and>
     s_dw_lock (ss_slot ss' i) = s_dw_lock (ss_slot ss i) \<and> s_id (ss_slot ss' i) = sid \<and>
     (case r of
        None \<Rightarrow> ss_inv xs cs ss' \<and> s_type (ss_slot ss' i) = SOCKET_TYPE_INVALID
      | Some j \<Rightarrow> j = i \<and> (\<forall>t. t \<noteq> SOCKET_TYPE_RESERVE \<longrightarrow> ss_inv xs cs (set_type i t ss')))"

lemma new_fd_spec:
  assumes inv: "ss_inv xs cs ss" and i: "i = HASH_ID sid" and res: "s_type (ss_slot ss i) = SOCKET_TYPE_RESERVE" "s_id (ss_slot ss i) = sid"
    and nc: "sid \<notin> set (pipe_creates (ss_pipe ss))"
  shows "\<exists>r ss'. new_fd sid fd PROTOCOL_TCP opaque reading ss = Some (r, ss') \<and> new_fd_post xs cs i sid r ss ss'"
proof -
  let ?s = "ss_slot ss i"
  have i': "i < MAX_SOCKET" by (simp add: i)
  have ok: "slot_inv cs (ss_pipe ss) (ss_mem ss) i ?s" by (rule ss_inv_slotD [OF inv i'])
  then have emp: "wb_queue ?s = []" "s_high ?s = []" "s_low ?s = []" "s_dw_buffer ?s = None"
    using res(1) by (auto simp: slot_inv_def slot_ok_def live_def wb_queue_def dw_list_def split: option.splits)
  have pend: "pending_count cs (ss_pipe ss) sid = 0" using ok res by (simp add: slot_inv_def)
  have none: "\<forall>sid'\<in>set (pipe_creates (ss_pipe ss)). HASH_ID sid' \<noteq> i" using ok nc res unfolding slot_inv_def by auto
  have mk: "ss_inv xs cs ss'" if "ss_slot ss' = (ss_slot ss)(i := s')" "ss_pipe ss' = ss_pipe ss" "ss_mem ss' = ss_mem ss" "ss_brk ss' = ss_brk ss"
    "wb_queue s' = []" "slot_inv cs (ss_pipe ss) (ss_mem ss) i s'" for ss' s'
    using ss_inv_slot [OF inv i' that(1-4) _ that(6), of xs] emp(1) that(5) by simp
  have inval: "slot_inv cs (ss_pipe ss) (ss_mem ss) i (?s\<lparr>s_type := SOCKET_TYPE_INVALID\<rparr>)" "wb_queue (?s\<lparr>s_type := SOCKET_TYPE_INVALID\<rparr>) = []"
    using ok res none emp by (auto simp: slot_inv_def slot_ok_def sending_ok_def live_def wb_queue_def PROTOCOL_UNKNOWN_def PROTOCOL_TCP_def)
  define s1 where "s1 = init_socket sid fd PROTOCOL_TCP opaque ?s"
  have init: "slot_inv cs (ss_pipe ss) (ss_mem ss) i (s1\<lparr>s_reading := b, s_type := t\<rparr>)" "wb_queue (s1\<lparr>s_reading := b, s_type := t\<rparr>) = []"
    if "t \<noteq> SOCKET_TYPE_RESERVE" for t b
    using that emp pend none i by (auto simp: s1_def wb_queue_def dw_list_def intro!: slot_inv_empty)
  obtain err ss1 where a: "sp_add fd i ss = (err, ss1)" "core ss1 = core ss" "ss_log ss1 = ss_log ss @ [K_add fd i]" "ss_ev ss1 = ss_ev ss"
    "ss_event_index ss1 = ss_event_index ss" by (rule sp_add_cases)
  then have c1: "ss_slot ss1 = ss_slot ss" "ss_pipe ss1 = ss_pipe ss" "ss_mem ss1 = ss_mem ss" "ss_brk ss1 = ss_brk ss" by (simp_all add: core_eq_iff)
  show ?thesis
  proof (cases err)
    case True
    let ?e = "set_type i SOCKET_TYPE_INVALID ss1"
    have "ss_inv xs cs ?e" using inval c1 by (intro mk) (simp_all add: set_type_def)
    moreover have "frame {i} {} ss ?e" using a c1 by (auto simp: frame_def set_type_def view_def)
    ultimately show ?thesis using True a(1) res emp c1 i
      by (auto simp: new_fd_def Let_def new_fd_post_def set_type_def)
  next
    case False
    let ?u = "upd_slot i (init_socket sid fd PROTOCOL_TCP opaque) ss1"
    have c2: "ss_slot ?u = (ss_slot ss)(i := s1)" using c1 by (simp add: s1_def)
    obtain e2 ss2 where r: "enable_read i reading ?u = (e2, ss2)" and core2: "ss_slot ss2 = (ss_slot ss)(i := s1\<lparr>s_reading := reading\<rparr>)"
      "ss_pipe ss2 = ss_pipe ss" "ss_mem ss2 = ss_mem ss" "ss_brk ss2 = ss_brk ss" and fr: "frame {i} {} ss ss2"
    proof (cases "s_reading s1 = reading")
      case True
      then have "enable_read i reading ?u = (False, ?u)" using c1 by (simp add: enable_read_def Let_def s1_def)
      moreover have "frame {i} {} ss ?u" using a c1 by (auto simp: frame_def view_def)
      moreover have "s1\<lparr>s_reading := reading\<rparr> = s1" unfolding True [symmetric] by simp
      ultimately show thesis using c1 by (intro that [of False ?u]) (simp_all add: s1_def)
    next
      case False
      obtain e ss3 where "sp_enable (s_fd s1) reading (s_writing s1) (upd_slot i (s_reading_update (\<lambda>_. reading)) ?u) = (e, ss3)"
        "core ss3 = core (upd_slot i (s_reading_update (\<lambda>_. reading)) ?u)" "ss_log ss3 = ss_log ?u @ [K_mod (s_fd s1) reading (s_writing s1)]"
        "ss_ev ss3 = ss_ev ?u" "ss_event_index ss3 = ss_event_index ?u"
        by (rule sp_enable_cases [of "s_fd s1" reading "s_writing s1" "upd_slot i (s_reading_update (\<lambda>_. reading)) ?u"]) simp
      then show thesis using False a c1 c2
        by (intro that [of e ss3]) (auto simp: enable_read_def Let_def core_eq_iff s1_def frame_def view_def)
    qed
    have ty: "ss_inv xs cs (set_type i t ss2)" if "t \<noteq> SOCKET_TYPE_RESERVE" for t
      using init [OF that, of reading] core2 by (intro mk) (simp_all add: set_type_def)
    have "frame {i} {} ss (set_type i SOCKET_TYPE_INVALID ss2)"
      using fr by (rule frame_trans) (simp add: set_type_def frame_upd_slot)
    then show ?thesis using False a(1) res emp c1 i r ty [of SOCKET_TYPE_INVALID] ty fr core2
      by (auto simp: new_fd_def Let_def new_fd_post_def set_type_def check_wb_list_def s1_def)
  qed
qed

section \<open>Commands and events\<close>

text \<open>
  \<open>SOCKET_CLOSE\<close> is raised for a socket that was neither closed nor closed for reading before, and is one of these afterwards.
\<close>

definition closed_type :: "socket_type \<Rightarrow> bool" where
  "closed_type t \<longleftrightarrow> t = SOCKET_TYPE_INVALID \<or> t = SOCKET_TYPE_HALFCLOSE_READ"

definition close_ok :: "nat \<Rightarrow> socket_server \<Rightarrow> socket_event option \<Rightarrow> socket_message \<Rightarrow> socket_server \<Rightarrow> bool" where
  "close_ok i ss ev m ss' \<longleftrightarrow> (ev = Some SOCKET_CLOSE \<longrightarrow> sm_id m = s_id (ss_slot ss i) \<and>
     s_type (ss_slot ss i) \<noteq> SOCKET_TYPE_RESERVE \<and> \<not> closed_type (s_type (ss_slot ss i)) \<and> closed_type (s_type (ss_slot ss' i)))"

definition cmd_post :: "nat \<Rightarrow> socket_server \<Rightarrow> reply option \<Rightarrow> bool" where
  "cmd_post i ss r \<longleftrightarrow> (\<exists>ev m ss'. r = Some (ev, m, ss') \<and> ss_inv [] [] ss' \<and> frame {i} (wfd (ss_slot ss i)) ss ss' \<and>
     \<not> list_uncomplete (s_low (ss_slot ss' i)) \<and> s_dw_lock (ss_slot ss' i) = s_dw_lock (ss_slot ss i) \<and>
     (if s_type (ss_slot ss i) = SOCKET_TYPE_RESERVE
      then s_id (ss_slot ss' i) = s_id (ss_slot ss i) else tcp_step i ss ss' \<and> s_type (ss_slot ss' i) \<noteq> SOCKET_TYPE_RESERVE) \<and>
     close_ok i ss ev m ss')"

lemma cmd_postI:
  assumes "r = Some (ev, m, ss')" "op_post [] [] i ss ss'" "close_ok i ss ev m ss'"
    "s_type (ss_slot ss i) \<noteq> SOCKET_TYPE_RESERVE \<Longrightarrow> s_type (ss_slot ss' i) \<noteq> SOCKET_TYPE_RESERVE"
  shows "cmd_post i ss r"
proof -
  have "frame {i} (wfd (ss_slot ss i)) ss ss'" "s_id (ss_slot ss' i) = s_id (ss_slot ss i)" using assms(2) by (simp_all add: op_post_def tcp_step_defs)
  then show ?thesis using assms unfolding cmd_post_def op_post_def by simp
qed

lemma close_ok_other: "ev \<noteq> Some SOCKET_CLOSE \<Longrightarrow> close_ok i ss ev m ss'"
  by (simp add: close_ok_def)

lemma cmd_post_ev:
  assumes "r = (ev, m, ss')" "op_post [] [] i ss ss'" "ev \<noteq> Some SOCKET_CLOSE"
    "s_type (ss_slot ss i) \<noteq> SOCKET_TYPE_RESERVE \<Longrightarrow> s_type (ss_slot ss' i) \<noteq> SOCKET_TYPE_RESERVE"
  shows "cmd_post i ss (Some r)"
  using assms by (intro cmd_postI [of _ ev m ss']) (auto simp: close_ok_other)

lemma trigger_write_post:
  assumes "ss_inv [] [] ss" "\<not> list_uncomplete (s_low (slot_of sid ss))"
  shows "cmd_post (HASH_ID sid) ss (Some (trigger_write sid result ss))"
proof (cases "socket_invalid (slot_of sid ss) sid")
  case True
  then show ?thesis using assms by (intro cmd_postI) (auto simp: trigger_write_def op_post_refl close_ok_other)
next
  case False
  obtain err ss' where "enable_write (HASH_ID sid) True ss = (err, ss')" "op_post [] [] (HASH_ID sid) ss ss'"
    "ss_slot ss' (HASH_ID sid) = (slot_of sid ss)\<lparr>s_writing := True\<rparr>"
    using enable_post(1) [OF assms(1) _ assms(2), of True] by auto
  with False show ?thesis by (cases err) (auto simp: trigger_write_def close_ok_other intro!: cmd_postI)
qed

lemma pause_socket_post:
  assumes "ss_inv [] [] ss" "\<not> list_uncomplete (s_low (slot_of sid ss))"
  shows "cmd_post (HASH_ID sid) ss (Some (pause_socket sid result ss))"
proof (cases "socket_invalid (slot_of sid ss) sid")
  case True
  then show ?thesis using assms by (intro cmd_postI) (auto simp: pause_socket_def op_post_refl close_ok_other)
next
  case False
  obtain err ss' where "enable_read (HASH_ID sid) False ss = (err, ss')" "op_post [] [] (HASH_ID sid) ss ss'"
    "ss_slot ss' (HASH_ID sid) = (slot_of sid ss)\<lparr>s_reading := False\<rparr>"
    using enable_post(2) [OF assms(1) _ assms(2), of False] by auto
  with False show ?thesis by (cases err) (auto simp: pause_socket_def close_ok_other intro!: cmd_postI)
qed

text \<open>Changing the type of a live socket to another one in which it may still be read.\<close>

lemma retype_post:
  assumes "ss_inv [] [] ss" "i < MAX_SOCKET" "live (ss_slot ss i)" "live (f (ss_slot ss i))" "same_queue (ss_slot ss i) (f (ss_slot ss i))"
    "s_fd (f (ss_slot ss i)) = s_fd (ss_slot ss i)" "s_dw_lock (f (ss_slot ss i)) = s_dw_lock (ss_slot ss i)"
    "\<not> list_uncomplete (s_low (ss_slot ss i))" "s_type (ss_slot ss i) \<noteq> SOCKET_TYPE_HALFCLOSE_READ \<or> s_type (f (ss_slot ss i)) = SOCKET_TYPE_HALFCLOSE_READ"
  shows "op_post [] [] i ss (upd_slot i f ss)"
proof -
  have "view i (upd_slot i f ss) = view i ss" using assms(5) by (simp add: view_def same_queue_wb_queue)
  then have "tcp_step i ss (upd_slot i f ss)" using assms by (intro tcp_stepI frame_upd_slot) (auto simp: same_queue_def live_def)
  with assms show ?thesis by (auto simp: op_post_def same_queue_def intro: ss_inv_same)
qed

lemma resume_socket_post:
  assumes inv: "ss_inv [] [] ss" and nl: "\<not> list_uncomplete (s_low (slot_of sid ss))"
  shows "cmd_post (HASH_ID sid) ss (Some (resume_socket sid opaque ss))"
proof (cases "socket_invalid (slot_of sid ss) sid \<or> halfclose_read (slot_of sid ss)")
  case True
  then have "\<exists>m. resume_socket sid opaque ss = (Some SOCKET_ERR, m, ss)" by (auto simp: resume_socket_def Let_def)
  then obtain m where eq: "resume_socket sid opaque ss = (Some SOCKET_ERR, m, ss)" ..
  show ?thesis by (rule cmd_post_ev [OF eq op_post_refl [OF assms]]) simp_all
next
  case False
  let ?i = "HASH_ID sid" and ?s = "slot_of sid ss"
  let ?f = "\<lambda>s :: socket. s\<lparr>s_type := if s_type s = SOCKET_TYPE_PACCEPT then SOCKET_TYPE_CONNECTED else SOCKET_TYPE_LISTEN, s_opaque := opaque\<rparr>"
  let ?g = "s_opaque_update (\<lambda>_. opaque)"
  obtain err ss1 where e: "enable_read ?i True ss = (err, ss1)" "op_post [] [] ?i ss ss1" "ss_slot ss1 ?i = ?s\<lparr>s_reading := True\<rparr>"
    using enable_post(2) [OF inv _ nl, of True] by auto
  have p1: "ss_inv [] [] ss1" "\<not> list_uncomplete (s_low (ss_slot ss1 ?i))" using e(2) by (auto simp: op_post_def)
  define m0 where "m0 = \<lparr>sm_id = sid, sm_opaque = opaque, sm_ud = 0, sm_data = D_null\<rparr>"
  have eq: "resume_socket sid opaque ss = (if err then (Some SOCKET_ERR, m0\<lparr>sm_data := D_text ''enable read failed''\<rparr>, ss1)
      else if s_type ?s = SOCKET_TYPE_PACCEPT \<or> s_type ?s = SOCKET_TYPE_PLISTEN then (Some SOCKET_OPEN, m0\<lparr>sm_data := D_text ''start''\<rparr>, upd_slot ?i ?f ss1)
      else if s_type ?s = SOCKET_TYPE_CONNECTED then (Some SOCKET_OPEN, m0\<lparr>sm_data := D_text ''transfer''\<rparr>, upd_slot ?i ?g ss1)
      else (None, m0, ss1))"
    using False e(1) by (simp add: resume_socket_def Let_def m0_def)
  consider (stay) "err \<or> s_type ?s \<notin> {SOCKET_TYPE_PACCEPT, SOCKET_TYPE_PLISTEN, SOCKET_TYPE_CONNECTED}"
    | (start) "\<not> err" "s_type ?s = SOCKET_TYPE_PACCEPT \<or> s_type ?s = SOCKET_TYPE_PLISTEN"
    | (transfer) "\<not> err" "s_type ?s = SOCKET_TYPE_CONNECTED" by blast
  then show ?thesis
  proof cases
    case stay
    then have "\<exists>ev m. resume_socket sid opaque ss = (ev, m, ss1) \<and> ev \<noteq> Some SOCKET_CLOSE" by (auto simp: eq)
    then obtain ev m where s: "resume_socket sid opaque ss = (ev, m, ss1)" "ev \<noteq> Some SOCKET_CLOSE" by blast
    show ?thesis by (rule cmd_post_ev [OF s(1) e(2) s(2)]) (simp add: e(3))
  next
    case start
    have "op_post [] [] ?i ss1 (upd_slot ?i ?f ss1)"
      using start(2) p1 e(3) by (intro retype_post) (auto simp: live_def same_queue_def)
    then have post: "op_post [] [] ?i ss (upd_slot ?i ?f ss1)" using e(2) op_post_trans by blast
    show ?thesis unfolding eq using start by (simp add: cmd_post_ev [OF refl post])
  next
    case transfer
    have "op_post [] [] ?i ss1 (upd_slot ?i ?g ss1)" using p1 e(3) by (intro same_post) (auto simp: same_queue_def)
    then have post: "op_post [] [] ?i ss (upd_slot ?i ?g ss1)" using e(2) op_post_trans by blast
    show ?thesis unfolding eq using transfer e(3) by (simp add: cmd_post_ev [OF refl post])
  qed
qed

lemma klog_post:
  assumes "ss_inv xs cs ss" "\<not> list_uncomplete (s_low (ss_slot ss i))" "\<And>fd bs. c \<noteq> K_write fd bs"
  shows "op_post xs cs i ss (klog c ss)"
proof -
  have c: "core (klog c ss) = core ss" by (simp add: core_def os_simps)
  have "wire fd [c] = []" for fd using assms(3) by (cases c) auto
  then have "tcp_step i ss (klog c ss)" using view_core [OF c] by (intro tcp_stepI) (auto simp: frame_def os_simps)
  then show ?thesis using assms(1,2) ss_inv_core [OF c] by (simp add: op_post_def os_simps)
qed

lemma setopt_socket_post:
  assumes "ss_inv [] [] ss" "\<not> list_uncomplete (s_low (slot_of sid ss))"
  shows "cmd_post (HASH_ID sid) ss (Some (None, result, setopt_socket sid what v ss))"
proof (rule cmd_post_ev [OF refl])
  show "op_post [] [] (HASH_ID sid) ss (setopt_socket sid what v ss)"
    using klog_post [OF assms, of "K_setsockopt (s_fd (slot_of sid ss)) what v"] op_post_refl [OF assms]
    by (simp add: setopt_socket_def Let_def)
qed (simp_all add: setopt_socket_def Let_def os_simps)

lemma close_read_post:
  assumes "ss_inv [] [] ss" "i < MAX_SOCKET" "live (ss_slot ss i)" "\<not> list_uncomplete (s_low (ss_slot ss i))"
  shows "\<exists>ss'. close_read i ss = (message_of (ss_slot ss i), ss') \<and> op_post [] [] i ss ss' \<and>
    s_type (ss_slot ss' i) = SOCKET_TYPE_HALFCLOSE_READ"
  using close_read_spec [OF assms(1-3)] assms(4) by (auto simp: op_post_def)

lemma close_socket_post:
  assumes inv: "ss_inv [] [] ss" and nl: "\<not> list_uncomplete (s_low (slot_of sid ss))" and lock: "\<not> s_dw_lock (slot_of sid ss)"
    and nr: "\<not> (s_type (slot_of sid ss) = SOCKET_TYPE_RESERVE \<and> s_id (slot_of sid ss) = sid)"
  shows "cmd_post (HASH_ID sid) ss (close_socket sid shutdown result ss)"
proof (cases "socket_invalid (slot_of sid ss) sid")
  case True
  then show ?thesis using assms by (intro cmd_postI) (auto simp: close_socket_def Let_def op_post_refl close_ok_other)
next
  case False
  let ?i = "HASH_ID sid" and ?s = "slot_of sid ss"
  have live: "live ?s" using False nr by (auto simp: live_def socket_invalid_def)
  show ?thesis
  proof (cases "shutdown \<or> nomore_sending_data ?s")
    case True
    obtain ss' where f: "force_close ?i 0 ss = Some (message_of ?s, ss')" "op_post [] [] ?i ss ss'" "s_type (ss_slot ss' ?i) = SOCKET_TYPE_INVALID"
      using force_close_post [OF inv _ live] lock by auto
    have eq: "close_socket sid shutdown result ss = Some (if halfclose_read ?s then None else Some SOCKET_CLOSE, message_of ?s, ss')"
      using True False f(1) by (simp add: close_socket_def Let_def)
    show ?thesis using live f(3)
      by (intro cmd_postI [OF eq f(2)]) (auto simp: close_ok_def closed_type_def halfclose_read_def live_def message_of_def)
  next
    case F: False
    let ?u = "upd_slot ?i (s_closing_update (\<lambda>_. True)) ss"
    have c: "op_post [] [] ?i ss ?u" using inv nl by (intro same_post) (auto simp: same_queue_def)
    then have p: "ss_inv [] [] ?u" "\<not> list_uncomplete (s_low (ss_slot ?u ?i))" by (auto simp: op_post_def)
    have "live (ss_slot ?u ?i)" using live by (simp add: live_def)
    then obtain ss' where r: "close_read ?i ?u = (message_of (ss_slot ?u ?i), ss')" "op_post [] [] ?i ?u ss'" "s_type (ss_slot ss' ?i) = SOCKET_TYPE_HALFCLOSE_READ"
      using close_read_post [OF p(1) HASH_ID_bound _ p(2)] by auto
    have "op_post [] [] ?i ss ss'" using c r(2) op_post_trans by blast
    show ?thesis
    proof (cases "halfclose_read ?s")
      case True
      then have "close_socket sid shutdown result ss = Some (None, result, ?u)" using F False by (simp add: close_socket_def Let_def)
      then show ?thesis using cmd_post_ev [OF refl c] by simp
    next
      case nh: False
      then have eq: "close_socket sid shutdown result ss = Some (Some SOCKET_CLOSE, message_of (ss_slot ?u ?i), ss')"
        using F False r(1) by (simp add: close_socket_def Let_def)
      show ?thesis using nh live r(3)
        by (intro cmd_postI [OF eq \<open>op_post [] [] ?i ss ss'\<close>]) (auto simp: close_ok_def closed_type_def halfclose_read_def live_def message_of_def)
    qed
  qed
qed

text \<open>States that differ in what was asked of the operating system, apart from writing.\<close>

definition os_eq :: "socket_server \<Rightarrow> socket_server \<Rightarrow> bool" where
  "os_eq ss ss' \<longleftrightarrow> core ss' = core ss \<and> (\<forall>fd. out fd ss' = out fd ss) \<and> ss_ev ss' = ss_ev ss \<and> ss_event_index ss' = ss_event_index ss
     \<and> ss_alloc_id ss' = ss_alloc_id ss"

lemma os_eq_refl [simp]: "os_eq ss ss"
  by (simp add: os_eq_def)

lemma os_eq_trans: "os_eq ss ss' \<Longrightarrow> os_eq ss' ss'' \<Longrightarrow> os_eq ss ss''"
  by (simp add: os_eq_def)

lemma os_eq_next: "next_answer ss = (a, ss') \<Longrightarrow> os_eq ss ss'"
  by (drule next_answer_keeps) (simp add: os_eq_def core_def)

lemma os_eq_klog: "(\<And>fd bs. c \<noteq> K_write fd bs) \<Longrightarrow> os_eq ss (klog c ss)"
  by (cases c) (auto simp: os_eq_def core_def os_simps)

lemma os_eq_ntop: "inet_ntop ss = (r, ss') \<Longrightarrow> os_eq ss ss'"
  by (auto simp: inet_ntop_def Let_def intro: os_eq_next split: prod.splits)

lemma os_eq_getname: "getname u ss = (r, ss') \<Longrightarrow> os_eq ss ss'"
  by (auto simp: getname_def Let_def intro: os_eq_ntop split: prod.splits)

lemma os_eq_upd: "os_eq ss ss' \<Longrightarrow> os_eq (upd_slot i f ss) (upd_slot i f ss')"
  by (auto simp: os_eq_def core_def)

lemma os_eq_inv: "os_eq ss ss' \<Longrightarrow> ss_inv xs cs ss' = ss_inv xs cs ss"
  using ss_inv_core [of ss' ss] by (simp add: os_eq_def)

lemma os_eq_slot: "os_eq ss ss' \<Longrightarrow> ss_slot ss' = ss_slot ss \<and> ss_pipe ss' = ss_pipe ss \<and> ss_mem ss' = ss_mem ss \<and> ss_brk ss' = ss_brk ss"
  by (simp add: os_eq_def core_eq_iff)

lemma os_eq_frame: "os_eq ss ss' \<Longrightarrow> frame I fds ss ss'"
  using view_core [of ss' ss] by (simp add: os_eq_def frame_def core_eq_iff)

lemma os_eq_post: "os_eq ss ss' \<Longrightarrow> ss_inv xs cs ss \<Longrightarrow> \<not> list_uncomplete (s_low (ss_slot ss i)) \<Longrightarrow> op_post xs cs i ss ss'"
  using os_eq_inv [of ss ss' xs cs] os_eq_slot [of ss ss'] os_eq_frame [of ss ss' "{i}" "{}"] view_core [of ss' ss i]
  by (auto simp: op_post_def os_eq_def intro!: tcp_stepI)

lemma try_connect_keeps: "try_connect n err ss = (r, ss') \<Longrightarrow> os_eq ss ss'"
proof (induction n arbitrary: err ss)
  case (Suc n)
  obtain a ss1 where na: "next_answer ss = (a, ss1)" by fastforce
  define ss2 where "ss2 = klog (K_nonblocking (a_ret a)) (klog (K_setsockopt (a_ret a) 9 1) ss1)"
  obtain c ss3 where nc: "next_answer ss2 = (c, ss3)" by fastforce
  have e1: "os_eq ss ss1" by (rule os_eq_next [OF na])
  have "os_eq ss1 ss2" unfolding ss2_def by (auto intro: os_eq_trans os_eq_klog)
  then have e3: "os_eq ss ss3" using e1 os_eq_next [OF nc] os_eq_trans by blast
  have e4: "os_eq ss (klog (K_close (a_ret a)) ss3)" using e3 by (rule os_eq_trans) (simp add: os_eq_klog)
  from Suc.prems show ?case
    using Suc.IH [of _ ss1] Suc.IH [of _ "klog (K_close (a_ret a)) ss3"] e1 e3 e4
    by (auto simp: na Let_def nc ss2_def [symmetric] split: if_splits intro: os_eq_trans)
qed simp

lemma next_answer_upd: "next_answer (upd_slot i f ss) = (fst (next_answer ss), upd_slot i f (snd (next_answer ss)))"
  by (auto simp: next_answer_def upd_slot_def split: list.splits)

lemma enable_write_set_type:
  assumes "enable_write i b ss = (e, ss')"
  shows "enable_write i b (set_type i t ss) = (e, set_type i t ss')"
proof -
  have comm: "upd_slot i (s_writing_update (\<lambda>_. b)) (upd_slot i (s_type_update (\<lambda>_. t)) ss) =
      upd_slot i (s_type_update (\<lambda>_. t)) (upd_slot i (s_writing_update (\<lambda>_. b)) ss)" for ss
  proof -
    have "s\<lparr>s_type := t, s_writing := b\<rparr> = s\<lparr>s_writing := b, s_type := t\<rparr>" for s :: socket by (cases s) simp
    then have "(\<lambda>s :: socket. s\<lparr>s_type := t, s_writing := b\<rparr>) = (\<lambda>s. s\<lparr>s_writing := b, s_type := t\<rparr>)" by (rule ext)
    then show ?thesis by (simp only: upd_slot_compose comp_def)
  qed
  show ?thesis
  proof (cases "s_writing (ss_slot ss i) = b")
    case True
    with assms show ?thesis by (simp add: enable_write_def set_type_def)
  next
    case False
    with assms show ?thesis
      by (simp add: enable_write_def Let_def set_type_def sp_enable_def next_answer_upd split_def comm) (auto simp: upd_slot_klog)
  qed
qed

section \<open>Creating sockets from the pipe\<close>

lemma unreserve_inv:
  assumes inv: "ss_inv xs cs ss" and i: "i = HASH_ID sid" and res: "s_type (ss_slot ss i) = SOCKET_TYPE_RESERVE" "s_id (ss_slot ss i) = sid"
    and nc: "sid \<notin> set (pipe_creates (ss_pipe ss))"
  shows "ss_inv xs cs (set_type i SOCKET_TYPE_INVALID ss)"
proof -
  have i': "i < MAX_SOCKET" by (simp add: i)
  have ok: "slot_inv cs (ss_pipe ss) (ss_mem ss) i (ss_slot ss i)" by (rule ss_inv_slotD [OF inv i'])
  have none: "\<forall>sid'\<in>set (pipe_creates (ss_pipe ss)). HASH_ID sid' \<noteq> i" using ok nc res unfolding slot_inv_def by auto
  have "slot_inv cs (ss_pipe ss) (ss_mem ss) i ((ss_slot ss i)\<lparr>s_type := SOCKET_TYPE_INVALID\<rparr>)"
    using ok res none by (auto simp: slot_inv_def slot_ok_def sending_ok_def live_def wb_queue_def PROTOCOL_UNKNOWN_def PROTOCOL_TCP_def)
  then show ?thesis by (intro ss_inv_slot [OF inv i']) (simp_all add: set_type_def wb_queue_def)
qed

text \<open>A command that creates a socket leaves it with a type other than reserved.\<close>

definition create_post :: "nat \<Rightarrow> int \<Rightarrow> socket_server \<Rightarrow> socket_server \<Rightarrow> bool" where
  "create_post i sid ss ss' \<longleftrightarrow> ss_inv [] [] ss' \<and> frame {i} {} ss ss' \<and> \<not> list_uncomplete (s_low (ss_slot ss' i)) \<and>
     s_dw_lock (ss_slot ss' i) = s_dw_lock (ss_slot ss i) \<and> s_id (ss_slot ss' i) = sid \<and> s_type (ss_slot ss' i) \<noteq> SOCKET_TYPE_RESERVE"

lemma create_os: "create_post i sid ss ss' \<Longrightarrow> os_eq ss' ss'' \<Longrightarrow> create_post i sid ss ss''"
  using os_eq_inv [of ss' ss''] os_eq_slot [of ss' ss''] os_eq_frame [of ss' ss'' "{i}" "{}"] frame_trans [of "{i}" "{}" ss ss' ss'']
  by (auto simp: create_post_def)

lemma os_create:
  assumes "os_eq ss ss'" "create_post i sid ss' ss''" shows "create_post i sid ss ss''"
  using assms os_eq_slot [of ss ss'] os_eq_frame [of ss ss' "{i}" "{}"] frame_trans [of "{i}" "{}" ss ss' ss'']
  by (auto simp: create_post_def)

lemma created:
  assumes "new_fd_post [] [] i sid (Some j) ss ss'" "t \<noteq> SOCKET_TYPE_RESERVE"
  shows "create_post i sid ss (set_type i t ss')"
proof -
  have "frame {i} {} ss (set_type i t ss')"
    using assms(1) frame_upd_slot [of i "{i}" "{}" ss'] frame_trans unfolding new_fd_post_def set_type_def by blast
  with assms show ?thesis by (auto simp: create_post_def new_fd_post_def set_type_def list_uncomplete_def)
qed

lemma not_created: "new_fd_post [] [] i sid None ss ss' \<Longrightarrow> create_post i sid ss ss'"
  by (auto simp: create_post_def new_fd_post_def list_uncomplete_def)

lemma create_invalid:
  assumes "create_post i sid ss ss'" "s_type (ss_slot ss' i) = SOCKET_TYPE_INVALID"
  shows "create_post i sid ss (set_type i SOCKET_TYPE_INVALID ss')"
proof -
  have "(ss_slot ss' i)\<lparr>s_type := SOCKET_TYPE_INVALID\<rparr> = ss_slot ss' i" unfolding assms(2) [symmetric] by simp
  then have "set_type i SOCKET_TYPE_INVALID ss' = ss'" by (simp add: set_type_def upd_slot_def)
  with assms(1) show ?thesis by simp
qed

definition reserved :: "int \<Rightarrow> socket_server \<Rightarrow> bool" where
  "reserved sid ss \<longleftrightarrow> ss_inv [] [] ss \<and> s_type (slot_of sid ss) = SOCKET_TYPE_RESERVE \<and> s_id (slot_of sid ss) = sid \<and>
     sid \<notin> set (pipe_creates (ss_pipe ss)) \<and> \<not> list_uncomplete (s_low (slot_of sid ss))"

lemma reserved_os: "reserved sid ss \<Longrightarrow> os_eq ss ss' \<Longrightarrow> reserved sid ss'"
  using os_eq_inv [of ss ss'] os_eq_slot [of ss ss'] by (simp add: reserved_def)

lemma reserved_new_fd:
  assumes "reserved sid ss"
  obtains r ss' where "new_fd sid fd PROTOCOL_TCP opaque reading ss = Some (r, ss')" "new_fd_post [] [] (HASH_ID sid) sid r ss ss'"
  using new_fd_spec [of "[]" "[]" ss "HASH_ID sid" sid] assms unfolding reserved_def by blast

lemma reserved_invalid:
  assumes "reserved sid ss"
  shows "create_post (HASH_ID sid) sid ss (set_type (HASH_ID sid) SOCKET_TYPE_INVALID ss)"
proof -
  have "ss_inv [] [] (set_type (HASH_ID sid) SOCKET_TYPE_INVALID ss)"
    using assms unreserve_inv [of "[]" "[]" ss "HASH_ID sid" sid] by (simp add: reserved_def)
  with assms show ?thesis by (simp add: create_post_def reserved_def set_type_def frame_upd_slot)
qed

definition create_reply :: "int \<Rightarrow> socket_server \<Rightarrow> reply option \<Rightarrow> bool" where
  "create_reply sid ss r \<longleftrightarrow> (\<exists>ev m ss'. r = Some (ev, m, ss') \<and> create_post (HASH_ID sid) sid ss ss' \<and> ev \<noteq> Some SOCKET_CLOSE)"

lemma bind_socket_post:
  assumes "reserved sid ss"
  shows "create_reply sid ss (bind_socket sid fd opaque ss)"
proof -
  obtain r ss1 where n: "new_fd sid fd PROTOCOL_TCP opaque True ss = Some (r, ss1)" "new_fd_post [] [] (HASH_ID sid) sid r ss ss1"
    by (rule reserved_new_fd [OF assms])
  show ?thesis
  proof (cases r)
    case None
    then show ?thesis using n(1) not_created [OF n(2) [unfolded None]] by (simp add: bind_socket_def create_reply_def)
  next
    case (Some j)
    then have j: "j = HASH_ID sid" using n(2) by (simp add: new_fd_post_def)
    have "create_post (HASH_ID sid) sid ss (set_type j SOCKET_TYPE_BIND ss1)"
      using created [of _ sid j ss ss1 SOCKET_TYPE_BIND] n(2) Some j by simp
    then have "create_post (HASH_ID sid) sid ss (klog (K_nonblocking fd) (set_type j SOCKET_TYPE_BIND ss1))"
      by (rule create_os) (simp add: os_eq_klog)
    then show ?thesis using n Some by (auto simp: bind_socket_def create_reply_def set_type_def upd_slot_klog)
  qed
qed

lemma listen_socket_post:
  assumes "reserved sid ss"
  shows "create_reply sid ss (listen_socket sid fd opaque ss)"
proof -
  let ?i = "HASH_ID sid"
  obtain r ss1 where n: "new_fd sid fd PROTOCOL_TCP opaque False ss = Some (r, ss1)" "new_fd_post [] [] ?i sid r ss ss1"
    by (rule reserved_new_fd [OF assms])
  show ?thesis
  proof (cases r)
    case None
    have "create_post ?i sid ss (klog (K_close fd) ss1)"
      by (rule create_os [OF not_created [OF n(2) [unfolded None]] os_eq_klog]) simp
    then have "create_post ?i sid ss (set_type ?i SOCKET_TYPE_INVALID (klog (K_close fd) ss1))"
      using n(2) None by (intro create_invalid) (auto simp: new_fd_post_def os_simps)
    then show ?thesis using n None by (auto simp: listen_socket_def create_reply_def)
  next
    case (Some j)
    then have j: "j = ?i" using n(2) by (simp add: new_fd_post_def)
    let ?t = "set_type j SOCKET_TYPE_PLISTEN ss1"
    have c: "create_post ?i sid ss ?t" using created [of _ sid j ss ss1 SOCKET_TYPE_PLISTEN] n(2) Some j by simp
    obtain a ss2 where na: "next_answer ?t = (a, ss2)" by fastforce
    obtain t ss3 where nt: "inet_ntop ss2 = (t, ss3)" by fastforce
    have "create_post ?i sid ss ss2" "create_post ?i sid ss ss3"
      using c os_eq_next [OF na] os_eq_ntop [OF nt] by (blast intro: create_os)+
    then show ?thesis using n(1) Some na nt
      by (cases "a_ret a = 0"; cases t) (simp_all add: listen_socket_def create_reply_def)
  qed
qed

lemma open_socket_post:
  assumes res: "reserved sid ss"
  shows "create_reply sid ss (open_socket sid port opaque host ss)"
proof -
  let ?i = "HASH_ID sid"
  obtain g ss1 where ng: "next_answer ss = (g, ss1)" by fastforce
  have e1: "os_eq ss ss1" by (rule os_eq_next [OF ng])
  have failed: "create_post ?i sid ss (open_failed sid None ss')" if "os_eq ss ss'" for ss'
    using os_create [OF that reserved_invalid [OF reserved_os [OF res that]]] by (simp add: open_failed_def)
  show ?thesis
  proof (cases "a_ret g = 0")
    case False
    then show ?thesis using failed [OF e1] ng by (auto simp: open_socket_def create_reply_def)
  next
    case True
    obtain c ss2 where tc: "try_connect (length (a_data g)) (a_errno g) ss1 = (c, ss2)" by fastforce
    have e2: "os_eq ss ss2" using os_eq_trans [OF e1 try_connect_keeps [OF tc]] .
    show ?thesis
    proof (cases c)
      case (Inl err)
      then show ?thesis using True failed [OF e2] ng tc by (auto simp: open_socket_def create_reply_def)
    next
      case (Inr p)
      then obtain sock connected where p: "c = Inr (sock, connected)" by (cases p) auto
      obtain r ss3 where n: "new_fd sid sock PROTOCOL_TCP opaque True ss2 = Some (r, ss3)" "new_fd_post [] [] ?i sid r ss2 ss3"
        by (rule reserved_new_fd [OF reserved_os [OF res e2]])
      note unf = open_socket_def ng True tc p n(1)
      show ?thesis
      proof (cases r)
        case None
        have "create_post ?i sid ss2 (klog (K_close sock) ss3)" 
          by (rule create_os [OF not_created [OF n(2) [unfolded None]] os_eq_klog]) simp
        then have "create_post ?i sid ss2 (open_failed sid (Some sock) ss3)" unfolding open_failed_def option.case
          using n(2) None by (intro create_invalid) (auto simp: new_fd_post_def os_simps)
        then show ?thesis using None os_create [OF e2] by (auto simp: unf create_reply_def)
      next
        case (Some j)
        then have j: "j = ?i" using n(2) by (simp add: new_fd_post_def)
        have c: "create_post ?i sid ss (set_type ?i t ss3)" if "t \<noteq> SOCKET_TYPE_RESERVE" for t
          using created [of ?i sid j ss2 ss3 t] n(2) Some that os_create [OF e2] by simp
        obtain nm ss4 where nt: "inet_ntop (set_type ?i SOCKET_TYPE_CONNECTED ss3) = (nm, ss4)" by fastforce
        have c4: "create_post ?i sid ss ss4" using c [of SOCKET_TYPE_CONNECTED] create_os [OF _ os_eq_ntop [OF nt]] by simp
        obtain e ss5 where w: "enable_write ?i True ss3 = (e, ss5)" by fastforce
        have c5: "create_post ?i sid ss (set_type ?i t ss5)" if "t \<noteq> SOCKET_TYPE_RESERVE" for t
        proof -
          note ct = c [OF that]
          then have "ss_inv [] [] (set_type ?i t ss3)" by (simp add: create_post_def)
          then obtain e' s5 where e': "enable_write ?i True (set_type ?i t ss3) = (e', s5)" "ss_inv [] [] s5" "frame {?i} {} (set_type ?i t ss3) s5"
            "ss_slot s5 ?i = (ss_slot (set_type ?i t ss3) ?i)\<lparr>s_writing := True\<rparr>"
            using enable_frame(1) [of "[]" "[]" "set_type ?i t ss3" ?i True] by auto
          then have "s5 = set_type ?i t ss5" using enable_write_set_type [OF w, of t] by simp
          moreover have "create_post ?i sid ss s5" using ct e' frame_trans [OF _ e'(3), of ss] by (simp add: create_post_def)
          ultimately show ?thesis by simp
        qed
        have "set_type ?i SOCKET_TYPE_INVALID (klog (K_close sock) ss5) = klog (K_close sock) (set_type ?i SOCKET_TYPE_INVALID ss5)"
          by (simp add: set_type_def upd_slot_klog)
        then have "create_post ?i sid ss (open_failed sid (Some sock) ss5)"
          using create_os [OF c5 [of SOCKET_TYPE_INVALID], of "klog (K_close sock) (set_type ?i SOCKET_TYPE_INVALID ss5)"]
          by (simp add: open_failed_def os_eq_klog)
        then show ?thesis using Some c4 c5 [of SOCKET_TYPE_CONNECTING] j nt w
          by (cases connected; cases e) (simp_all add: unf create_reply_def)
      qed
    qed
  qed
qed

end
