(* ===== verification/Socket_Steps.thy ===== *)
theory Socket_Steps
  imports Socket_Commands
begin

text \<open>
  The reservation of ids, what one step does to every socket of the table (\<open>slot_step\<close>), and the events of one socket.
\<close>

section \<open>Reserving ids\<close>

text \<open>The next id is the next number of 31 bits.\<close>

lemma next_id_eq:
  "next_id ss = (int ((unat (ss_alloc_id ss) + 1) mod 2 ^ 31), ss\<lparr>ss_alloc_id := of_nat ((unat (ss_alloc_id ss) + 1) mod 2 ^ 31)\<rparr>)"
proof -
  define n where "n = ss_alloc_id ss + 1"
  define m where "m = unat n mod 2 ^ 31"
  have "(unat (ss_alloc_id ss) + 1) mod 2 ^ 32 = unat n" by (simp add: n_def unat_word_ariths)
  then have m: "(unat (ss_alloc_id ss) + 1) mod 2 ^ 31 = m" unfolding m_def using mod_mod_cancel [of "2 ^ 31" "2 ^ 32 :: nat" "unat (ss_alloc_id ss) + 1"] by simp
  have n31: "n AND 0x7fffffff = of_nat m"
  proof -
    have "(0x7fffffff :: u32) = mask 31" by (simp add: mask_eq_exp_minus_1)
    then have "n AND 0x7fffffff = take_bit 31 n" by (simp add: take_bit_eq_mask)
    moreover have "unat (take_bit 31 n) = m" by (simp add: m_def unsigned_take_bit_eq take_bit_eq_mod unat_mod_distrib)
    ultimately show ?thesis by (metis of_nat_unat ucast_id)
  qed
  have small: "sint w = int (unat w)" if "unat w < 2 ^ 31" for w :: u32
proof -
    have "int (unat w) < int (2 ^ 31)" using that by (simp only: of_nat_less_iff)
    then have u: "uint w < 2 ^ 31" "0 \<le> uint w" by simp_all
    then have "uint w div 2 ^ 31 = 0" by (simp only: div_pos_pos_trivial)
    then have "\<not> bit (uint w) 31" by (simp only: bit_iff_odd even_zero not_not)
    then have "sint w = take_bit 31 (uint w)" by (simp add: sint_uint signed_take_bit_eq_if_positive)
    also have "\<dots> = uint w" using u by (simp only: take_bit_eq_mod mod_pos_pos_trivial)
    finally show ?thesis by simp
  qed
  have um: "unat (of_nat m :: u32) = m" "m < 2 ^ 31" by (simp_all add: m_def unat_of_nat)
  show ?thesis
  proof (cases "sint n < 0")
    case True
    then show ?thesis unfolding m using um small [of "of_nat m"] by (simp add: next_id_def n_def [symmetric] n31 Let_def)
  next
    case False
    have "unat n < 2 ^ 31"
    proof (rule ccontr)
      assume "\<not> unat n < 2 ^ 31"
      moreover have "unat n < 2 ^ 32" using unsigned_less [of n, where ?'a = nat] by simp
      ultimately have "unat n div 2 ^ 31 = 1" by (simp add: div_nat_eqI)
      then have "bit (unat n) 31" by (simp add: bit_iff_odd)
      then have "bit n 31" by (simp add: bit_unsigned_iff)
      then show False using False by (simp add: sint_uint bit_uint_iff)
    qed
    then have "n = of_nat m" by (simp add: m_def)
    then show ?thesis unfolding m using False um small [of n] by (simp add: next_id_def n_def [symmetric] Let_def)
  qed
qed

lemma reserve_loop_cases:
  assumes "reserve_loop n ss = (r, ss')"
  shows "case r of
      None \<Rightarrow> \<exists>k. ss' = ss\<lparr>ss_alloc_id := k\<rparr>
    | Some sid \<Rightarrow> 0 \<le> sid \<and> sid < 2 ^ 31 \<and> s_type (slot_of sid ss) = SOCKET_TYPE_INVALID \<and>
        (\<exists>k. ss' = upd_slot (HASH_ID sid) (reserved_socket sid) (ss\<lparr>ss_alloc_id := k\<rparr>))"
  using assms
proof (induction n arbitrary: ss)
  case 0
  then show ?case by (auto intro: exI [of _ "ss_alloc_id ss"])
next
  case (Suc n)
  obtain sid ss1 where ni: "next_id ss = (sid, ss1)" by fastforce
  then obtain k where k: "ss1 = ss\<lparr>ss_alloc_id := k\<rparr>" "0 \<le> sid" "sid < 2 ^ 31" by (auto simp: next_id_eq)
  show ?case
  proof (cases "s_type (slot_of sid ss) = SOCKET_TYPE_INVALID")
    case True
    with Suc.prems ni k show ?thesis by auto
  next
    case False
    then have "reserve_loop n ss1 = (r, ss')" using Suc.prems ni k by simp
    from Suc.IH [OF this] show ?thesis by (auto simp: k upd_slot_def split: option.splits)
  qed
qed

lemma reserve_loop_cong:
  "ss_slot ss = ss_slot ss' \<Longrightarrow> ss_alloc_id ss = ss_alloc_id ss' \<Longrightarrow> fst (reserve_loop n ss) = fst (reserve_loop n ss')"
proof (induction n arbitrary: ss ss')
  case (Suc n)
  let ?k = "of_nat ((unat (ss_alloc_id ss) + 1) mod 2 ^ 31)"
  show ?case using Suc.IH [of "ss\<lparr>ss_alloc_id := ?k\<rparr>" "ss'\<lparr>ss_alloc_id := ?k\<rparr>"] Suc.prems by (simp add: next_id_eq)
qed simp

lemma reserve_inv:
  assumes inv: "ss_inv xs cs ss" and t: "s_type (slot_of sid ss) = SOCKET_TYPE_INVALID" and p: "pending_count cs (ss_pipe ss) sid = 0"
  shows "ss_inv xs cs (upd_slot (HASH_ID sid) (reserved_socket sid) (ss\<lparr>ss_alloc_id := k\<rparr>))"
proof -
  let ?s = "slot_of sid ss"
  have ok: "slot_inv cs (ss_pipe ss) (ss_mem ss) (HASH_ID sid) ?s" by (rule ss_inv_slotD [OF inv]) simp
  then have q: "wb_queue ?s = []" "wb_queue (reserved_socket sid ?s) = []"
    using t by (auto simp: slot_inv_def slot_ok_def live_def wb_queue_def reserved_socket_def)
  have "slot_inv cs (ss_pipe ss) (ss_mem ss) (HASH_ID sid) (reserved_socket sid ?s)"
    using ok t p q by (auto simp: slot_inv_def slot_ok_def sending_ok_def live_def reserved_socket_def PROTOCOL_UNKNOWN_def PROTOCOL_TCP_def
        wb_queue_def dw_list_def split: option.splits)
  then show ?thesis by (intro ss_inv_slot [OF inv, of "HASH_ID sid"]) (simp_all add: q)
qed

text \<open>The ids that are tried belong to slots in order, so that every slot is seen once.\<close>

lemma next_id_hash: "HASH_ID (int ((n + 1) mod 2 ^ 31)) = (n + 1) mod MAX_SOCKET"
proof -
  have "int ((n + 1) mod 2 ^ 31) mod 65536 = int ((n + 1) mod 2 ^ 31 mod 65536)" by (simp only: zmod_int of_nat_numeral)
  also have "(n + 1) mod 2 ^ 31 mod 65536 = (n + 1) mod 65536" by (rule mod_mod_cancel) simp
  finally show ?thesis by (simp add: HASH_ID_def MAX_SOCKET_def)
qed

lemma reserve_loop_None:
  "fst (reserve_loop n ss) = None \<longleftrightarrow> (\<forall>k<n. s_type (ss_slot ss ((unat (ss_alloc_id ss) + Suc k) mod MAX_SOCKET)) \<noteq> SOCKET_TYPE_INVALID)"
proof (induction n arbitrary: ss)
  case (Suc n)
  let ?m = "(unat (ss_alloc_id ss) + 1) mod 2 ^ 31"
  have "unat (of_nat ?m :: u32) = ?m" by (simp add: unat_of_nat)
  moreover have "(?m + Suc k) mod MAX_SOCKET = (unat (ss_alloc_id ss) + Suc (Suc k)) mod MAX_SOCKET" for k
  proof -
    have "?m mod MAX_SOCKET = (unat (ss_alloc_id ss) + 1) mod MAX_SOCKET" unfolding MAX_SOCKET_def by (rule mod_mod_cancel) simp
    then show ?thesis by (metis add_Suc_right add_Suc_shift mod_add_left_eq Suc_eq_plus1)
  qed
  ultimately have "(\<forall>k<n. s_type (ss_slot ss ((unat (of_nat ?m :: u32) + Suc k) mod MAX_SOCKET)) \<noteq> SOCKET_TYPE_INVALID) \<longleftrightarrow>
      (\<forall>k<n. s_type (ss_slot ss ((unat (ss_alloc_id ss) + Suc (Suc k)) mod MAX_SOCKET)) \<noteq> SOCKET_TYPE_INVALID)" by presburger
  then show ?case using Suc.IH [of "ss\<lparr>ss_alloc_id := of_nat ?m\<rparr>"] next_id_hash [of "unat (ss_alloc_id ss)"]
    by (simp add: next_id_eq All_less_Suc2 del: of_nat_mod)
qed simp

lemma all_residues: "(\<forall>k<MAX_SOCKET. P ((a + Suc k) mod MAX_SOCKET)) \<longleftrightarrow> (\<forall>i<MAX_SOCKET. P i)"
proof (intro iffI allI impI)
  fix i assume P: "\<forall>k<MAX_SOCKET. P ((a + Suc k) mod MAX_SOCKET)" and i: "i < MAX_SOCKET"
  let ?k = "(i + (MAX_SOCKET - Suc a mod MAX_SOCKET)) mod MAX_SOCKET"
  have pos: "0 < MAX_SOCKET" by (simp add: MAX_SOCKET_def)
  have "(a + Suc ?k) mod MAX_SOCKET = (Suc a + ?k) mod MAX_SOCKET" by simp
  also have "\<dots> = (Suc a mod MAX_SOCKET + (i + (MAX_SOCKET - Suc a mod MAX_SOCKET))) mod MAX_SOCKET" by (simp only: mod_add_right_eq mod_add_left_eq)
  also have "Suc a mod MAX_SOCKET + (i + (MAX_SOCKET - Suc a mod MAX_SOCKET)) = i + MAX_SOCKET"
    using mod_less_divisor [OF pos, of "Suc a"] by simp
  finally have "(a + Suc ?k) mod MAX_SOCKET = i" using i by simp
  moreover have "?k < MAX_SOCKET" using pos by simp
  ultimately show "P i" using P by metis
qed (simp add: MAX_SOCKET_def)

text \<open>
  C38. \<open>reserve_id\<close> fails only when every slot is in use. Otherwise it reserves a free slot under an id of 31 bits that
  belongs to the slot, wherever the counter of ids stands, and changes nothing else.
\<close>

theorem reserve_id_complete:
  "case reserve_id ss of
     (None, ss') \<Rightarrow> \<not> (\<exists>i<MAX_SOCKET. s_type (ss_slot ss i) = SOCKET_TYPE_INVALID) \<and> (\<exists>k. ss' = ss\<lparr>ss_alloc_id := k\<rparr>)
   | (Some sid, ss') \<Rightarrow> 0 \<le> sid \<and> sid < 2 ^ 31 \<and> s_type (slot_of sid ss) = SOCKET_TYPE_INVALID \<and>
       (\<exists>k. ss' = upd_slot (HASH_ID sid) (reserved_socket sid) (ss\<lparr>ss_alloc_id := k\<rparr>))"
proof -
  obtain r ss' where r: "reserve_id ss = (r, ss')" by fastforce
  have none: "r = None \<longleftrightarrow> \<not> (\<exists>i<MAX_SOCKET. s_type (ss_slot ss i) = SOCKET_TYPE_INVALID)"
    using reserve_loop_None [of MAX_SOCKET ss] r
      all_residues [of "\<lambda>i. s_type (ss_slot ss i) \<noteq> SOCKET_TYPE_INVALID" "unat (ss_alloc_id ss)"] by (simp add: reserve_id_def)
  show ?thesis
  proof (cases r)
    case None
    then show ?thesis using none r reserve_loop_cases [of MAX_SOCKET ss None ss'] by (simp add: reserve_id_def)
  next
    case (Some sid)
    then show ?thesis using r reserve_loop_cases [of MAX_SOCKET ss "Some sid" ss'] by (simp add: reserve_id_def)
  qed
qed

section \<open>The effect of a step on all sockets\<close>

text \<open>
  The channel of a socket: what was written, what waits, and how much of it is in the low list. A step of the channel writes
  bytes, or takes a package.
\<close>

type_synonym chan = "bytes \<times> (nat \<times> bytes) list \<times> nat"

definition chan_of :: "nat \<Rightarrow> socket_server \<Rightarrow> chan" where
  "chan_of t ss = (out (s_fd (ss_slot ss t)) ss, view t ss, length (s_low (ss_slot ss t)))"

definition chan_write :: "chan \<Rightarrow> chan \<Rightarrow> bool" where
  "chan_write c c' = (case (c, c') of ((o1, v, n), (o2, v', n')) \<Rightarrow> \<exists>w. o2 = o1 @ w \<and> advance w v v' \<and> n' \<le> n)"

definition chan_take :: "bool \<Rightarrow> bytes \<Rightarrow> chan \<Rightarrow> chan \<Rightarrow> bool" where
  "chan_take high p c c' = (case (c, c') of ((o1, v, n), (o2, v', n')) \<Rightarrow> o2 = o1 \<and>
     (\<exists>v1 v2. v = v1 @ v2 \<and> v' = v1 @ (0, p) # v2 \<and> (v1 = [] \<longrightarrow> begun v2 = []) \<and>
       (n' = n \<and> length v2 = n \<and> (high \<or> v2 = []) \<or> n' = Suc n \<and> v2 = [] \<and> \<not> high)))"

lemma chan_write_refl [simp]: "chan_write c c"
  by (cases c) (auto simp: chan_write_def intro: exI [of _ "[]"])

text \<open>A package taken: the slot, its priority, its bytes.\<close>

type_synonym taken = "(nat \<times> bool \<times> bytes) option"

definition chan_rel :: "taken \<Rightarrow> nat \<Rightarrow> chan \<Rightarrow> chan \<Rightarrow> bool" where
  "chan_rel T t c c' = (case T of
     Some (i, high, p) \<Rightarrow> if t = i then \<exists>c1. chan_take high p c c1 \<and> chan_write c1 c' else chan_write c c'
   | None \<Rightarrow> chan_write c c')"

definition fds_distinct :: "socket_server \<Rightarrow> bool" where
  "fds_distinct ss \<longleftrightarrow> (\<forall>i<MAX_SOCKET. \<forall>j<MAX_SOCKET. i \<noteq> j \<longrightarrow> live (ss_slot ss i) \<longrightarrow> live (ss_slot ss j) \<longrightarrow>
     s_fd (ss_slot ss i) \<noteq> s_fd (ss_slot ss j))"

definition quiet :: "socket \<Rightarrow> bool" where
  "quiet s \<longleftrightarrow> \<not> s_dw_lock s \<and> \<not> list_uncomplete (s_low s)"

definition all_quiet :: "socket_server \<Rightarrow> bool" where
  "all_quiet ss \<longleftrightarrow> (\<forall>t<MAX_SOCKET. quiet (ss_slot ss t))"

definition new_ids :: "socket_server \<Rightarrow> int set" where
  "new_ids ss = set_option (fst (reserve_id ss))"

text \<open>
  What any step does to a slot: the socket in it keeps its id and its descriptor while it lives, and a socket that was closed, for
  reading or altogether, stays so until the slot is given a new id.
\<close>

definition slot_step :: "taken \<Rightarrow> socket_server \<Rightarrow> socket_server \<Rightarrow> nat \<Rightarrow> bool" where
  "slot_step T ss ss' t \<longleftrightarrow>
     (s_id (ss_slot ss' t) \<noteq> s_id (ss_slot ss t) \<longrightarrow> \<not> live (ss_slot ss t) \<and> s_id (ss_slot ss' t) \<in> new_ids ss)
     \<and> (closed_type (s_type (ss_slot ss t)) \<longrightarrow> closed_type (s_type (ss_slot ss' t)) \<or> s_id (ss_slot ss' t) \<in> new_ids ss)
     \<and> (live (ss_slot ss t) \<longrightarrow> s_fd (ss_slot ss' t) = s_fd (ss_slot ss t) \<and>
          (live (ss_slot ss' t) \<longrightarrow> fds_distinct ss \<longrightarrow> chan_rel T t (chan_of t ss) (chan_of t ss')))"

definition slot_rel :: "taken \<Rightarrow> socket_server \<Rightarrow> socket_server \<Rightarrow> nat \<Rightarrow> bool" where
  "slot_rel T ss ss' t \<longleftrightarrow> slot_step T ss ss' t \<and> quiet (ss_slot ss' t)
     \<and> (s_type (ss_slot ss' t) = SOCKET_TYPE_RESERVE \<longrightarrow> s_type (ss_slot ss t) = SOCKET_TYPE_RESERVE \<and> s_id (ss_slot ss' t) = s_id (ss_slot ss t))"

lemmas slot_rel_defs = slot_rel_def slot_step_def

definition ev_ok :: "socket_server \<Rightarrow> bool" where
  "ev_ok ss \<longleftrightarrow> ss_event_index ss \<le> length (ss_ev ss) \<and> (\<forall>e\<in>set (ss_ev ss). \<forall>i. e_s e = Some i \<longrightarrow> i < MAX_SOCKET)"

definition reply_post :: "taken \<Rightarrow> socket_server \<Rightarrow> reply \<Rightarrow> bool" where
  "reply_post T ss r \<longleftrightarrow> (case r of (ev, m, ss') \<Rightarrow> ss_inv [] [] ss' \<and> ev_ok ss' \<and> (\<forall>t<MAX_SOCKET. slot_rel T ss ss' t)
     \<and> ss_pipe ss' = ss_pipe ss \<and> (\<forall>q\<in>set (pipe_sends (ss_pipe ss)). rq_bytes (ss_mem ss') q = rq_bytes (ss_mem ss) q)
     \<and> (ev = Some SOCKET_CLOSE \<longrightarrow> (\<exists>i<MAX_SOCKET. sm_id m = s_id (ss_slot ss i) \<and> s_type (ss_slot ss i) \<noteq> SOCKET_TYPE_RESERVE \<and>
          \<not> closed_type (s_type (ss_slot ss i)) \<and> closed_type (s_type (ss_slot ss' i)) \<and> s_id (ss_slot ss' i) = s_id (ss_slot ss i))))"

lemma tcp_step_chan: "tcp_step i ss ss' \<Longrightarrow> live (ss_slot ss' i) \<Longrightarrow> chan_write (chan_of i ss) (chan_of i ss')"
  by (auto simp: tcp_step_defs chan_write_def chan_of_def)

lemma append_step_chan: "append_step i high p ss ss' \<Longrightarrow> chan_take high p (chan_of i ss) (chan_of i ss')"
  by (auto simp: append_step_def chan_take_def chan_of_def frame_def)

lemma frame_chan:
  assumes "frame I fds ss ss'" "t < MAX_SOCKET" "t \<notin> I" "s_fd (ss_slot ss t) \<notin> fds"
  shows "chan_of t ss' = chan_of t ss"
  using assms by (auto simp: frame_def chan_of_def)

lemma frame_slot_rel:
  assumes "frame {i} (wfd (ss_slot ss i)) ss ss'" "t < MAX_SOCKET" "t \<noteq> i" "i < MAX_SOCKET" "all_quiet ss" "T = None \<or> (\<exists>h p. T = Some (i, h, p))"
  shows "slot_rel T ss ss' t"
proof -
  have same: "ss_slot ss' t = ss_slot ss t" using assms(1-3) by (auto simp: frame_def)
  have "chan_of t ss' = chan_of t ss" if "live (ss_slot ss t)" "fds_distinct ss"
    using that assms by (intro frame_chan [OF assms(1)]) (auto simp: fds_distinct_def wfd_def)
  then show ?thesis using same assms by (auto simp: slot_rel_defs all_quiet_def chan_rel_def)
qed

lemma ev_ok_frame: "frame I fds ss ss' \<Longrightarrow> ev_ok ss \<Longrightarrow> ev_ok ss'"
  by (simp add: frame_def ev_ok_def)

lemma frame_reply:
  assumes "ss_inv [] [] ss'" "frame {i} (wfd (ss_slot ss i)) ss ss'" "i < MAX_SOCKET" "all_quiet ss" "ev_ok ss" "T = None \<or> (\<exists>h p. T = Some (i, h, p))"
    "slot_rel T ss ss' i" "close_ok i ss ev m ss'" "ev = Some SOCKET_CLOSE \<Longrightarrow> s_id (ss_slot ss' i) = s_id (ss_slot ss i)"
  shows "reply_post T ss (ev, m, ss')"
proof -
  have "slot_rel T ss ss' t" if "t < MAX_SOCKET" for t
    using assms(7) frame_slot_rel [OF assms(2) that _ assms(3,4,6)] by (cases "t = i") auto
  moreover have "ev_ok ss'" using assms(2,5) by (rule ev_ok_frame)
  ultimately show ?thesis using assms(1,2,3,8,9) by (auto simp: reply_post_def close_ok_def frame_def)
qed

lemma tcp_slot_rel:
  assumes "tcp_step i ss ss'" "quiet (ss_slot ss' i)" "s_type (ss_slot ss' i) = SOCKET_TYPE_RESERVE \<Longrightarrow> s_type (ss_slot ss i) = SOCKET_TYPE_RESERVE"
  shows "slot_rel None ss ss' i"
  using assms tcp_step_chan [OF assms(1)] unfolding slot_rel_defs tcp_step_defs closed_type_def chan_rel_def by auto

lemma cmd_reply:
  assumes "cmd_post i ss r" "i < MAX_SOCKET" "all_quiet ss" "ev_ok ss"
  shows "\<exists>r'. r = Some r' \<and> reply_post None ss r'"
proof -
  obtain ev m ss' where r: "r = Some (ev, m, ss')" "ss_inv [] [] ss'" "frame {i} (wfd (ss_slot ss i)) ss ss'" "\<not> list_uncomplete (s_low (ss_slot ss' i))"
    "s_dw_lock (ss_slot ss' i) = s_dw_lock (ss_slot ss i)" "close_ok i ss ev m ss'"
    and c: "if s_type (ss_slot ss i) = SOCKET_TYPE_RESERVE
      then s_id (ss_slot ss' i) = s_id (ss_slot ss i) else tcp_step i ss ss' \<and> s_type (ss_slot ss' i) \<noteq> SOCKET_TYPE_RESERVE"
    using assms(1) unfolding cmd_post_def by blast
  have q: "quiet (ss_slot ss' i)" using r assms(2,3) by (auto simp: quiet_def all_quiet_def)
  have id: "s_id (ss_slot ss' i) = s_id (ss_slot ss i)" using c by (auto simp: tcp_step_defs split: if_splits)
  have "slot_rel None ss ss' i"
  proof (cases "s_type (ss_slot ss i) = SOCKET_TYPE_RESERVE")
    case True
    then show ?thesis using q id by (simp add: slot_rel_defs closed_type_def live_def)
  next
    case False
    then show ?thesis using c q by (intro tcp_slot_rel) auto
  qed
  then show ?thesis using r id assms frame_reply [OF r(2,3) assms(2,3,4), of None ev m] by auto
qed

lemma create_reply_post:
  assumes "create_reply sid ss r" "all_quiet ss" "ev_ok ss" "s_type (slot_of sid ss) = SOCKET_TYPE_RESERVE" "s_id (slot_of sid ss) = sid"
  shows "\<exists>r'. r = Some r' \<and> reply_post None ss r' \<and> s_type (slot_of sid (snd (snd r'))) \<noteq> SOCKET_TYPE_RESERVE"
proof -
  let ?i = "HASH_ID sid"
  obtain ev m ss' where r: "r = Some (ev, m, ss')" "create_post ?i sid ss ss'" "ev \<noteq> Some SOCKET_CLOSE"
    using assms(1) unfolding create_reply_def by blast
  then have c: "ss_inv [] [] ss'" "frame {?i} {} ss ss'" "\<not> list_uncomplete (s_low (ss_slot ss' ?i))" "s_dw_lock (ss_slot ss' ?i) = s_dw_lock (ss_slot ss ?i)"
    "s_id (ss_slot ss' ?i) = sid" "s_type (ss_slot ss' ?i) \<noteq> SOCKET_TYPE_RESERVE" by (auto simp: create_post_def)
  have "quiet (ss_slot ss' ?i)" using c assms(2) by (simp add: quiet_def all_quiet_def)
  then have "slot_rel None ss ss' ?i" using c assms(4,5) by (simp add: slot_rel_defs live_def closed_type_def)
  moreover have "frame {?i} (wfd (slot_of sid ss)) ss ss'" using c(2) frame_mono by blast
  ultimately show ?thesis using r c assms frame_reply [OF c(1) _ HASH_ID_bound assms(2,3), of sid None ev m] by (simp add: close_ok_other)
qed

text \<open>A package from the pipe.\<close>

lemma send_post_reply:
  assumes inv: "ss_inv [rq_buffer q] [rq_id q] ss" and q: "req_ok (ss_mem ss) q" and quiet: "all_quiet ss" and ev: "ev_ok ss"
  shows "\<exists>ret r ss' ss''. send_socket q high None result ss = Some (ret, r, ss') \<and> dec_sending_ref (rq_id q) ss' = Some ss'' \<and>
    reply_post (if accepts (slot_of (rq_id q) ss) (rq_id q) then Some (HASH_ID (rq_id q), high, rq_bytes (ss_mem ss) q) else None) ss (ret, r, ss'')"
proof -
  let ?i = "HASH_ID (rq_id q)" and ?a = "accepts (slot_of (rq_id q) ss) (rq_id q)" and ?p = "rq_bytes (ss_mem ss) q"
  have nl: "\<not> list_uncomplete (s_low (ss_slot ss ?i))" and nk: "\<not> s_dw_lock (ss_slot ss ?i)" using quiet by (auto simp: all_quiet_def quiet_def)
  obtain ret r ss1 where s: "send_socket q high None result ss = Some (ret, r, ss1)" "ss_inv [] [rq_id q] ss1" "write_event ret"
    "\<not> list_uncomplete (s_low (ss_slot ss1 ?i))" "s_dw_lock (ss_slot ss1 ?i) = s_dw_lock (ss_slot ss ?i)"
    and c: "if ?a then append_step ?i high ?p ss ss1 else frame {} {} ss ss1"
    using send_socket_spec [OF inv q refl nl, of high result] by blast
  obtain ss2 n where d: "dec_sending_ref (rq_id q) ss1 = Some ss2" "ss_inv [] [] ss2" "ss2 = upd_slot ?i (s_sending_update (\<lambda>_. n)) ss1"
    using dec_sending_spec [OF s(2)] by blast
  have fr2: "frame {?i} {} ss1 ss2" unfolding d(3) by (rule frame_upd_slot) simp
  have "frame {?i} {} ss ss1" using c by (auto simp: append_step_def intro: frame_mono split: if_splits)
  then have fr: "frame {?i} (wfd (ss_slot ss ?i)) ss ss2" using fr2 frame_trans frame_mono by (metis empty_subsetI order_refl)
  have v2: "chan_of ?i ss2 = chan_of ?i ss1" by (simp add: d(3) chan_of_def view_def wb_queue_def)
  have qt: "quiet (ss_slot ss2 ?i)" using s nk by (simp add: d(3) quiet_def)
  have rel: "slot_rel (if ?a then Some (?i, high, ?p) else None) ss ss2 ?i"
  proof (cases ?a)
    case True
    then have ap: "append_step ?i high ?p ss ss1" using c by simp
    then have keep: "s_id (ss_slot ss2 ?i) = s_id (ss_slot ss ?i)" "s_fd (ss_slot ss2 ?i) = s_fd (ss_slot ss ?i)"
      "s_type (ss_slot ss2 ?i) = s_type (ss_slot ss ?i)" by (simp_all add: append_step_def d(3))
    have "\<exists>c1. chan_take high ?p (chan_of ?i ss) c1 \<and> chan_write c1 (chan_of ?i ss2)" using append_step_chan [OF ap] v2 chan_write_refl by metis
    then show ?thesis using True qt keep unfolding slot_rel_defs chan_rel_def by simp
  next
    case False
    then have "frame {} {} ss ss1" using c by simp
    then have "chan_of ?i ss1 = chan_of ?i ss" "ss_slot ss1 ?i = ss_slot ss ?i" using frame_chan [of "{}" "{}" ss ss1 ?i] by (auto simp: frame_def)
    then show ?thesis using False qt v2 unfolding slot_rel_defs chan_rel_def by (simp add: d(3))
  qed
  have ok: "close_ok ?i ss ret r ss2" using s(3) by (auto simp: write_event_def close_ok_def)
  have "reply_post (if ?a then Some (?i, high, ?p) else None) ss (ret, r, ss2)"
    using s(3) by (intro frame_reply [OF d(2) fr HASH_ID_bound quiet ev _ rel ok]) (auto simp: write_event_def)
  with s(1) d(1) show ?thesis by blast
qed

section \<open>Commands\<close>

definition take_of :: "request \<Rightarrow> socket_server \<Rightarrow> taken" where
  "take_of req ss = (let t = (\<lambda>high q. if accepts (slot_of (rq_id q) ss) (rq_id q) then Some (HASH_ID (rq_id q), high, rq_bytes (ss_mem ss) q) else None) in
     case req of Req_D q \<Rightarrow> t True q | Req_P q \<Rightarrow> t False q | _ \<Rightarrow> None)"

lemma exit_post:
  assumes "ss_inv [] [] ss" "all_quiet ss" "ev_ok ss" "ev \<noteq> Some SOCKET_CLOSE"
  shows "reply_post None ss (ev, m, ss)"
  using assms by (auto simp: reply_post_def slot_rel_defs all_quiet_def chan_rel_def)

lemma do_request_post:
  assumes inv: "ss_inv (map rq_buffer (req_sends req)) (map rq_id (req_sends req)) ss" and quiet: "all_quiet ss" and ev: "ev_ok ss"
    and tcp: "tcp_request req" and sends: "\<forall>q\<in>set (req_sends req). req_ok (ss_mem ss) q"
    and creates: "\<forall>sid\<in>set (req_creates req). reserved sid ss"
    and kill: "\<And>sid b op. req = Req_K sid b op \<Longrightarrow> \<not> (s_type (slot_of sid ss) = SOCKET_TYPE_RESERVE \<and> s_id (slot_of sid ss) = sid)"
  shows "\<exists>r. do_request req result ss = Some r \<and> reply_post (take_of req ss) ss r \<and>
    (\<forall>sid\<in>set (req_creates req). s_type (slot_of sid (snd (snd r))) \<noteq> SOCKET_TYPE_RESERVE)"
proof -
  have nl: "\<not> list_uncomplete (s_low (slot_of sid ss))" and nk: "\<not> s_dw_lock (slot_of sid ss)" for sid
    using quiet by (auto simp: all_quiet_def quiet_def)
  have cmd: ?thesis if "req_sends req = [] \<and> req_creates req = []" "take_of req ss = None" "ss_inv [] [] ss \<Longrightarrow> cmd_post (HASH_ID sid) ss (do_request req result ss)" for sid
    using cmd_reply [OF that(3) HASH_ID_bound quiet ev] inv that(1,2) by simp
  have create: ?thesis if "req_creates req = [sid]" "take_of req ss = None" "reserved sid ss \<Longrightarrow> create_reply sid ss (do_request req result ss)" for sid
    using that creates create_reply_post [of sid ss, OF _ quiet ev] by (simp add: reserved_def)
  show ?thesis
  proof (cases req)
    case (Req_R sid op)
    show ?thesis by (rule cmd [of sid]) (simp_all add: Req_R req_sends_def req_creates_def take_of_def do_request_def resume_socket_post nl)
  next
    case (Req_S sid op)
    show ?thesis by (rule cmd [of sid]) (simp_all add: Req_S req_sends_def req_creates_def take_of_def do_request_def pause_socket_post nl)
  next
    case (Req_B sid fd op)
    show ?thesis by (rule create [of sid]) (simp_all add: Req_B req_creates_def take_of_def do_request_def bind_socket_post)
  next
    case (Req_L sid fd op)
    show ?thesis by (rule create [of sid]) (simp_all add: Req_L req_creates_def take_of_def do_request_def listen_socket_post)
  next
    case (Req_K sid b op)
    show ?thesis using kill [OF Req_K] by (intro cmd [of sid]) (simp_all add: Req_K req_sends_def req_creates_def take_of_def do_request_def close_socket_post nl nk)
  next
    case (Req_O sid port op host)
    show ?thesis by (rule create [of sid]) (simp_all add: Req_O req_creates_def take_of_def do_request_def open_socket_post)
  next
    case Req_X
    then show ?thesis using inv exit_post [OF _ quiet ev] by (simp add: req_sends_def req_creates_def take_of_def do_request_def)
  next
    case (Req_W sid)
    show ?thesis by (rule cmd [of sid]) (simp_all add: Req_W req_sends_def req_creates_def take_of_def do_request_def trigger_write_post nl)
  next
    case (Req_D q)
    then show ?thesis using send_post_reply [of q ss True result, OF _ _ quiet ev] inv sends
      by (auto simp: req_sends_def req_creates_def take_of_def do_request_def)
  next
    case (Req_P q)
    then show ?thesis using send_post_reply [of q ss False result, OF _ _ quiet ev] inv sends
      by (auto simp: req_sends_def req_creates_def take_of_def do_request_def)
  next
    case (Req_T sid w v)
    show ?thesis by (rule cmd [of sid]) (simp_all add: Req_T req_sends_def req_creates_def take_of_def do_request_def setopt_socket_post nl)
  qed (use tcp in \<open>simp_all add: tcp_request_def\<close>)
qed

section \<open>Events\<close>

lemma op_post_keeps:
  assumes "op_post xs cs i ss ss'"
  shows "ss_inv xs cs ss'" "\<not> list_uncomplete (s_low (ss_slot ss' i))" "s_dw_lock (ss_slot ss' i) = s_dw_lock (ss_slot ss i)"
  using assms by (simp_all add: op_post_def)

text \<open>Closing after other operations on the same socket.\<close>

lemma post_force_close:
  assumes "op_post [] [] i ss ss1" "i < MAX_SOCKET" "live (ss_slot ss1 i)" "\<not> s_dw_lock (ss_slot ss i)"
  obtains ss' where "force_close i 0 ss1 = Some (message_of (ss_slot ss1 i), ss')" "op_post [] [] i ss ss'" "s_type (ss_slot ss' i) = SOCKET_TYPE_INVALID"
  using force_close_post [of "[]" "[]" ss1 i 0] op_post_keeps [OF assms(1)] assms op_post_trans [OF assms(1)] by auto

lemma live_not_reserve: "live s \<Longrightarrow> s_type s \<noteq> SOCKET_TYPE_RESERVE"
  by (simp add: live_def)

lemma invalid_not_reserve: "s_type s = SOCKET_TYPE_INVALID \<Longrightarrow> s_type s \<noteq> SOCKET_TYPE_RESERVE"
  by simp

lemma report_connect_post:
  assumes inv: "ss_inv [] [] ss" and i: "i < MAX_SOCKET" and q: "quiet (ss_slot ss i)" and t: "s_type (ss_slot ss i) = SOCKET_TYPE_CONNECTING"
  shows "cmd_post i ss (report_connect i 0 ss)"
proof -
  have live: "live (ss_slot ss i)" using t by (simp add: live_def)
  have nl: "\<not> list_uncomplete (s_low (ss_slot ss i))" and nk: "\<not> s_dw_lock (ss_slot ss i)" using q by (auto simp: quiet_def)
  obtain a ss1 where na: "next_answer ss = (a, ss1)" by fastforce
  have e1: "os_eq ss ss1" by (rule os_eq_next [OF na])
  then have p1: "op_post [] [] i ss ss1" and s1: "ss_slot ss1 = ss_slot ss" using os_eq_post [OF _ inv nl] os_eq_slot by auto
  define error where "error = (if a_ret a < 0 then a_errno a else a_ret a)"
  show ?thesis
  proof (cases "error \<noteq> 0 \<or> a_ret a < 0")
    case True
    obtain ss' where f: "force_close i 0 ss1 = Some (message_of (ss_slot ss1 i), ss')" "op_post [] [] i ss ss'" "s_type (ss_slot ss' i) = SOCKET_TYPE_INVALID"
      using post_force_close [OF p1 i] live nk s1 by auto
    have "report_connect i 0 ss = Some (Some SOCKET_ERR, (message_of (ss_slot ss1 i))\<lparr>sm_data := D_strerror error\<rparr>, ss')"
      using True f(1) by (auto simp: report_connect_def Let_def na error_def)
    then show ?thesis using cmd_post_ev [OF refl f(2)] f(3) by simp
  next
    case False
    then have a0: "a_ret a = 0" by (auto simp: error_def split: if_splits)
    let ?c = "set_type i SOCKET_TYPE_CONNECTED ss1"
    have "op_post [] [] i ss1 ?c" unfolding set_type_def using op_post_keeps [OF p1] i live s1 t
      by (intro retype_post) (auto simp: live_def same_queue_def)
    then have pc: "op_post [] [] i ss ?c" by (rule op_post_trans [OF p1])
    obtain err ss2 where w: "(if nomore_sending_data (ss_slot ?c i) then enable_write i False ?c else (False, ?c)) = (err, ss2)" by fastforce
    obtain err' ss2' where w': "enable_write i False ?c = (err', ss2')" "op_post [] [] i ?c ss2'"
      "ss_slot ss2' i = (ss_slot ?c i)\<lparr>s_writing := False\<rparr>" using enable_post(1) [OF op_post_keeps(1) [OF pc] i op_post_keeps(2) [OF pc]] by metis
    have p2: "op_post [] [] i ss ss2" and t2: "s_type (ss_slot ss2 i) = SOCKET_TYPE_CONNECTED"
      using w w' pc op_post_trans [OF pc] by (auto split: if_splits simp: set_type_def)
    obtain ss3 where f: "force_close i 0 ss2 = Some (message_of (ss_slot ss2 i), ss3)" "op_post [] [] i ss ss3" "s_type (ss_slot ss3 i) = SOCKET_TYPE_INVALID"
      using post_force_close [OF p2 i _ nk] t2 by (auto simp: live_def)
    obtain p ss4 where np: "next_answer ss2 = (p, ss4)" by fastforce
    obtain nm ss5 where nt: "inet_ntop ss4 = (nm, ss5)" by fastforce
    have "op_post [] [] i ss2 ss4" using os_eq_post [OF os_eq_next [OF np]] op_post_keeps [OF p2] by simp
    then have p4: "op_post [] [] i ss ss4" by (rule op_post_trans [OF p2])
    then have "op_post [] [] i ss4 ss5" using os_eq_post [OF os_eq_ntop [OF nt]] op_post_keeps by simp
    then have p5: "op_post [] [] i ss ss5" by (rule op_post_trans [OF p4])
    have t4: "s_type (ss_slot ss4 i) \<noteq> SOCKET_TYPE_RESERVE" "s_type (ss_slot ss5 i) \<noteq> SOCKET_TYPE_RESERVE"
      using t2 os_eq_slot [OF os_eq_next [OF np]] os_eq_slot [OF os_eq_ntop [OF nt]] by auto
    note unf = report_connect_def Let_def na a0 w
    consider (e) "err" | (n) "\<not> err" "a_ret p = 0" | (o) "\<not> err" "a_ret p \<noteq> 0" by blast
    then show ?thesis
    proof cases
      case e
      have "report_connect i 0 ss = Some (Some SOCKET_ERR, (message_of (ss_slot ss2 i))\<lparr>sm_data := D_text ''disable write failed''\<rparr>, ss3)"
        using False e f(1) by (simp add: unf)
      then show ?thesis using cmd_post_ev [OF refl f(2)] f(3) by simp
    next
      case n
      then have "\<exists>m. report_connect i 0 ss = Some (Some SOCKET_OPEN, m, ss5)" using False by (simp add: unf np nt)
      then show ?thesis using cmd_post_ev [OF refl p5] t4 by auto
    next
      case o
      then have "\<exists>m. report_connect i 0 ss = Some (Some SOCKET_OPEN, m, ss4)" using False by (simp add: unf np)
      then show ?thesis using cmd_post_ev [OF refl p4] t4 by auto
    qed
  qed
qed

lemma stat_read_post:
  assumes "ss_inv xs cs ss" "i < MAX_SOCKET" "\<not> list_uncomplete (s_low (ss_slot ss i))"
  shows "op_post xs cs i ss (stat_read i n ss)" "s_type (ss_slot (stat_read i n ss) i) = s_type (ss_slot ss i)"
  unfolding stat_read_def using assms by (auto intro!: same_post simp: same_queue_def)

lemma p_size_post:
  assumes "ss_inv xs cs ss" "i < MAX_SOCKET" "\<not> list_uncomplete (s_low (ss_slot ss i))"
  shows "op_post xs cs i ss (upd_slot i (s_p_size_update f) ss)"
  using assms by (auto intro!: same_post simp: same_queue_def)

lemma forward_message_tcp_post:
  assumes inv: "ss_inv [] [] ss" and i: "i < MAX_SOCKET" and q: "quiet (ss_slot ss i)" and live: "live (ss_slot ss i)"
  shows "cmd_post i ss (forward_message_tcp i 0 result ss)"
proof -
  let ?s = "ss_slot ss i"
  have nl: "\<not> list_uncomplete (s_low ?s)" and nk: "\<not> s_dw_lock ?s" using q by (auto simp: quiet_def)
  have nr: "s_type ?s \<noteq> SOCKET_TYPE_RESERVE" using live by (rule live_not_reserve)
  obtain a ss1 where na: "next_answer ss = (a, ss1)" by fastforce
  then have p1: "op_post [] [] i ss ss1" and s1: "ss_slot ss1 = ss_slot ss" using os_eq_post [OF os_eq_next _ nl] inv os_eq_slot [OF os_eq_next] by auto
  obtain ss2 where f: "force_close i 0 ss1 = Some (message_of ?s, ss2)" "op_post [] [] i ss ss2" "s_type (ss_slot ss2 i) = SOCKET_TYPE_INVALID"
    using post_force_close [OF p1 i _ nk] live s1 by auto
  obtain ss3 where r: "close_read i ss1 = (message_of ?s, ss3)" "op_post [] [] i ss ss3" "s_type (ss_slot ss3 i) = SOCKET_TYPE_HALFCLOSE_READ"
    using close_read_post [of ss1 i] op_post_keeps [OF p1] i live s1 op_post_trans [OF p1] by auto
  have ps: "op_post [] [] i ss (stat_read i n ss1)" "s_type (ss_slot (stat_read i n ss1) i) = s_type ?s" for n
    using stat_read_post [of "[]" "[]" ss1 i n] op_post_keeps [OF p1] i s1 op_post_trans [OF p1] by auto
  have pp: "op_post [] [] i ss (upd_slot i (s_p_size_update g) (stat_read i n ss1))" for n g
    using p_size_post [of "[]" "[]" "stat_read i n ss1" i g] op_post_keeps [OF ps(1)] i op_post_trans [OF ps(1)] by auto
  note unf = forward_message_tcp_def Let_def na
  let ?bs = "take (s_p_size ?s) (a_data a)"
  have stay: "cmd_post i ss (Some (ev, m, ss1))" if "ev \<noteq> Some SOCKET_CLOSE" for ev m
    using that by (intro cmd_post_ev [OF refl p1]) (simp_all add: s1)
  have closes: "cmd_post i ss (Some (None, message_of ?s, ss2))" using f by (intro cmd_post_ev [OF refl f(2)]) simp_all
  have close_w: "cmd_post i ss (Some (Some SOCKET_CLOSE, message_of ?s, ss2))" if "s_type ?s \<noteq> SOCKET_TYPE_HALFCLOSE_READ"
    using f(3) live that by (intro cmd_postI [OF refl f(2)]) (auto simp: close_ok_def closed_type_def live_def message_of_def)
  have close_r: "cmd_post i ss (Some (Some SOCKET_CLOSE, message_of ?s, ss3))" if "s_type ?s \<noteq> SOCKET_TYPE_HALFCLOSE_READ"
    using r(3) live that by (intro cmd_postI [OF refl r(2)]) (auto simp: close_ok_def closed_type_def live_def message_of_def)
  have data: "cmd_post i ss (Some (ev, m, stat_read i n ss1))" "cmd_post i ss (Some (ev, m, upd_slot i (s_p_size_update g) (stat_read i n ss1)))"
    if "ev \<noteq> Some SOCKET_CLOSE" for ev m n g
    using that nr ps(2) by (auto intro!: cmd_post_ev [OF refl ps(1)] cmd_post_ev [OF refl pp])
  show ?thesis
  proof (cases "a_ret a < 0")
    case True
    then show ?thesis using stay by (simp add: unf)
  next
    case False
    show ?thesis
    proof (cases "?bs = []")
      case True
      then show ?thesis using False stay closes close_w close_r f(1) r(1) by (simp add: unf del: take_eq_Nil)
    next
      case ne: False
      then show ?thesis using False stay data by (simp add: unf halfclose_read_def del: take_eq_Nil)
    qed
  qed
qed

lemma eof_post:
  assumes inv: "ss_inv [] [] ss" and i: "i < MAX_SOCKET" and q: "quiet (ss_slot ss i)" and live: "live (ss_slot ss i)"
  shows "cmd_post i ss (do { (result, ss') \<leftarrow> force_close i 0 ss; Some (if halfclose_read (ss_slot ss i) then None else Some SOCKET_CLOSE, result, ss') })"
proof -
  obtain ss' where f: "force_close i 0 ss = Some (message_of (ss_slot ss i), ss')" "op_post [] [] i ss ss'" "s_type (ss_slot ss' i) = SOCKET_TYPE_INVALID"
    using force_close_post [OF inv i live, of 0] q by (auto simp: quiet_def)
  have "cmd_post i ss (Some (if halfclose_read (ss_slot ss i) then None else Some SOCKET_CLOSE, message_of (ss_slot ss i), ss'))"
    using f(3) live by (intro cmd_postI [OF refl f(2)]) (auto simp: close_ok_def closed_type_def live_def message_of_def halfclose_read_def)
  then show ?thesis using f(1) by simp
qed

end
