(* ===== verification/Socket_Poll.thy ===== *)
theory Socket_Poll
  imports Socket_Steps
begin

text \<open>
  Accepting connections, the dispatch of events and the poll loop: the invariant \<open>server_ok\<close> of the server between the
  turns of the loop, and that a turn keeps it.
\<close>

section \<open>Accepting\<close>

text \<open>
  An id is fresh if no command for a socket that had it before is left in the pipe; ids repeat only after \<open>2 ^ 31\<close> of them.
\<close>

definition req_ids :: "request \<Rightarrow> int list" where
  "req_ids r = (case r of Req_D q \<Rightarrow> [rq_id q] | Req_P q \<Rightarrow> [rq_id q] | Req_A q _ \<Rightarrow> [rq_id q] | Req_K sid _ _ \<Rightarrow> [sid] | _ \<Rightarrow> [])"

definition id_fresh :: "socket_server \<Rightarrow> bool" where
  "id_fresh ss \<longleftrightarrow> (\<forall>sid\<in>new_ids ss. \<forall>r\<in>set (ss_pipe ss). sid \<notin> set (req_ids r))"

lemma fresh_pending_count:
  assumes "id_fresh ss" "sid \<in> new_ids ss"
  shows "pending_count [] (ss_pipe ss) sid = 0"
proof -
  have "sid \<notin> set (map rq_id (req_sends r))" if "r \<in> set (ss_pipe ss)" for r
  proof -
    have "set (map rq_id (req_sends r)) \<subseteq> set (req_ids r)" by (cases r) (simp_all add: req_ids_def req_sends_def)
    then show ?thesis using assms that by (auto simp: id_fresh_def)
  qed
  then have "sid \<notin> set (map rq_id (pipe_sends (ss_pipe ss)))" by auto
  then show ?thesis by (simp add: pending_count_def count_list_0_iff)
qed

lemma new_ids_os: "os_eq ss ss' \<Longrightarrow> new_ids ss' = new_ids ss"
  unfolding new_ids_def reserve_id_def by (subst reserve_loop_cong [of ss' ss]) (auto simp: os_eq_def core_eq_iff)

lemma reserve_os:
  assumes "os_eq ss ss1" "ss_inv [] [] ss" "id_fresh ss" "reserve_id ss1 = (Some sid, ss2)" "ev_ok ss"
  shows "reserved sid ss2" "frame {HASH_ID sid} {} ss ss2" "sid \<in> new_ids ss" "s_type (slot_of sid ss) = SOCKET_TYPE_INVALID" "ev_ok ss2"
    "ss_slot ss2 = (ss_slot ss)(HASH_ID sid := reserved_socket sid (slot_of sid ss))"
proof -
  let ?i = "HASH_ID sid"
  have same: "ss_slot ss1 = ss_slot ss" "ss_pipe ss1 = ss_pipe ss" using os_eq_slot [OF assms(1)] by auto
  show new: "sid \<in> new_ids ss" using assms(4) new_ids_os [OF assms(1)] by (auto simp: new_ids_def)
  from reserve_loop_cases [of MAX_SOCKET ss1 "Some sid" ss2] assms(4) obtain k where
    t: "s_type (slot_of sid ss) = SOCKET_TYPE_INVALID" and ss2: "ss2 = upd_slot ?i (reserved_socket sid) (ss1\<lparr>ss_alloc_id := k\<rparr>)"
    by (auto simp: reserve_id_def same)
  show "s_type (slot_of sid ss) = SOCKET_TYPE_INVALID" by (rule t)
  have inv1: "ss_inv [] [] ss1" using assms(1,2) os_eq_inv by blast
  then have "ss_inv [] [] ss2" unfolding ss2 using t fresh_pending_count [OF assms(3) new] by (intro reserve_inv) (simp_all add: same)
  moreover have ok: "slot_inv [] (ss_pipe ss) (ss_mem ss) ?i (slot_of sid ss)" by (rule ss_inv_slotD [OF assms(2)]) simp
  then have "wb_queue (slot_of sid ss) = []" "sid \<notin> set (pipe_creates (ss_pipe ss))" using t by (auto simp: slot_inv_def slot_ok_def live_def)
  ultimately show "reserved sid ss2" by (auto simp: reserved_def ss2 same reserved_socket_def wb_queue_def list_uncomplete_def)
  have "frame {?i} {} ss1 ss2" unfolding ss2 by (auto simp: frame_def view_def)
  then show fr: "frame {?i} {} ss ss2" using os_eq_frame [OF assms(1)] frame_trans by blast
  show "ev_ok ss2" using ev_ok_frame [OF fr assms(5)] .
  show "ss_slot ss2 = (ss_slot ss)(?i := reserved_socket sid (slot_of sid ss))" by (simp add: ss2 same)
qed

lemma reply_ev: "reply_post T ss (ev, m, ss') \<Longrightarrow> ev' \<noteq> Some SOCKET_CLOSE \<Longrightarrow> reply_post T ss (ev', m', ss')"
  by (simp add: reply_post_def)

text \<open>A slot in which nothing changed that matters to the channel.\<close>

lemma slot_rel_same:
  assumes "quiet (ss_slot ss t)" "chan_of t ss' = chan_of t ss" "s_low (ss_slot ss' t) = s_low (ss_slot ss t)" "s_dw_lock (ss_slot ss' t) = s_dw_lock (ss_slot ss t)"
    "s_type (ss_slot ss' t) = s_type (ss_slot ss t)" "s_id (ss_slot ss' t) = s_id (ss_slot ss t)" "s_fd (ss_slot ss' t) = s_fd (ss_slot ss t)"
  shows "slot_rel None ss ss' t"
  using assms by (simp add: slot_rel_defs quiet_def chan_rel_def)

lemma os_reply:
  assumes "os_eq ss ss'" "ss_inv [] [] ss" "all_quiet ss" "ev_ok ss" "ev \<noteq> Some SOCKET_CLOSE"
  shows "reply_post None ss (ev, m, ss')"
proof -
  have same: "ss_slot ss' = ss_slot ss" "ss_pipe ss' = ss_pipe ss" "ss_mem ss' = ss_mem ss" using os_eq_slot [OF assms(1)] by auto
  have "chan_of t ss' = chan_of t ss" if "t < MAX_SOCKET" for t
    by (rule frame_chan [OF os_eq_frame [OF assms(1)] that, of "{}" "{}"]) simp_all
  then have "slot_rel None ss ss' t" if "t < MAX_SOCKET" for t
    using that assms(3) by (intro slot_rel_same) (simp_all add: same all_quiet_def)
  then show ?thesis using assms os_eq_inv [OF assms(1)] ev_ok_frame [OF os_eq_frame [OF assms(1), of "{}" "{}"]]
    by (simp add: reply_post_def same)
qed

lemma reply_fields:
  assumes "reply_post T ss (e, m, ss1)" "ss_slot ss2 = ss_slot ss1" "ss_mem ss2 = ss_mem ss1" "ss_log ss2 = ss_log ss1" "ss_pipe ss2 = ss_pipe ss1"
    "ss_brk ss2 = ss_brk ss1" "ev_ok ss2" "e' = Some SOCKET_CLOSE \<Longrightarrow> e = Some SOCKET_CLOSE"
  shows "reply_post T ss (e', m, ss2)"
proof -
  have "chan_of t ss2 = chan_of t ss1" for t using assms(2-4) by (simp add: chan_of_def view_def)
  then have "slot_rel T ss ss2 t = slot_rel T ss ss1 t" for t by (simp only: slot_rel_defs assms(2))
  moreover have "ss_inv [] [] ss2 = ss_inv [] [] ss1" using assms(2-6) by (intro ss_inv_core) (simp add: core_def)
  ultimately show ?thesis using assms unfolding reply_post_def by simp
qed

lemma reply_alloc: "reply_post T ss (e, m, ss') \<Longrightarrow> reply_post T ss (e, m, ss'\<lparr>ss_alloc_id := k\<rparr>)"
  by (rule reply_fields [of T ss e m ss']) (simp_all add: reply_post_def ev_ok_def)

lemma reserve_none:
  assumes "reserve_id ss = (None, ss')" shows "\<exists>k. ss' = ss\<lparr>ss_alloc_id := k\<rparr>"
  using assms reserve_loop_cases [of MAX_SOCKET ss None ss'] by (simp add: reserve_id_def)

text \<open>A step that turns a free slot into a new socket, which may also change what does not matter of another one.\<close>

lemma born_reply:
  assumes inv: "ss_inv [] [] ss'" and fr: "frame {j} {} ss ss1" and j: "j < MAX_SOCKET" "s_type (ss_slot ss j) = SOCKET_TYPE_INVALID"
    and quiet: "all_quiet ss" and ev: "ev_ok ss" and sid: "s_id (ss_slot ss1 j) = sid" "sid \<in> new_ids ss" "quiet (ss_slot ss1 j)"
      "s_type (ss_slot ss1 j) \<noteq> SOCKET_TYPE_RESERVE" and ij: "i \<noteq> j" "i < MAX_SOCKET"
    and ss': "os_eq (stat_read i n ss1) ss' \<or> os_eq ss1 ss'" and nc: "e \<noteq> Some SOCKET_CLOSE"
  shows "reply_post None ss (e, m, ss')"
proof -
  define ss2 where "ss2 = (if os_eq ss1 ss' then ss1 else stat_read i n ss1)"
  have e2: "os_eq ss2 ss'" using ss' by (auto simp: ss2_def)
  have fr2: "frame {i, j} {} ss ss2"
  proof -
    have "frame {i, j} {} ss ss1" using fr by (rule frame_mono) auto
    moreover then have "frame {i, j} {} ss (stat_read i n ss1)" unfolding stat_read_def by (rule frame_trans) (simp add: frame_upd_slot)
    ultimately show ?thesis by (simp add: ss2_def)
  qed
  then have fr': "frame {i, j} {} ss ss'" using os_eq_frame [OF e2] frame_trans by blast
  have same: "ss_slot ss' = ss_slot ss2" "ss_pipe ss' = ss_pipe ss2" "ss_mem ss' = ss_mem ss2" using os_eq_slot [OF e2] by auto
  have old: "ss_slot ss1 i = ss_slot ss i" "view i ss1 = view i ss" "out (s_fd (ss_slot ss i)) ss1 = out (s_fd (ss_slot ss i)) ss"
    using fr ij by (auto simp: frame_def)
  have "view i ss2 = view i ss1" by (simp add: ss2_def view_def stat_read_def wb_queue_def)
  then have "view i ss' = view i ss" using old(2) e2 view_core [of ss' ss2 i] by (simp only: os_eq_def)
  moreover have "s_fd (ss_slot ss' i) = s_fd (ss_slot ss i)" "s_low (ss_slot ss' i) = s_low (ss_slot ss i)" "ss_log ss2 = ss_log ss1"
    using old(1) by (simp_all add: same ss2_def stat_read_def)
  moreover have "out (s_fd (ss_slot ss i)) ss' = out (s_fd (ss_slot ss i)) ss2" using e2 by (simp only: os_eq_def)
  ultimately have vi: "chan_of i ss' = chan_of i ss" using old(3) by (simp only: chan_of_def)
  have "slot_rel None ss ss' t" if t: "t < MAX_SOCKET" for t
  proof (cases "t \<in> {i, j}")
    case False
    then have "chan_of t ss' = chan_of t ss" "ss_slot ss' t = ss_slot ss t" using frame_chan [OF fr' t] fr' t by (auto simp: frame_def)
    then show ?thesis using quiet t by (intro slot_rel_same) (auto simp: all_quiet_def)
  next
    case True
    then consider "t = i" | "t = j" by blast
    then show ?thesis
    proof cases
      case 1
      then show ?thesis using vi quiet ij(2) old(1) by (intro slot_rel_same) (auto simp: all_quiet_def same ss2_def stat_read_def)
    next
      case 2
      then have "ss_slot ss' t = ss_slot ss1 j" using ij(1) by (auto simp: same ss2_def stat_read_def)
      then show ?thesis using sid j(2) 2 by (simp add: slot_rel_defs live_def)
    qed
  qed
  then show ?thesis using inv nc ev_ok_frame [OF fr' ev] fr' by (simp add: reply_post_def frame_def)
qed

lemma stat_read_set_type: "i \<noteq> j \<Longrightarrow> set_type j t (stat_read i n ss) = stat_read i n (set_type j t ss)"
  by (simp add: set_type_def stat_read_def upd_slot_def fun_upd_twist)

lemma report_accept_post:
  assumes inv: "ss_inv [] [] ss" and i: "i < MAX_SOCKET" and quiet: "all_quiet ss" and ev: "ev_ok ss" and id_fresh: "id_fresh ss"
    and t: "s_type (ss_slot ss i) = SOCKET_TYPE_LISTEN"
  shows "\<exists>ok m ss'. report_accept i result ss = Some (ok, m, ss') \<and> (\<forall>e. e \<noteq> Some SOCKET_CLOSE \<longrightarrow> reply_post None ss (e, m, ss'))"
proof -
  obtain a ss1 where na: "next_answer ss = (a, ss1)" by fastforce
  have e1: "os_eq ss ss1" by (rule os_eq_next [OF na])
  note os = os_reply [OF _ inv quiet ev]
  show ?thesis
  proof (cases "a_ret a < 0")
    case True
    let ?k = "klog (K_close (ss_reserve_fd ss1)) ss1"
    obtain b ss2 where nb: "next_answer ?k = (b, ss2)" by fastforce
    define ss3 where "ss3 = (if a_ret b \<ge> 0 then klog (K_close (a_ret b)) ss2 else ss2)"
    obtain c ss4 where nc: "next_answer ss3 = (c, ss4)" by fastforce
    have "os_eq ss1 ?k" "os_eq ss2 ss3" by (simp_all add: os_eq_klog ss3_def)
    then have "os_eq ss ss4" using e1 os_eq_next [OF nb] os_eq_next [OF nc] os_eq_trans by blast
    then have "os_eq ss (ss4\<lparr>ss_reserve_fd := a_ret c\<rparr>)" by (simp add: os_eq_def core_def)
    then show ?thesis using True os e1
      by (auto simp: report_accept_def Let_def na nb ss3_def [symmetric] nc)
  next
    case False
    obtain rid ss2 where r: "reserve_id ss1 = (rid, ss2)" by fastforce
    show ?thesis
    proof (cases rid)
      case None
      then obtain k where k: "ss2 = ss1\<lparr>ss_alloc_id := k\<rparr>" using reserve_none r by blast
      have "os_eq ss (klog (K_close (a_ret a)) ss1)" using e1 by (rule os_eq_trans) (simp add: os_eq_klog)
      then have "reply_post None ss (e, m, klog (K_close (a_ret a)) ss2)" if "e \<noteq> Some SOCKET_CLOSE" for e m
        using os [of _ e m] that reply_alloc [of None ss e m "klog (K_close (a_ret a)) ss1" k]
        by (cases ss1) (simp add: k klog_def)
      then show ?thesis using False None r by (auto simp: report_accept_def Let_def na)
    next
      case (Some sid)
      let ?j = "HASH_ID sid"
      note res = reserve_os [OF e1 inv id_fresh _ ev, of sid ss2]
      have r': "reserve_id ss1 = (Some sid, ss2)" using r Some by simp
      define ss3 where "ss3 = klog (K_nonblocking (a_ret a)) (klog (K_setsockopt (a_ret a) 9 1) ss2)"
      have e3: "os_eq ss2 ss3" unfolding ss3_def by (auto intro: os_eq_trans os_eq_klog)
      obtain ns ss4 where n: "new_fd sid (a_ret a) PROTOCOL_TCP (s_opaque (ss_slot ss i)) False ss3 = Some (ns, ss4)" "new_fd_post [] [] ?j sid ns ss3 ss4"
        by (rule reserved_new_fd [OF reserved_os [OF res(1) [OF r'] e3]])
      have ij: "i \<noteq> ?j" using t res(4) [OF r'] by auto
      have born: "reply_post None ss (e, m, ss')" if "create_post ?j sid ss3 ss5" "os_eq (stat_read i 1 ss5) ss' \<or> os_eq ss5 ss'" "e \<noteq> Some SOCKET_CLOSE" for ss5 ss' e m
      proof -
        have c: "create_post ?j sid ss2 ss5" by (rule os_create [OF e3 that(1)])
        have fr: "frame {?j} {} ss ss5" using frame_trans [OF res(2) [OF r']] c by (simp add: create_post_def)
        have lock: "s_dw_lock (ss_slot ss2 ?j) = s_dw_lock (ss_slot ss ?j)" by (simp add: res(6) [OF r'] reserved_socket_def)
        have q5: "quiet (ss_slot ss5 ?j)" using c quiet lock by (simp add: create_post_def quiet_def all_quiet_def)
        have "ss_slot ss5 i = ss_slot ss i" using fr i ij by (auto simp: frame_def)
        then have "\<not> list_uncomplete (s_low (ss_slot ss5 i))" using quiet i by (simp add: all_quiet_def quiet_def)
        then have "ss_inv [] [] (stat_read i 1 ss5)" "ss_inv [] [] ss5" using c stat_read_post(1) [of "[]" "[]" ss5 i 1] i
          by (auto simp: create_post_def op_post_def)
        then have "ss_inv [] [] ss'" using that(2) os_eq_inv by blast
        then show ?thesis using c q5 res(3,4) [OF r'] that(2,3)
          by (intro born_reply [OF _ fr HASH_ID_bound _ quiet ev refl _ q5 _ ij i]) (auto simp: create_post_def)
      qed
      show ?thesis
      proof (cases ns)
        case None
        have "reply_post None ss (e, m, klog (K_close (a_ret a)) ss4)" if "e \<noteq> Some SOCKET_CLOSE" for e m
          using that not_created [OF n(2) [unfolded None]] by (intro born [of ss4]) (simp_all add: os_eq_klog)
        then show ?thesis using False Some None r n(1) by (auto simp: report_accept_def Let_def na ss3_def [symmetric])
      next
        case (Some j')
        then have j': "j' = ?j" using n(2) by (simp add: new_fd_post_def)
        obtain nm ss5 where g: "getname (a_addr a) (stat_read i 1 (set_type ?j SOCKET_TYPE_PACCEPT ss4)) = (nm, ss5)" by fastforce
        have "create_post ?j sid ss3 (set_type ?j SOCKET_TYPE_PACCEPT ss4)" using created n(2) Some by simp
        then have "reply_post None ss (e, m, ss5)" if "e \<noteq> Some SOCKET_CLOSE" for e m
          using that os_eq_getname [OF g] by (intro born [of "set_type ?j SOCKET_TYPE_PACCEPT ss4"]) simp_all
        then show ?thesis using False \<open>rid = Some sid\<close> Some r n(1) g
          by (auto simp: report_accept_def Let_def na ss3_def [symmetric] j' stat_read_set_type [OF ij])
      qed
    qed
  qed
qed

section \<open>The poll loop\<close>

lemma send_buffer_post:
  assumes "ss_inv [] [] ss" "i < MAX_SOCKET" "quiet (ss_slot ss i)" "live (ss_slot ss i)"
  shows "cmd_post i ss (send_buffer i 0 result ss)"
proof -
  obtain ev r ss' where s: "send_buffer i 0 result ss = Some (ev, r, ss')" "op_post [] [] i ss ss'" "write_event ev"
    using send_buffer_spec [OF assms(1,2,4)] assms(3) unfolding quiet_def by blast
  have "s_type (ss_slot ss' i) \<noteq> SOCKET_TYPE_RESERVE"
    using s(2) live_not_reserve [OF assms(4)] by (metis op_post_def tcp_step_defs)
  then show ?thesis using s by (intro cmd_postI [OF s(1,2)]) (auto simp: write_event_def close_ok_def)
qed

lemma dispatch_event_post:
  assumes inv: "ss_inv [] [] ss" and i: "i < MAX_SOCKET" and quiet: "all_quiet ss" and ev: "ev_ok ss" and live: "live (ss_slot ss i)"
    and e: "e_s e = Some i"
  shows "\<exists>r. dispatch_event i e result ss = Some r \<and> reply_post None ss r"
proof -
  let ?bk = "\<lambda>ss :: socket_server. ss\<lparr>ss_event_index := ss_event_index ss - 1\<rparr>"
  have q: "quiet (ss_slot ss i)" using quiet i by (simp add: all_quiet_def)
  have tcp: "s_protocol (ss_slot ss i) = PROTOCOL_TCP" using ss_inv_slotD [OF inv i] live by (simp add: slot_inv_def slot_ok_def)
  note reply = cmd_reply [OF _ i quiet ev]
  show ?thesis
  proof (cases "e_read e")
    case True
    obtain type m ss1 where f: "forward_message_tcp i 0 result ss = Some (type, m, ss1)" "reply_post None ss (type, m, ss1)"
      using reply [OF forward_message_tcp_post [OF inv i q live, of result]] by auto
    let ?es = "(ss_ev ss1)[ss_event_index ss1 - 1 := e\<lparr>e_read := False\<rparr>]"
    have ev1: "ev_ok ss1" using f(2) by (simp add: reply_post_def)
    then have ev2: "ev_ok (?bk (ss1\<lparr>ss_ev := ?es\<rparr>))" "ev_ok (?bk ss1)"
      using i e unfolding ev_ok_def by (auto dest!: set_update_subset_insert [THEN subsetD])
    have change: "reply_post None ss (type', m, ?bk (ss1\<lparr>ss_ev := es\<rparr>))"
      if "ev_ok (?bk (ss1\<lparr>ss_ev := es\<rparr>))" "type' = Some SOCKET_CLOSE \<Longrightarrow> type = Some SOCKET_CLOSE" for es type'
      using that by (intro reply_fields [OF f(2)]) simp_all
    have "?bk (ss1\<lparr>ss_ev := ss_ev ss1\<rparr>) = ?bk ss1" by simp
    then have "reply_post None ss (Some SOCKET_DATA, m, ?bk ss1)" "reply_post None ss (Some SOCKET_UDP, m, ?bk ss1)"
      "type \<noteq> Some SOCKET_CLOSE \<Longrightarrow> reply_post None ss (type, m, ?bk (ss1\<lparr>ss_ev := ?es\<rparr>))"
      using change [of "ss_ev ss1" "Some SOCKET_DATA"] change [of "ss_ev ss1" "Some SOCKET_UDP"] change [of ?es type] ev2 by simp_all
    then show ?thesis using True f tcp by (simp add: dispatch_event_def Let_def)
  next
    case nr: False
    obtain r where w: "send_buffer i 0 result ss = Some r" "reply_post None ss r"
      using reply [OF send_buffer_post [OF inv i q live, of result]] by auto
    obtain a ss1 where na: "next_answer ss = (a, ss1)" by fastforce
    have "reply_post None ss (Some SOCKET_ERR, m, ss1)" for m by (rule os_reply [OF os_eq_next [OF na] inv quiet ev]) simp
    moreover obtain r' where "(do { (result, ss') \<leftarrow> force_close i 0 ss; Some (if halfclose_read (ss_slot ss i) then None else Some SOCKET_CLOSE, result, ss') }) = Some r'"
      "reply_post None ss r'" using reply [OF eof_post [OF inv i q live]] by auto
    moreover have "reply_post None ss (None, result, ss)" by (rule exit_post [OF inv quiet ev]) simp
    ultimately show ?thesis using nr w na by (cases "e_write e"; cases "e_error e"; cases "e_eof e") (auto simp: dispatch_event_def Let_def)
  qed
qed

lemma poll_event_post:
  assumes inv: "ss_inv [] [] ss" and i: "i < MAX_SOCKET" and quiet: "all_quiet ss" and ev: "ev_ok ss" and id_fresh: "id_fresh ss"
    and e: "e_s e = Some i" and nr: "s_type (ss_slot ss i) \<noteq> SOCKET_TYPE_RESERVE"
  shows "\<exists>r. poll_event i e result ss = Some r \<and> reply_post None ss r"
proof -
  have q: "quiet (ss_slot ss i)" using quiet i by (simp add: all_quiet_def)
  consider "s_type (ss_slot ss i) = SOCKET_TYPE_CONNECTING" | "s_type (ss_slot ss i) = SOCKET_TYPE_LISTEN" | "s_type (ss_slot ss i) = SOCKET_TYPE_INVALID"
    | "live (ss_slot ss i)" "s_type (ss_slot ss i) \<notin> {SOCKET_TYPE_CONNECTING, SOCKET_TYPE_LISTEN, SOCKET_TYPE_INVALID, SOCKET_TYPE_RESERVE}"
    using nr by (auto simp: live_def)
  then show ?thesis
  proof cases
    case 1
    then show ?thesis using cmd_reply [OF report_connect_post [OF inv i q 1] i quiet ev] by (simp add: poll_event_def)
  next
    case 2
    obtain ok m ss' where a: "report_accept i result ss = Some (ok, m, ss')" "\<forall>e. e \<noteq> Some SOCKET_CLOSE \<longrightarrow> reply_post None ss (e, m, ss')"
      using report_accept_post [OF inv i quiet ev id_fresh 2] by blast
    then show ?thesis using 2 by (auto simp: poll_event_def)
  next
    case 3
    then show ?thesis using exit_post [OF inv quiet ev] by (simp add: poll_event_def)
  next
    case 4
    then have "poll_event i e result ss = dispatch_event i e result ss" by (auto simp: poll_event_def split: socket_type.splits)
    then show ?thesis using dispatch_event_post [OF inv i quiet ev 4(1) e] by simp
  qed
qed

section \<open>The invariant of the server\<close>

text \<open>No command to close a socket stands before the command that creates it.\<close>

fun kill_order :: "request list \<Rightarrow> bool" where
  "kill_order [] = True"
| "kill_order (r # rs) = ((case r of Req_K sid _ _ \<Rightarrow> sid \<notin> set (pipe_creates rs) | _ \<Rightarrow> True) \<and> kill_order rs)"

definition reserve_ok :: "socket_server \<Rightarrow> bool" where
  "reserve_ok ss \<longleftrightarrow> (\<forall>i<MAX_SOCKET. s_type (ss_slot ss i) = SOCKET_TYPE_RESERVE \<longrightarrow> s_id (ss_slot ss i) \<in> set (pipe_creates (ss_pipe ss)))"

definition server_ok :: "socket_server \<Rightarrow> bool" where
  "server_ok ss \<longleftrightarrow> ss_inv [] [] ss \<and> all_quiet ss \<and> ev_ok ss \<and> kill_order (ss_pipe ss) \<and> reserve_ok ss"

text \<open>The events a turn of the loop takes from the operating system or has left from before.\<close>

definition next_events :: "socket_server \<Rightarrow> event list" where
  "next_events ss = (if ss_checkctrl ss \<and> ss_pipe ss \<noteq> [] then []
     else if ss_event_index ss = length (ss_ev ss) then take MAX_EVENT (a_events (fst (next_answer ss)))
     else drop (ss_event_index ss) (ss_ev ss))"

text \<open>The events are for slots in use, and the next id is not in the pipe.\<close>

definition poll_ok :: "socket_server \<Rightarrow> bool" where
  "poll_ok ss \<longleftrightarrow> id_fresh ss \<and>
     (\<forall>e\<in>set (next_events ss). \<forall>i. e_s e = Some i \<longrightarrow> i < MAX_SOCKET \<and> s_type (ss_slot ss i) \<noteq> SOCKET_TYPE_RESERVE)"

definition step_post :: "taken \<Rightarrow> socket_server \<Rightarrow> reply \<Rightarrow> bool" where
  "step_post T ss r \<longleftrightarrow> (case r of (ev, m, ss') \<Rightarrow> server_ok ss' \<and> (\<forall>t<MAX_SOCKET. slot_step T ss ss' t)
     \<and> (\<forall>q\<in>set (pipe_sends (ss_pipe ss)) \<inter> set (pipe_sends (ss_pipe ss')). rq_bytes (ss_mem ss') q = rq_bytes (ss_mem ss) q)
     \<and> (ev = Some SOCKET_CLOSE \<longrightarrow> (\<exists>i<MAX_SOCKET. sm_id m = s_id (ss_slot ss i) \<and> s_type (ss_slot ss i) \<noteq> SOCKET_TYPE_RESERVE \<and>
          \<not> closed_type (s_type (ss_slot ss i)) \<and> closed_type (s_type (ss_slot ss' i)) \<and> s_id (ss_slot ss' i) = s_id (ss_slot ss i))))"

lemma reply_step:
  assumes "server_ok ss" "reply_post T ss (ev, m, ss')"
  shows "step_post T ss (ev, m, ss')"
proof -
  have r: "ss_inv [] [] ss'" "ev_ok ss'" "ss_pipe ss' = ss_pipe ss" and s: "\<And>t. t < MAX_SOCKET \<Longrightarrow> slot_rel T ss ss' t"
    using assms(2) by (auto simp: reply_post_def)
  have "all_quiet ss'" using s by (auto simp: all_quiet_def slot_rel_defs)
  moreover have "reserve_ok ss'" using s assms(1) unfolding reserve_ok_def server_ok_def slot_rel_defs r(3) by metis
  ultimately have "server_ok ss'" using r assms(1) by (simp add: server_ok_def)
  then show ?thesis using assms(2) s by (auto simp: step_post_def reply_post_def slot_rel_def)
qed

text \<open>A state that differs in fields the steps do not depend on.\<close>

definition same_state :: "socket_server \<Rightarrow> socket_server \<Rightarrow> bool" where
  "same_state ss ss' \<longleftrightarrow> ss_slot ss' = ss_slot ss \<and> ss_mem ss' = ss_mem ss \<and> ss_log ss' = ss_log ss \<and> ss_alloc_id ss' = ss_alloc_id ss \<and> ss_brk ss' = ss_brk ss"

lemma new_ids_same: "same_state ss ss' \<Longrightarrow> new_ids ss' = new_ids ss"
  unfolding new_ids_def reserve_id_def by (subst reserve_loop_cong [of ss' ss]) (auto simp: same_state_def)

lemma slot_step_start:
  assumes "same_state ss0 ss"
  shows "slot_step T ss ss' t = slot_step T ss0 ss' t"
proof -
  have "chan_of t ss = chan_of t ss0" "fds_distinct ss = fds_distinct ss0" using assms by (simp_all add: same_state_def chan_of_def view_def fds_distinct_def)
  then show ?thesis using assms new_ids_same [OF assms] by (simp add: slot_step_def same_state_def)
qed

lemma step_start:
  assumes "same_state ss0 ss" "ss_pipe ss = ss_pipe ss0" "step_post T ss r"
  shows "step_post T ss0 r"
  using assms slot_step_start [OF assms(1)] by (auto simp: step_post_def same_state_def split: prod.splits)

lemma server_ok_events:
  assumes "server_ok ss" "same_state ss ss'" "ss_pipe ss' = ss_pipe ss" "ev_ok ss'"
  shows "server_ok ss'"
proof -
  have "ss_inv [] [] ss' = ss_inv [] [] ss" using assms(2,3) by (intro ss_inv_core) (simp add: core_def same_state_def)
  then show ?thesis using assms by (simp add: server_ok_def all_quiet_def reserve_ok_def same_state_def)
qed

section \<open>A command from the pipe\<close>

lemma ctrl_cmd_post:
  assumes ok: "server_ok ss" and p: "ss_pipe ss = req # reqs"
  shows "\<exists>r. ctrl_cmd result ss = Some r \<and> step_post (take_of req ss) ss r \<and> ss_pipe (snd (snd r)) = reqs"
proof -
  let ?p = "ss\<lparr>ss_pipe := reqs\<rparr>"
  have inv: "ss_inv [] [] ss" and quiet: "all_quiet ss" and ev: "ev_ok ss" and ko: "kill_order (req # reqs)" and ro: "reserve_ok ss"
    using ok by (auto simp: server_ok_def p)
  have pop: "ss_inv (map rq_buffer (req_sends req)) (map rq_id (req_sends req)) ?p" using ss_inv_pop [OF inv p] by simp
  have tcp: "tcp_request req" and sends: "\<forall>q\<in>set (req_sends req). req_ok (ss_mem ?p) q" and dist: "distinct (pipe_creates (req # reqs))"
    using inv by (auto simp: ss_inv_def p)
  have "req_creates req \<noteq> [] \<longrightarrow> req_sends req = []" by (cases req) (simp_all add: req_creates_def req_sends_def)
  then have creates: "\<forall>sid\<in>set (req_creates req). reserved sid ?p"
    using pop dist quiet ss_inv_slotD [OF inv HASH_ID_bound] by (auto simp: reserved_def slot_inv_def p all_quiet_def quiet_def)
  have kill: "\<not> (s_type (slot_of sid ?p) = SOCKET_TYPE_RESERVE \<and> s_id (slot_of sid ?p) = sid)" if "req = Req_K sid b op" for sid b op
  proof
    assume "s_type (slot_of sid ?p) = SOCKET_TYPE_RESERVE \<and> s_id (slot_of sid ?p) = sid"
    then have "sid \<in> set (pipe_creates (req # reqs))" using ro HASH_ID_bound [of sid] unfolding reserve_ok_def p by fastforce
    moreover have "req_creates req = []" using that by (simp add: req_creates_def)
    ultimately show False using ko that by simp
  qed
  obtain r where r: "do_request req result ?p = Some r" "reply_post (take_of req ?p) ?p r"
    "\<forall>sid\<in>set (req_creates req). s_type (slot_of sid (snd (snd r))) \<noteq> SOCKET_TYPE_RESERVE"
    using do_request_post [where result = result, OF pop _ _ tcp sends creates] kill quiet ev by (auto simp: all_quiet_def ev_ok_def)
  obtain e m ss' where r': "r = (e, m, ss')" by (cases r)
  have t: "take_of req ?p = take_of req ss" by (simp add: take_of_def split: request.splits)
  have post: "ss_inv [] [] ss'" "ev_ok ss'" "ss_pipe ss' = reqs" and s: "\<And>t. t < MAX_SOCKET \<Longrightarrow> slot_rel (take_of req ss) ?p ss' t"
    using r(2) by (auto simp: reply_post_def r' t)
  have "all_quiet ss'" using s by (auto simp: all_quiet_def slot_rel_defs)
  moreover have "reserve_ok ss'" unfolding reserve_ok_def
  proof (intro allI impI)
    fix i assume i: "i < MAX_SOCKET" "s_type (ss_slot ss' i) = SOCKET_TYPE_RESERVE"
    then have "s_type (ss_slot ss i) = SOCKET_TYPE_RESERVE" and id: "s_id (ss_slot ss' i) = s_id (ss_slot ss i)" using s [OF i(1)] by (auto simp: slot_rel_defs)
    then have "s_id (ss_slot ss i) \<in> set (pipe_creates (req # reqs))" "HASH_ID (s_id (ss_slot ss i)) = i"
      using ro i(1) ss_inv_slotD [OF inv i(1)] by (auto simp: reserve_ok_def p slot_inv_def)
    then show "s_id (ss_slot ss' i) \<in> set (pipe_creates (ss_pipe ss'))" using r(3) i(2) id post(3) by (auto simp: r')
  qed
  ultimately have "server_ok ss'" using post ko by (simp add: server_ok_def)
  moreover have "slot_step (take_of req ss) ss ss' t" if "t < MAX_SOCKET" for t
    using s [OF that, unfolded slot_rel_def] slot_step_start [of ss ?p] by (simp add: same_state_def)
  ultimately have "step_post (take_of req ss) ss r" using r(2) post(3) p by (auto simp: step_post_def reply_post_def r')
  with r(1) post(3) show ?thesis by (simp add: ctrl_cmd_def p r')
qed

section \<open>A turn of the loop\<close>

lemma clear_event_length [simp]: "length (clear_event sl sid es) = length es"
  by (induction sl sid es rule: clear_event.induct) (auto split: option.splits)

lemma clear_event_slot: "e \<in> set (clear_event sl sid es) \<Longrightarrow> e_s e = Some i \<Longrightarrow> \<exists>e'\<in>set es. e_s e' = Some i"
  by (induction sl sid es rule: clear_event.induct) (auto split: option.splits if_splits)

lemma ev_ok_clear: "ev_ok ss \<Longrightarrow> ev_ok (clear_closed_event m t ss)"
proof -
  assume ok: "ev_ok ss"
  let ?es = "drop (ss_event_index ss) (ss_ev ss)"
  have "i < MAX_SOCKET" if mem: "e \<in> set (clear_event (ss_slot ss) (sm_id m) ?es)" "e_s e = Some i" for e i
  proof -
    obtain e' where "e' \<in> set ?es" "e_s e' = Some i" using clear_event_slot [OF mem] by blast
    then show ?thesis using ok in_set_dropD unfolding ev_ok_def by fastforce
  qed
  then show ?thesis using ok by (auto simp: clear_closed_event_def ev_ok_def dest: in_set_takeD)
qed

lemma step_events:
  assumes "step_post T ss (e, m, ss')" "same_state ss' ss''" "ss_pipe ss'' = ss_pipe ss'" "ev_ok ss''"
  shows "step_post T ss (e, m, ss'')"
proof -
  have "chan_of t ss'' = chan_of t ss'" for t using assms(2) by (simp add: chan_of_def view_def same_state_def)
  then have "slot_step T ss ss'' t = slot_step T ss ss' t" for t using assms(2) by (simp add: slot_step_def same_state_def)
  then show ?thesis using assms server_ok_events [OF _ assms(2-4)] by (auto simp: step_post_def same_state_def)
qed

text \<open>The state after a turn, and the event it returns.\<close>

definition turn_reply :: "poll_state + socket_event \<times> poll_state \<Rightarrow> reply" where
  "turn_reply r = (case r of Inl (m, _, ss) \<Rightarrow> (None, m, ss) | Inr (ev, m, _, ss) \<Rightarrow> (Some ev, m, ss))"

lemma turn_poll_result [simp]: "turn_reply (poll_result b r) = r"
  by (cases r; cases "fst r") (auto simp: turn_reply_def poll_result_def)

lemma next_event_post:
  assumes ok: "server_ok ss" and id_fresh: "id_fresh ss" and idx: "ss_event_index ss < length (ss_ev ss)"
    and e: "\<forall>i. e_s (ss_ev ss ! ss_event_index ss) = Some i \<longrightarrow> i < MAX_SOCKET \<and> s_type (ss_slot ss i) \<noteq> SOCKET_TYPE_RESERVE"
  shows "\<exists>r. next_event b result ss = Some r \<and> step_post None ss (turn_reply r) \<and> ss_pipe (snd (snd (turn_reply r))) = ss_pipe ss"
proof -
  let ?e = "ss_ev ss ! ss_event_index ss" and ?i = "ss\<lparr>ss_event_index := ss_event_index ss + 1\<rparr>"
  have same: "same_state ss ?i" by (simp add: same_state_def)
  have ev: "ev_ok ?i" using ok idx by (simp add: server_ok_def ev_ok_def)
  have ok': "server_ok ?i" by (rule server_ok_events [OF ok same _ ev]) simp
  have id_fresh': "id_fresh ?i" using id_fresh new_ids_same [OF same] by (simp add: id_fresh_def)
  show ?thesis
  proof (cases "e_s ?e")
    case None
    have "step_post None ?i (None, result, ?i)" using ok' by (intro reply_step exit_post) (simp_all add: server_ok_def)
    then have "step_post None ss (None, result, ?i)" using step_start [OF same] by simp
    then show ?thesis using None by (simp add: next_event_def turn_reply_def)
  next
    case (Some i)
    then obtain r where r: "poll_event i ?e result ?i = Some r" "reply_post None ?i r"
      using poll_event_post [of ?i i ?e result] ok' id_fresh' e by (auto simp: server_ok_def)
    have "step_post None ss r" using step_start [OF same _ reply_step [OF ok', of None]] r(2) by (cases r) simp
    moreover have "ss_pipe (snd (snd r)) = ss_pipe ss" using r(2) by (cases r) (simp add: reply_post_def)
    ultimately show ?thesis using Some r(1) by (simp add: next_event_def)
  qed
qed

lemma poll_step_post:
  assumes ok: "server_ok ss" and pok: "poll_ok ss"
  shows "\<exists>r. poll_step (result, b, ss) = Some r \<and>
    (if ss_checkctrl ss \<and> ss_pipe ss \<noteq> []
     then step_post (take_of (hd (ss_pipe ss)) ss) ss (turn_reply r) \<and> ss_pipe (snd (snd (turn_reply r))) = tl (ss_pipe ss)
     else step_post None ss (turn_reply r) \<and> ss_pipe (snd (snd (turn_reply r))) = ss_pipe ss)"
proof (cases "ss_checkctrl ss \<and> ss_pipe ss \<noteq> []")
  case True
  then obtain req reqs where p: "ss_pipe ss = req # reqs" by (cases "ss_pipe ss") auto
  obtain type m ss1 where c: "ctrl_cmd result ss = Some (type, m, ss1)" "step_post (take_of req ss) ss (type, m, ss1)" "ss_pipe ss1 = reqs"
    using ctrl_cmd_post [OF ok p, of result] by auto
  define ss2 where "ss2 = (case type of None \<Rightarrow> ss1 | Some t \<Rightarrow> clear_closed_event m t ss1)"
  have "ev_ok ss1" using c(2) by (simp add: step_post_def server_ok_def)
  then have "ev_ok ss2" by (simp add: ss2_def ev_ok_clear split: option.splits)
  moreover have "same_state ss1 ss2" "ss_pipe ss2 = ss_pipe ss1" by (auto simp: ss2_def same_state_def clear_closed_event_def split: option.splits)
  ultimately have "step_post (take_of req ss) ss (type, m, ss2)" "ss_pipe ss2 = reqs" using step_events [OF c(2)] c(3) by auto
  then show ?thesis using True c(1) p by (simp add: poll_step_def ss2_def)
next
  case False
  let ?c = "ss\<lparr>ss_checkctrl := False\<rparr>"
  have id_fresh: "id_fresh ss" using pok by (simp add: poll_ok_def)
  show ?thesis
  proof (cases "ss_event_index ss = length (ss_ev ss)")
    case True
    obtain a ss1 where na: "next_answer ?c = (a, ss1)" by fastforce
    have na': "fst (next_answer ss) = a" using na by (auto simp: next_answer_def split: list.splits)
    define es where "es = take MAX_EVENT (a_events a)"
    define ss2 where "ss2 = ss1\<lparr>ss_checkctrl := True, ss_event_index := 0, ss_ev := es\<rparr>"
    have es: "\<forall>e\<in>set es. \<forall>i. e_s e = Some i \<longrightarrow> i < MAX_SOCKET \<and> s_type (ss_slot ss i) \<noteq> SOCKET_TYPE_RESERVE"
      using pok False True na' by (auto simp: poll_ok_def next_events_def es_def)
    have same: "same_state ss ss2" "ss_pipe ss2 = ss_pipe ss" using next_answer_keeps [OF na] by (auto simp: ss2_def same_state_def)
    have ev: "ev_ok ss2" using es by (auto simp: ev_ok_def ss2_def)
    have ok2: "server_ok ss2" by (rule server_ok_events [OF ok same ev])
    have fresh2: "id_fresh ss2" using id_fresh new_ids_same [OF same(1)] same(2) by (simp add: id_fresh_def)
    have step: "poll_step (result, b, ss) = (if es = [] then Some (Inl (result, False, ss2)) else next_event False result ss2)"
      using False True na by (auto simp: poll_step_def Let_def es_def ss2_def)
    show ?thesis
    proof (cases "es = []")
      case True
      have "step_post None ss2 (None, result, ss2)" using ok2 by (intro reply_step exit_post) (simp_all add: server_ok_def)
      then have "step_post None ss (None, result, ss2)" by (rule step_start [OF same])
      then show ?thesis using True False same(2) by (auto simp: step turn_reply_def)
    next
      case ne: False
      then have "es ! 0 \<in> set es" by (intro nth_mem) simp
      with es have "\<forall>i. e_s (es ! 0) = Some i \<longrightarrow> i < MAX_SOCKET \<and> s_type (ss_slot ss i) \<noteq> SOCKET_TYPE_RESERVE" by blast
      then obtain r where r: "next_event False result ss2 = Some r" "step_post None ss2 (turn_reply r)" "ss_pipe (snd (snd (turn_reply r))) = ss_pipe ss2"
        using next_event_post [OF ok2 fresh2, of False result] ne same(1) by (auto simp: ss2_def same_state_def)
      then show ?thesis using ne False step_start [OF same] same(2) by (auto simp: step)
    qed
  next
    case nidx: False
    have same: "same_state ss ?c" "ss_pipe ?c = ss_pipe ss" by (simp_all add: same_state_def)
    have idx: "ss_event_index ss < length (ss_ev ss)" using ok nidx by (auto simp: server_ok_def ev_ok_def)
    have okc: "server_ok ?c" using ok by (intro server_ok_events [OF ok same]) (simp add: server_ok_def ev_ok_def)
    have freshc: "id_fresh ?c" using id_fresh new_ids_same [OF same(1)] by (simp add: id_fresh_def)
    have "ss_ev ss ! ss_event_index ss \<in> set (drop (ss_event_index ss) (ss_ev ss))" using idx by (metis Cons_nth_drop_Suc list.set_intros(1))
    then have "\<forall>i. e_s (ss_ev ss ! ss_event_index ss) = Some i \<longrightarrow> i < MAX_SOCKET \<and> s_type (ss_slot ss i) \<noteq> SOCKET_TYPE_RESERVE"
      using pok False nidx by (auto simp: poll_ok_def next_events_def)
    then obtain r where r: "next_event b result ?c = Some r" "step_post None ?c (turn_reply r)" "ss_pipe (snd (snd (turn_reply r))) = ss_pipe ?c"
      using next_event_post [OF okc freshc, of b result] idx by auto
    then show ?thesis using False nidx step_start [OF same r(2)] by (auto simp: poll_step_def Let_def)
  qed
qed

end
