(* ===== verification/Socket_Run.thy ===== *)
theory Socket_Run
  imports Socket_Poll "HOL-Library.Sublist"
begin

text \<open>
  What the threads of a node do with the server: the functions other threads call, a direct write of a package by the
  thread that sends it, and the actions a run is made of. An action whose guard holds has an outcome and keeps the
  invariant, and the packages on their way are accounted for.
\<close>

section \<open>Buffers handed over by other threads\<close>

lemma owned_bound:
  assumes "ss_inv xs cs ss" shows "a \<in> set (owned xs ss) \<Longrightarrow> a < ss_brk ss"
  using assms by (auto simp: ss_inv_def)

lemma alloc_spec:
  assumes inv: "ss_inv xs cs ss" and a: "mem_alloc bs ss = (b, ss')"
  shows "ss_inv (b # xs) cs ss'" "frame {} {} ss ss'" "ss_slot ss' = ss_slot ss" "ss_mem ss' b = Some bs" "ss_log ss' = ss_log ss"
    "ss_pipe ss' = ss_pipe ss" "ss_alloc_id ss' = ss_alloc_id ss"
proof -
  have ss': "b = ss_brk ss" "ss' = ss\<lparr>ss_mem := (ss_mem ss)(ss_brk ss \<mapsto> bs), ss_brk := ss_brk ss + 1\<rparr>" using a by (auto simp: mem_alloc_def)
  show "ss_slot ss' = ss_slot ss" "ss_mem ss' b = Some bs" "ss_log ss' = ss_log ss" "ss_pipe ss' = ss_pipe ss" "ss_alloc_id ss' = ss_alloc_id ss" by (simp_all add: ss')
  have own: "owned (b # xs) ss' = b # owned xs ss" by (simp add: owned_def ss')
  have wb: "wb_buffer wb \<noteq> b" if "i < MAX_SOCKET" "wb \<in> set (wb_queue (ss_slot ss i))" for i wb
  proof -
    have "wb_buffer wb \<in> set (owned xs ss)" using that by (auto simp: owned_def)
    then show ?thesis using owned_bound [OF inv] ss'(1) by fastforce
  qed
  have rq: "rq_buffer q \<noteq> b" if "q \<in> set (pipe_sends (ss_pipe ss))" for q
  proof -
    have "rq_buffer q \<in> set (owned xs ss)" using that by (auto simp: owned_def)
    then show ?thesis using owned_bound [OF inv] ss'(1) by fastforce
  qed
  have "slot_inv cs (ss_pipe ss') (ss_mem ss') i (ss_slot ss' i)" if "i < MAX_SOCKET" for i
    using ss_inv_slotD [OF inv that] wb [OF that] by (auto simp: slot_inv_def slot_ok_def node_ok_def ss')
  moreover have "req_ok (ss_mem ss') q" if "q \<in> set (pipe_sends (ss_pipe ss))" for q
  proof -
    have "req_ok (ss_mem ss) q" using inv that by (auto simp: ss_inv_def)
    then show ?thesis using rq [OF that] by (simp add: req_ok_def ss')
  qed
  moreover have "b \<notin> set (owned xs ss)" using owned_bound [OF inv] ss'(1) by blast
  moreover have "\<forall>a\<in>dom (ss_mem ss'). a < ss_brk ss'" using inv by (auto simp: ss_inv_def ss' less_Suc_eq)
  ultimately show "ss_inv (b # xs) cs ss'" using inv own unfolding ss_inv_def by (auto simp: ss')
  show "frame {} {} ss ss'" using wb rq by (auto simp: frame_def view_def package_def rq_bytes_def ss')
qed

text \<open>The buffer of a call: memory that changes its owner, or bytes of the caller.\<close>

definition buf_ok :: "socket_sendbuffer \<Rightarrow> bytes \<Rightarrow> nat list \<Rightarrow> socket_server \<Rightarrow> bool" where
  "buf_ok buf bs xs ss = (length bs \<noteq> USEROBJECT \<and> (case buf of
     SOCKET_BUFFER_MEMORY b sz \<Rightarrow> xs = [b] \<and> sz = length bs \<and> ss_mem ss b = Some bs
   | SOCKET_BUFFER_OBJECT b \<Rightarrow> False
   | SOCKET_BUFFER_RAWPOINTER bs' \<Rightarrow> xs = [] \<and> bs' = bs))"

lemma buf_bytes: "buf_ok buf bs xs ss \<Longrightarrow> sendbuffer_bytes buf ss = Some bs"
  by (auto simp: buf_ok_def sendbuffer_bytes_def send_object_init_def mem_read_def load_n_def split: socket_sendbuffer.splits)

lemma buf_ok_mem: "buf_ok buf bs xs ss \<Longrightarrow> ss_mem ss' = ss_mem ss \<Longrightarrow> buf_ok buf bs xs ss'"
  by (simp add: buf_ok_def split: socket_sendbuffer.splits)

lemma buf_free:
  assumes "ss_inv xs cs ss" "buf_ok buf bs xs ss"
  obtains ss' where "free_buffer buf ss = Some ss'" "ss_inv [] cs ss'" "frame {} {} ss ss'" "ss_slot ss' = ss_slot ss" "ss_log ss' = ss_log ss"
proof (cases buf)
  case (SOCKET_BUFFER_MEMORY b sz)
  then show ?thesis using that free_frame [of b "[]" cs ss] assms by (auto simp: buf_ok_def free_buffer_def)
qed (use assms that in \<open>auto simp: buf_ok_def free_buffer_def\<close>)

lemma buf_clone:
  assumes "ss_inv xs cs ss" "buf_ok buf bs xs ss"
  obtains b ss' where "clone_buffer buf ss = (b, length bs, ss')" "ss_inv [b] cs ss'" "frame {} {} ss ss'" "ss_slot ss' = ss_slot ss" "ss_log ss' = ss_log ss"
    "ss_mem ss' b = Some bs" "ss_pipe ss' = ss_pipe ss"
proof (cases buf)
  case (SOCKET_BUFFER_MEMORY b sz)
  then show ?thesis using that [of b ss] assms by (auto simp: buf_ok_def clone_buffer_def)
next
  case (SOCKET_BUFFER_RAWPOINTER bs')
  obtain b ss' where "mem_alloc bs ss = (b, ss')" by fastforce
  with alloc_spec [OF assms(1) this] show ?thesis using that [of b ss'] assms(2) SOCKET_BUFFER_RAWPOINTER by (auto simp: buf_ok_def clone_buffer_def)
qed (use assms in \<open>simp add: buf_ok_def\<close>)

section \<open>Commands written into the pipe\<close>

lemma push_inv:
  assumes inv: "ss_inv (map rq_buffer (req_sends r) @ xs) (map rq_id (req_sends r) @ cs) ss" and tcp: "tcp_request r"
    and sends: "\<forall>q\<in>set (req_sends r). req_ok (ss_mem ss) q"
    and creates: "\<forall>sid\<in>set (req_creates r). s_type (slot_of sid ss) = SOCKET_TYPE_RESERVE \<and> s_id (slot_of sid ss) = sid \<and> sid \<notin> set (pipe_creates (ss_pipe ss))"
  shows "ss_inv xs cs (send_request r ss)"
proof -
  let ?ss = "send_request r ss"
  have pend: "pending_count cs (ss_pipe ss @ [r]) sid = pending_count (map rq_id (req_sends r) @ cs) (ss_pipe ss) sid" for sid by (simp add: pending_count_def)
  have slots: "slot_inv cs (ss_pipe ss @ [r]) (ss_mem ss) i (ss_slot ss i)" if "i < MAX_SOCKET" for i
    using ss_inv_slotD [OF inv that] creates unfolding slot_inv_def sending_ok_def pend by auto
  have "mset (owned xs ?ss) = mset (owned (map rq_buffer (req_sends r) @ xs) ss)" by (simp add: owned_def send_request_def)
  then have "distinct (owned xs ?ss) = distinct (owned (map rq_buffer (req_sends r) @ xs) ss)"
    "set (owned xs ?ss) = set (owned (map rq_buffer (req_sends r) @ xs) ss)" by - (erule mset_same)+
  moreover have "distinct (req_creates r)" by (cases r) (simp_all add: req_creates_def)
  ultimately show ?thesis using inv slots tcp sends creates by (auto simp: ss_inv_def send_request_def)
qed

lemma kill_order_append:
  "kill_order p \<Longrightarrow> \<forall>sid\<in>set (req_creates r). \<forall>r'\<in>set p. sid \<notin> set (req_ids r') \<Longrightarrow> kill_order (p @ [r])"
proof (induction p)
  case Nil
  then show ?case by (auto split: request.splits)
next
  case (Cons a p)
  then show ?case by (cases a) (auto simp: req_ids_def)
qed

text \<open>A step that ends with a command in the pipe.\<close>

lemma push_step:
  assumes ok: "server_ok ss" and inv: "ss_inv (map rq_buffer (req_sends r)) (map rq_id (req_sends r)) ss1" and tcp: "tcp_request r"
    and sends: "\<forall>q\<in>set (req_sends r). req_ok (ss_mem ss1) q"
    and creates: "\<forall>sid\<in>set (req_creates r). s_type (slot_of sid ss1) = SOCKET_TYPE_RESERVE \<and> s_id (slot_of sid ss1) = sid \<and>
      sid \<notin> set (pipe_creates (ss_pipe ss)) \<and> (\<forall>r'\<in>set (ss_pipe ss). sid \<notin> set (req_ids r'))"
    and fr: "ss_pipe ss1 = ss_pipe ss" "\<forall>q\<in>set (pipe_sends (ss_pipe ss)). rq_bytes (ss_mem ss1) q = rq_bytes (ss_mem ss) q" "ev_ok ss1"
    and rel: "\<forall>t<MAX_SOCKET. slot_step T ss ss1 t \<and> quiet (ss_slot ss1 t) \<and> (s_type (ss_slot ss1 t) = SOCKET_TYPE_RESERVE \<longrightarrow>
        s_type (ss_slot ss t) = SOCKET_TYPE_RESERVE \<and> s_id (ss_slot ss1 t) = s_id (ss_slot ss t) \<or> s_id (ss_slot ss1 t) \<in> set (req_creates r))"
  shows "step_post T ss (None, m, send_request r ss1)"
proof -
  let ?ss = "send_request r ss1"
  have f: "ss_slot ?ss = ss_slot ss1" "ss_mem ?ss = ss_mem ss1" "ss_log ?ss = ss_log ss1" "ss_pipe ?ss = ss_pipe ss @ [r]" "ss_ev ?ss = ss_ev ss1"
    "ss_event_index ?ss = ss_event_index ss1" using fr(1) by (simp_all add: send_request_def)
  have "ss_inv [] [] ?ss" using inv tcp sends creates fr(1) by (intro push_inv) simp_all
  moreover have "all_quiet ?ss" using rel by (simp add: all_quiet_def f)
  moreover have "kill_order (ss_pipe ?ss)" using ok creates by (auto simp: f server_ok_def intro!: kill_order_append)
  moreover have "reserve_ok ?ss" using ok rel unfolding reserve_ok_def server_ok_def f by (auto 0 3)
  moreover have "ev_ok ?ss" using fr(3) by (simp add: ev_ok_def f)
  ultimately have "server_ok ?ss" by (simp add: server_ok_def)
  moreover have "chan_of t ?ss = chan_of t ss1" for t by (simp add: chan_of_def view_def f)
  then have "slot_step T ss ?ss t" if "t < MAX_SOCKET" for t using rel that by (simp add: slot_step_def f)
  ultimately show ?thesis using fr(2) by (auto simp: step_post_def f)
qed

lemma slot_step_refl: "slot_step None ss ss t"
  by (simp add: slot_step_def chan_rel_def)

text \<open>Commands without data: closing, starting and so on.\<close>

lemma command_step:
  assumes "server_ok ss" "tcp_request r" "req_sends r = []" "req_creates r = []"
  shows "step_post None ss (None, m, send_request r ss)"
  using assms by (intro push_step) (auto simp: server_ok_def all_quiet_def slot_step_refl)

section \<open>Creating sockets from other threads\<close>

lemma create_step:
  assumes ok: "server_ok ss" and id_fresh: "id_fresh ss" and os: "os_eq ss ss1" and r: "reserve_id ss1 = (Some sid, ss2)"
    and req: "req_creates req = [sid]" "req_sends req = []" "tcp_request req"
  shows "step_post None ss (None, m, send_request req ss2)"
proof -
  let ?j = "HASH_ID sid"
  have inv: "ss_inv [] [] ss" and ev: "ev_ok ss" and quiet: "all_quiet ss" using ok by (simp_all add: server_ok_def)
  note res = reserve_os [OF os inv id_fresh r ev]
  have fr: "frame {?j} (wfd (ss_slot ss ?j)) ss ss2" using res(2) by (rule frame_mono) simp_all
  have j: "ss_slot ss2 ?j = reserved_socket sid (slot_of sid ss)" by (simp add: res(6))
  have rel: "slot_step None ss ss2 t" if "t < MAX_SOCKET" for t
  proof (cases "t = ?j")
    case True
    then show ?thesis using res(3,4) by (simp add: slot_step_def j reserved_socket_def live_def)
  next
    case False
    then show ?thesis using frame_slot_rel [OF fr that False _ quiet, of None] by (simp add: slot_rel_def)
  qed
  have pipe: "ss_pipe ss2 = ss_pipe ss" using res(2) by (simp add: frame_def)
  show ?thesis
  proof (rule push_step [OF ok])
    show "\<forall>sid\<in>set (req_creates req). s_type (slot_of sid ss2) = SOCKET_TYPE_RESERVE \<and> s_id (slot_of sid ss2) = sid \<and>
      sid \<notin> set (pipe_creates (ss_pipe ss)) \<and> (\<forall>r'\<in>set (ss_pipe ss). sid \<notin> set (req_ids r'))"
      using res(1,3) id_fresh pipe by (simp add: req(1) reserved_def id_fresh_def)
    show "\<forall>t<MAX_SOCKET. slot_step None ss ss2 t \<and> quiet (ss_slot ss2 t) \<and> (s_type (ss_slot ss2 t) = SOCKET_TYPE_RESERVE \<longrightarrow>
        s_type (ss_slot ss t) = SOCKET_TYPE_RESERVE \<and> s_id (ss_slot ss2 t) = s_id (ss_slot ss t) \<or> s_id (ss_slot ss2 t) \<in> set (req_creates req))"
      using rel quiet by (auto simp: res(6) all_quiet_def quiet_def reserved_socket_def req(1))
  qed (use res(1,2,5) req pipe in \<open>auto simp: reserved_def frame_def\<close>)
qed

lemma no_create_step:
  assumes "server_ok ss" "os_eq ss (ss'\<lparr>ss_alloc_id := ss_alloc_id ss\<rparr>)"
  shows "step_post None ss (None, m, ss')"
proof -
  have "reply_post None ss (None, m, ss'\<lparr>ss_alloc_id := ss_alloc_id ss\<rparr>)" using assms by (intro os_reply) (simp_all add: server_ok_def)
  then have "reply_post None ss (None, m, ss'\<lparr>ss_alloc_id := ss_alloc_id ss\<rparr>\<lparr>ss_alloc_id := ss_alloc_id ss'\<rparr>)" by (rule reply_alloc)
  then show ?thesis using assms(1) by (intro reply_step) simp_all
qed

section \<open>Sending\<close>

lemma inc_sending_spec:
  assumes inv: "ss_inv xs cs ss" and s: "live (slot_of sid ss)" "s_id (slot_of sid ss) = sid" and p: "pending_count cs (ss_pipe ss) sid < 0xffff"
  shows "inc_sending_ref (HASH_ID sid) sid ss = Some (upd_slot (HASH_ID sid) (\<lambda>s. s\<lparr>s_sending := s_sending s + 1\<rparr>) ss)"
    "ss_inv xs (sid # cs) (upd_slot (HASH_ID sid) (\<lambda>s. s\<lparr>s_sending := s_sending s + 1\<rparr>) ss)"
proof -
  let ?i = "HASH_ID sid" and ?s = "slot_of sid ss" and ?n = "pending_count cs (ss_pipe ss) sid"
  let ?s' = "?s\<lparr>s_sending := s_sending ?s + 1\<rparr>"
  let ?ss' = "upd_slot ?i (\<lambda>s. s\<lparr>s_sending := s_sending s + 1\<rparr>) ss"
  have ok: "slot_inv cs (ss_pipe ss) (ss_mem ss) i (ss_slot ss i)" if "i < MAX_SOCKET" for i by (rule ss_inv_slotD [OF inv that])
  have tcp: "s_protocol ?s = PROTOCOL_TCP" using ok [of ?i] s by (simp add: slot_inv_def slot_ok_def)
  have cnt: "s_sending ?s = push_bit 16 (ID_TAG16 sid) + of_nat ?n" using ok [of ?i] s tcp by (simp add: slot_inv_def sending_ok_def)
  have "unat (of_nat ?n :: u64) = ?n" using p by (simp add: unat_of_nat)
  then have "(of_nat ?n :: u64) \<noteq> 0xffff" using p by auto
  then show "inc_sending_ref ?i sid ss = Some ?ss'"
    using tcp cnt sending_word(2,3) [OF ID_TAG16_bound, of ?n sid] p by (simp add: inc_sending_ref_def Let_def)
  have other: "slot_inv (sid # cs) (ss_pipe ss) (ss_mem ss) i (ss_slot ss i)" if "i < MAX_SOCKET" "i \<noteq> ?i" for i
    using ok [OF that(1)] that(2) unfolding slot_inv_def sending_ok_def pending_count_Cons by auto
  have "slot_ok (ss_mem ss) ?s'" using ok [of ?i] by (simp add: slot_inv_def slot_ok_def wb_queue_def live_def)
  moreover have "sending_ok (sid # cs) (ss_pipe ss) ?s'" using cnt p s by (simp add: sending_ok_def pending_count_Cons)
  ultimately have here: "slot_inv (sid # cs) (ss_pipe ss) (ss_mem ss) ?i ?s'"
    using ok [of ?i] s(1) by (auto simp: slot_inv_def live_def)
  have "mset (owned xs ?ss') = mset (owned xs ss)" by (rule owned_slot [where i = "?i" and s' = ?s']) (simp_all add: wb_queue_def)
  then have "distinct (owned xs ?ss') = distinct (owned xs ss)" "set (owned xs ?ss') = set (owned xs ss)" by - (erule mset_same)+
  with inv here other show "ss_inv xs (sid # cs) ?ss'" by (auto simp: ss_inv_def)
qed

text \<open>Steps of one live socket, before the command is written.\<close>

lemma frame_steps:
  assumes fr: "frame {i} (wfd (ss_slot ss i)) ss ss1" and i: "i < MAX_SOCKET" and quiet: "all_quiet ss" and T: "T = None \<or> (\<exists>h p. T = Some (i, h, p))"
    and rel: "slot_rel T ss ss1 i"
  shows "\<forall>t<MAX_SOCKET. slot_rel T ss ss1 t"
  using frame_slot_rel [OF fr _ _ i quiet T] rel by (metis)

lemma slot_rel_push: "slot_rel T ss ss1 t \<Longrightarrow> slot_step T ss ss1 t \<and> quiet (ss_slot ss1 t) \<and> (s_type (ss_slot ss1 t) = SOCKET_TYPE_RESERVE \<longrightarrow>
    s_type (ss_slot ss t) = SOCKET_TYPE_RESERVE \<and> s_id (ss_slot ss1 t) = s_id (ss_slot ss t) \<or> s_id (ss_slot ss1 t) \<in> X)"
  by (auto simp: slot_rel_def)

lemma slot_rel_chan:
  assumes "keeps (ss_slot ss t) (ss_slot ss' t)" "quiet (ss_slot ss' t)" "chan_rel T t (chan_of t ss) (chan_of t ss')"
  shows "slot_rel T ss ss' t"
  using assms unfolding slot_rel_def slot_step_def keeps_def type_step_def closed_type_def by auto

lemma enqueue_step:
  assumes ok: "server_ok ss" and inv: "ss_inv xs [] ss0" and fr0: "frame {} {} ss ss0" and s0: "ss_slot ss0 = ss_slot ss" and buf: "buf_ok buf bs xs ss0"
    and s: "live (slot_of sid ss)" "s_id (slot_of sid ss) = sid" and p: "pending_count [] (ss_pipe ss) sid < 0xffff"
    and req: "\<And>q. req_sends (f q) = [q]" "\<And>q. req_creates (f q) = []" "\<And>q. tcp_request (f q)"
  shows "\<exists>q ss'. (do {
       ss \<leftarrow> inc_sending_ref (HASH_ID sid) sid ss0;
       let (b, sz, ss) = clone_buffer buf ss;
       Some (0 :: int, send_request (f \<lparr>rq_id = sid, rq_sz = sz, rq_buffer = b\<rparr>) ss)
     }) = Some (0, ss') \<and> step_post None ss (None, m, ss') \<and> ss_pipe ss' = ss_pipe ss @ [f q] \<and> rq_id q = sid \<and> rq_bytes (ss_mem ss') q = bs \<and>
       (\<forall>q\<in>set (pipe_sends (ss_pipe ss)). rq_bytes (ss_mem ss') q = rq_bytes (ss_mem ss) q)"
proof -
  let ?i = "HASH_ID sid" and ?inc = "\<lambda>s :: socket. s\<lparr>s_sending := s_sending s + 1\<rparr>"
  let ?u = "upd_slot ?i ?inc ss0"
  have pipe: "ss_pipe ss0 = ss_pipe ss" using fr0 by (simp add: frame_def)
  have quiet: "all_quiet ss" using ok by (simp add: server_ok_def)
  note inc = inc_sending_spec [OF inv, of sid] 
  have inc1: "inc_sending_ref ?i sid ss0 = Some ?u" and inv1: "ss_inv xs [sid] ?u" using inc s p by (simp_all add: s0 pipe)
  have "buf_ok buf bs xs ?u" using buf by (rule buf_ok_mem) simp
  then obtain b ss2 where c: "clone_buffer buf ?u = (b, length bs, ss2)" "ss_inv [b] [sid] ss2" "frame {} {} ?u ss2" "ss_slot ss2 = ss_slot ?u"
    "ss_log ss2 = ss_log ?u" "ss_mem ss2 b = Some bs" "ss_pipe ss2 = ss_pipe ?u" using buf_clone [OF inv1] by blast
  define q where "q = \<lparr>rq_id = sid, rq_sz = length bs, rq_buffer = b\<rparr>"
  have "frame {?i} {} ss0 ?u" by (simp add: frame_upd_slot)
  then have fr: "frame {?i} {} ss ss2" by (intro frame_trans [OF frame_mono [OF fr0] frame_trans [OF _ frame_mono [OF c(3)]]]) simp_all
  have fr': "frame {?i} (wfd (ss_slot ss ?i)) ss ss2" using fr by (rule frame_mono) simp_all
  have slot: "ss_slot ss2 = (ss_slot ss)(?i := ?inc (slot_of sid ss))" using c(4) s0 by simp
  have "view ?i ss2 = view ?i ?u" using c(3) by (simp add: frame_def)
  moreover have "view ?i ?u = view ?i ss0" by (simp add: view_def wb_queue_def)
  moreover have "view ?i ss0 = view ?i ss" using fr0 by (simp add: frame_def)
  ultimately have ch: "chan_of ?i ss2 = chan_of ?i ss" using fr by (simp add: chan_of_def slot frame_def)
  have "slot_rel None ss ss2 ?i" using quiet by (intro slot_rel_same) (simp_all add: slot ch all_quiet_def)
  then have rel: "\<forall>t<MAX_SOCKET. slot_rel None ss ss2 t" by (intro frame_steps [OF fr' HASH_ID_bound quiet]) simp_all
  have "req_ok (ss_mem ss2) q" using buf c(6) by (simp add: q_def req_ok_def buf_ok_def)
  moreover have "ev_ok ss2" using ev_ok_frame [OF fr] ok by (simp add: server_ok_def)
  ultimately have post: "step_post None ss (None, m, send_request (f q) ss2)" using c(2,7) pipe fr rel req
    by (intro push_step [OF ok]) (auto simp: q_def frame_def slot_rel_def)
  moreover have "rq_bytes (ss_mem (send_request (f q) ss2)) q = bs" using c(6) by (simp add: send_request_def rq_bytes_def q_def)
  moreover have "ss_pipe (send_request (f q) ss2) = ss_pipe ss @ [f q]" using c(7) pipe by (simp add: send_request_def)
  moreover have "\<forall>q'\<in>set (pipe_sends (ss_pipe ss)). rq_bytes (ss_mem (send_request (f q) ss2)) q' = rq_bytes (ss_mem ss) q'"
    using fr by (simp add: frame_def send_request_def)
  ultimately show ?thesis using inc1 c(1) by (intro exI [of _ q] exI [of _ "send_request (f q) ss2"]) (simp add: q_def)
qed

text \<open>A direct write: the package is taken and written as far as possible, and what is left waits in \<open>dw_buffer\<close>.\<close>

lemma sending_zero:
  assumes "ss_inv [] [] ss" "can_direct_write (slot_of sid ss) sid"
  shows "pending_count [] (ss_pipe ss) sid = 0" "wb_queue (slot_of sid ss) = []" "live (slot_of sid ss)" "s_id (slot_of sid ss) = sid"
    "s_low (slot_of sid ss) = []" "s_protocol (slot_of sid ss) = PROTOCOL_TCP"
proof -
  let ?s = "slot_of sid ss" and ?n = "pending_count [] (ss_pipe ss) sid"
  have ok: "slot_inv [] (ss_pipe ss) (ss_mem ss) (HASH_ID sid) ?s" by (rule ss_inv_slotD [OF assms(1)]) simp
  have d: "s_type ?s = SOCKET_TYPE_CONNECTED" "s_id ?s = sid" "send_buffer_empty ?s" "s_dw_buffer ?s = None" "s_sending ?s AND 0xffff = 0"
    using assms(2) by (auto simp: can_direct_write_def nomore_sending_data_def)
  then show "wb_queue ?s = []" "live ?s" "s_id ?s = sid" "s_low ?s = []" by (simp_all add: send_buffer_empty_def wb_queue_def live_def)
  then show tcp: "s_protocol ?s = PROTOCOL_TCP" using ok by (simp add: slot_inv_def slot_ok_def)
  have le: "?n \<le> 0xffff" and sd: "s_sending ?s = push_bit 16 (ID_TAG16 sid) + of_nat ?n" using ok tcp d(2) by (simp_all add: slot_inv_def sending_ok_def)
  have u: "unat (of_nat ?n :: u64) = ?n" using le by (simp add: unat_of_nat)
  have "(of_nat ?n :: u64) = 0" using sending_word(2) [OF ID_TAG16_bound le, of sid] d(5) unfolding sd by simp
  then show "?n = 0" using u by (metis unsigned_0)
qed

definition after_direct :: "nat \<Rightarrow> u64 \<Rightarrow> nat option \<Rightarrow> nat \<Rightarrow> socket \<Rightarrow> socket" where
  "after_direct n t dw sz s = (let s = s\<lparr>s_write := s_write s + of_nat n, s_wtime := t\<rparr> in
     case dw of None \<Rightarrow> s | Some b \<Rightarrow> s\<lparr>s_dw_buffer := Some b, s_dw_size := sz, s_dw_offset := n\<rparr>)"

lemma after_direct_sel [simp]:
  "s_type (after_direct n t dw sz s) = s_type s" "s_id (after_direct n t dw sz s) = s_id s" "s_fd (after_direct n t dw sz s) = s_fd s"
  "s_low (after_direct n t dw sz s) = s_low s" "s_high (after_direct n t dw sz s) = s_high s" "s_dw_lock (after_direct n t dw sz s) = s_dw_lock s"
  "s_protocol (after_direct n t dw sz s) = s_protocol s" "s_sending (after_direct n t dw sz s) = s_sending s"
  "s_wb_size (after_direct n t dw sz s) = s_wb_size s" "s_dw_buffer (after_direct n t None sz s) = s_dw_buffer s"
  by (simp_all add: after_direct_def Let_def split: option.splits)

lemma direct_dw_list:
  "dw_list (after_direct n t (Some b) sz s) = [\<lparr>wb_buffer = b, wb_ptr = n, wb_sz = sz - n, wb_userobject = False, wb_object = sizeof_write_buffer, wb_udp_address = []\<rparr>]"
  by (simp add: after_direct_def dw_list_def Let_def)

lemma direct_slot_inv:
  assumes ok: "slot_inv [] p m i s" and s: "live s" "wb_queue s = []" and b: "m b = Some bs" "n \<le> length bs" "length bs \<noteq> USEROBJECT"
  shows "slot_inv [] p m i (after_direct n t (Some b) (length bs) s)"
proof -
  let ?s' = "after_direct n t (Some b) (length bs) s"
  have e: "s_high s = []" "s_low s = []" using s(2) by (simp_all add: wb_queue_def)
  then have q: "wb_queue ?s' = [\<lparr>wb_buffer = b, wb_ptr = n, wb_sz = length bs - n, wb_userobject = False, wb_object = sizeof_write_buffer, wb_udp_address = []\<rparr>]"
    by (simp add: wb_queue_def direct_dw_list)
  have dw: "s_dw_size ?s' = length bs" "s_dw_offset ?s' = n" by (simp_all add: after_direct_def Let_def)
  have "slot_ok m ?s'" using ok s(1) b e unfolding slot_ok_def q by (simp add: dw node_ok_def slot_inv_def slot_ok_def live_def)
  then show ?thesis using ok unfolding slot_inv_def sending_ok_def by simp
qed

text \<open>What a direct write of \<open>n\<close> bytes does to the channel.\<close>

lemma direct_chan:
  assumes "n \<le> length p"
  shows "\<exists>c1. chan_take True p (o1, [], 0) c1 \<and> chan_write c1 (o1 @ take n p, if n = length p then [] else [(n, p)], 0)"
proof (intro exI conjI)
  show "chan_take True p (o1, [], 0) (o1, [(0, p)], 0)" by (simp add: chan_take_def begun_def)
  have "advance (take n p) [(0, p)] (if n = length p then [] else [(n, p)])"
    by (auto simp: advance_def begun_def intro: exI [of _ "[p]"])
  then show "chan_write (o1, [(0, p)], 0) (o1 @ take n p, if n = length p then [] else [(n, p)], 0)" by (simp add: chan_write_def)
qed

lemma sys_write_direct:
  obtains r ss' where "sys_write fd bs ss = (r, ss')" "core ss' = core ss" "written r \<le> length bs" "out fd ss' = out fd ss @ take (written r) bs"
    "\<And>fd'. fd' \<noteq> fd \<Longrightarrow> out fd' ss' = out fd' ss" "ss_ev ss' = ss_ev ss" "ss_event_index ss' = ss_event_index ss"
  by (rule sys_write_cases [of fd bs ss]) (auto simp: written_def)

lemma stat_write_direct: "stat_write i n ss = upd_slot i (after_direct n (ss_time ss) None 0) ss"
  by (simp add: stat_write_def after_direct_def Let_def)

lemma set_dw_direct:
  assumes "clone_buffer buf ss = (b, sz, ss')" "ss_slot ss' = ss_slot ss" "ss_slot ss i = after_direct n t None 0 s"
  shows "\<exists>ss2. set_dw i buf n ss = ss2 \<and> ss_slot ss2 = (ss_slot ss)(i := after_direct n t (Some b) sz s) \<and> ss_pipe ss2 = ss_pipe ss' \<and>
    ss_mem ss2 = ss_mem ss' \<and> ss_brk ss2 = ss_brk ss' \<and> ss_log ss2 = ss_log ss' \<and> ss_ev ss2 = ss_ev ss' \<and> ss_event_index ss2 = ss_event_index ss'"
  using assms by (simp add: set_dw_def after_direct_def Let_def)

lemma direct_write_step:
  assumes ok: "server_ok ss" and inv: "ss_inv xs [] ss0" and fr0: "frame {} {} ss ss0" and s0: "ss_slot ss0 = ss_slot ss" and buf: "buf_ok buf bs xs ss0"
    and d: "can_direct_write (slot_of sid ss) sid"
  shows "\<exists>ss'. direct_write sid buf ss0 = Some (0, ss') \<and> step_post (Some (HASH_ID sid, True, bs)) ss (None, m, ss') \<and>
    (ss_pipe ss' = ss_pipe ss \<or> ss_pipe ss' = ss_pipe ss @ [Req_W sid]) \<and>
    (\<forall>q\<in>set (pipe_sends (ss_pipe ss)). rq_bytes (ss_mem ss') q = rq_bytes (ss_mem ss) q)"
proof -
  let ?i = "HASH_ID sid" and ?s = "slot_of sid ss"
  have invs: "ss_inv [] [] ss" and quiet: "all_quiet ss" and ev: "ev_ok ss" using ok by (simp_all add: server_ok_def)
  note z = sending_zero [OF invs d]
  obtain r ss1 where w: "sys_write (s_fd ?s) bs ss0 = (r, ss1)" "core ss1 = core ss0" "written r \<le> length bs"
    "out (s_fd ?s) ss1 = out (s_fd ?s) ss0 @ take (written r) bs" "\<And>fd'. fd' \<noteq> s_fd ?s \<Longrightarrow> out fd' ss1 = out fd' ss0"
    "ss_ev ss1 = ss_ev ss0" "ss_event_index ss1 = ss_event_index ss0" by (rule sys_write_direct [of "s_fd ?s" bs ss0]) (blast intro: that)
  define n t where "n = written r" and "t = ss_time ss1"
  define ss2 where "ss2 = upd_slot ?i (after_direct n t None 0) ss1"
  have c: "ss_slot ss1 = ss_slot ss" "ss_pipe ss1 = ss_pipe ss" "ss_mem ss1 = ss_mem ss0" using w(2) s0 fr0 by (auto simp: core_eq_iff frame_def)
  have same: "same_queue ?s (after_direct n t None 0 ?s)" by (simp add: same_queue_def after_direct_def Let_def)
  have "ss_inv xs [] ss1" using inv ss_inv_core [OF w(2)] by simp
  then have inv2: "ss_inv xs [] ss2" unfolding ss2_def using same by (intro ss_inv_same) (simp_all add: c)
  have fr1: "frame {?i} {s_fd ?s} ss ss1"
  proof -
    have fr01: "frame {?i} {s_fd ?s} ss0 ss1" using w view_core [OF w(2)] by (auto simp: frame_def core_eq_iff)
    show ?thesis by (rule frame_trans [OF frame_mono [OF fr0] fr01]) simp_all
  qed
  then have fr2: "frame {?i} {s_fd ?s} ss ss2" unfolding ss2_def by (rule frame_trans) (simp add: frame_upd_slot)
  have wf: "wfd ?s = {s_fd ?s}" using z(3) by (simp add: wfd_def)
  have buf2: "buf_ok buf bs xs ss2" by (rule buf_ok_mem [OF buf]) (simp add: ss2_def c(3))
  have o: "out (s_fd ?s) ss2 = out (s_fd ?s) ss @ take n bs" using w(4) fr0 by (simp add: ss2_def n_def frame_def)
  have rel: "\<forall>t<MAX_SOCKET. slot_rel (Some (?i, True, bs)) ss ss' t"
    if fr: "frame {?i} {s_fd ?s} ss ss'" and sl: "\<exists>dw sz. ss_slot ss' ?i = after_direct n t dw sz ?s" and v: "view ?i ss' = (if n = length bs then [] else [(n, bs)])"
      and o': "out (s_fd ?s) ss' = out (s_fd ?s) ss @ take n bs" for ss'
  proof (rule frame_steps [OF fr [folded wf] HASH_ID_bound quiet])
    have "chan_of ?i ss = (out (s_fd ?s) ss, [], 0)" using z(2,5) by (simp add: chan_of_def view_def)
    moreover have "chan_of ?i ss' = (out (s_fd ?s) ss @ take n bs, if n = length bs then [] else [(n, bs)], 0)"
      using sl v o' z(5) by (auto simp: chan_of_def)
    ultimately have "chan_rel (Some (?i, True, bs)) ?i (chan_of ?i ss) (chan_of ?i ss')"
      using direct_chan [of n bs "out (s_fd ?s) ss"] w(3) by (simp add: chan_rel_def n_def)
    moreover have "keeps ?s (ss_slot ss' ?i)" using sl by (auto simp: keeps_def type_step_def live_def)
    moreover have "quiet (ss_slot ss' ?i)" using sl quiet by (auto simp: all_quiet_def quiet_def)
    ultimately show "slot_rel (Some (?i, True, bs)) ss ss' ?i" by (intro slot_rel_chan)
  qed blast
  have unf: "direct_write sid buf ss0 = (if n = length bs then do { ss \<leftarrow> free_buffer buf ss2; Some (0, ss) }
      else Some (0, send_request (Req_W sid) (set_dw ?i buf n ss2)))"
    using w(1) z(6) by (simp add: direct_write_def Let_def buf_bytes [OF buf] s0 n_def [symmetric] ss2_def stat_write_direct t_def)
  show ?thesis
  proof (cases "n = length bs")
    case True
    obtain ss3 where f: "free_buffer buf ss2 = Some ss3" "ss_inv [] [] ss3" "frame {} {} ss2 ss3" "ss_slot ss3 = ss_slot ss2" "ss_log ss3 = ss_log ss2"
      by (rule buf_free [OF inv2 buf2])
    have fr3: "frame {?i} {s_fd ?s} ss ss3" by (rule frame_trans [OF fr2 frame_mono [OF f(3)]]) simp_all
    have slot3: "ss_slot ss3 ?i = after_direct n t None 0 ?s" using f(4) c(1) by (simp add: ss2_def)
    have "wb_queue (ss_slot ss3 ?i) = []" using z(2) by (simp add: slot3 after_direct_def Let_def wb_queue_def)
    then have "view ?i ss3 = []" by (simp add: view_def)
    then have rel3: "\<forall>t<MAX_SOCKET. slot_rel (Some (?i, True, bs)) ss ss3 t"
      using True fr3 slot3 o f(5) by (intro rel) auto
    then have "reply_post (Some (?i, True, bs)) ss (None, m, ss3)" using f(2) fr3 ev_ok_frame [OF fr3 ev] by (simp add: reply_post_def frame_def)
    then show ?thesis using True f(1) fr3 by (auto simp: unf frame_def intro: reply_step [OF ok])
  next
    case False
    then have le: "n \<le> length bs" using w(3) by (simp add: n_def)
    obtain b ss3 where cl: "clone_buffer buf ss2 = (b, length bs, ss3)" "ss_inv [b] [] ss3" "frame {} {} ss2 ss3" "ss_slot ss3 = ss_slot ss2" "ss_log ss3 = ss_log ss2"
      "ss_mem ss3 b = Some bs" "ss_pipe ss3 = ss_pipe ss2" by (rule buf_clone [OF inv2 buf2])
    have slot2: "ss_slot ss2 ?i = after_direct n t None 0 ?s" using c(1) by (simp add: ss2_def)
    define ss4 where "ss4 = set_dw ?i buf n ss2"
    have f4: "ss_slot ss4 = (ss_slot ss2)(?i := after_direct n t (Some b) (length bs) ?s)" "ss_pipe ss4 = ss_pipe ss3" "ss_mem ss4 = ss_mem ss3"
      "ss_brk ss4 = ss_brk ss3" "ss_log ss4 = ss_log ss3" "ss_ev ss4 = ss_ev ss3" "ss_event_index ss4 = ss_event_index ss3"
      using set_dw_direct [OF cl(1,4) slot2] by (auto simp: ss4_def)
    have fr3: "frame {?i} {s_fd ?s} ss ss3" by (rule frame_trans [OF fr2 frame_mono [OF cl(3)]]) simp_all
    then have fr4: "frame {?i} {s_fd ?s} ss ss4" using f4 cl(4) by (auto simp: frame_def view_def)
    have ok3: "slot_inv [] (ss_pipe ss3) (ss_mem ss3) ?i (ss_slot ss3 ?i)" by (rule ss_inv_slotD [OF cl(2)]) simp
    have len: "length bs \<noteq> USEROBJECT" using buf by (simp add: buf_ok_def)
    have q3: "live (ss_slot ss3 ?i)" "wb_queue (ss_slot ss3 ?i) = []"
      using z(2,3) by (simp_all add: cl(4) slot2 after_direct_def Let_def wb_queue_def live_def)
    have ad: "after_direct n t (Some b) (length bs) (ss_slot ss3 ?i) = (after_direct n t (Some b) (length bs) ?s)\<lparr>s_write := s_write ?s + of_nat n + of_nat n\<rparr>"
      by (simp add: cl(4) slot2 after_direct_def Let_def)
    have "slot_inv [] (ss_pipe ss3) (ss_mem ss3) ?i (after_direct n t (Some b) (length bs) (ss_slot ss3 ?i))"
      by (rule direct_slot_inv [OF ok3 q3 cl(6) le len])
    then have here: "slot_inv [] (ss_pipe ss3) (ss_mem ss3) ?i (after_direct n t (Some b) (length bs) ?s)"
      by (rule slot_inv_same) (simp_all add: ad same_queue_def)
    have own: "slot_own (after_direct n t (Some b) (length bs) ?s) = [b]" using z(2) by (simp add: wb_queue_def direct_dw_list)
    have "ss_slot ss4 = (ss_slot ss3)(?i := after_direct n t (Some b) (length bs) ?s)" using f4(1) cl(4) by simp
    then have inv4: "ss_inv [] [] ss4" using own q3(2) here f4 by (intro ss_inv_slot [OF cl(2) HASH_ID_bound]) simp_all
    have "view ?i ss4 = [(n, bs)]" using z(2) le cl(6) by (simp add: view_def f4 wb_queue_def direct_dw_list package_def)
    moreover have "ss_slot ss4 ?i = after_direct n t (Some b) (length bs) ?s" using f4(1) by simp
    ultimately have rel4: "\<forall>t<MAX_SOCKET. slot_rel (Some (?i, True, bs)) ss ss4 t"
      using False fr4 o cl(5) f4(5) by (intro rel) auto
    have pipe4: "ss_pipe ss4 = ss_pipe ss" using f4(2) cl(7) c(2) by (simp add: ss2_def)
    have "step_post (Some (?i, True, bs)) ss (None, m, send_request (Req_W sid) ss4)"
    proof (rule push_step [OF ok])
      show "\<forall>t<MAX_SOCKET. slot_step (Some (?i, True, bs)) ss ss4 t \<and> quiet (ss_slot ss4 t) \<and> (s_type (ss_slot ss4 t) = SOCKET_TYPE_RESERVE \<longrightarrow>
        s_type (ss_slot ss t) = SOCKET_TYPE_RESERVE \<and> s_id (ss_slot ss4 t) = s_id (ss_slot ss t) \<or> s_id (ss_slot ss4 t) \<in> set (req_creates (Req_W sid)))"
        using rel4 slot_rel_push by blast
    qed (use inv4 pipe4 fr4 ev_ok_frame [OF fr4 ev] in \<open>simp_all add: req_sends_def req_creates_def tcp_request_def frame_def\<close>)
    moreover have "\<forall>q\<in>set (pipe_sends (ss_pipe ss)). rq_bytes (ss_mem (send_request (Req_W sid) ss4)) q = rq_bytes (ss_mem ss) q"
      using fr4 by (simp add: frame_def send_request_def)
    ultimately show ?thesis using False pipe4 by (auto simp: unf ss4_def [symmetric] send_request_def)
  qed
qed

section \<open>Packages on their way to a socket\<close>

text \<open>The packages of one priority for the socket \<open>sid\<close> that are in the pipe, and those a step takes from there.\<close>

definition req_pkgs :: "bool \<Rightarrow> int \<Rightarrow> (nat \<rightharpoonup> bytes) \<Rightarrow> request \<Rightarrow> bytes list" where
  "req_pkgs high sid m r = (case r of
     Req_D q \<Rightarrow> if high \<and> rq_id q = sid then [rq_bytes m q] else []
   | Req_P q \<Rightarrow> if \<not> high \<and> rq_id q = sid then [rq_bytes m q] else []
   | _ \<Rightarrow> [])"

definition pkgs :: "bool \<Rightarrow> int \<Rightarrow> socket_server \<Rightarrow> bytes list" where
  "pkgs high sid ss = concat (map (req_pkgs high sid (ss_mem ss)) (ss_pipe ss))"

definition taken_pkgs :: "bool \<Rightarrow> int \<Rightarrow> taken \<Rightarrow> bytes list" where
  "taken_pkgs high sid T = (case T of Some (i, h, p) \<Rightarrow> if i = HASH_ID sid \<and> h = high then [p] else [] | None \<Rightarrow> [])"

text \<open>Between two states nothing is lost: what was in the pipe or is sent now is taken or in the pipe.\<close>

definition flow :: "int \<Rightarrow> (bool \<Rightarrow> bytes list) \<Rightarrow> taken \<Rightarrow> socket_server \<Rightarrow> socket_server \<Rightarrow> bool" where
  "flow sid sent T ss ss' \<longleftrightarrow> (\<forall>high. pkgs high sid ss @ sent high = taken_pkgs high sid T @ pkgs high sid ss')"

lemma pkgs_cong: "\<forall>q\<in>set (pipe_sends p). rq_bytes m' q = rq_bytes m q \<Longrightarrow>
   concat (map (req_pkgs high sid m') p) = concat (map (req_pkgs high sid m) p)"
  by (induction p) (auto simp: req_pkgs_def req_sends_def split: request.splits)

lemma taken_None [simp]: "taken_pkgs high sid None = []"
  by (simp add: taken_pkgs_def)

lemma flow_append:
  assumes "ss_pipe ss' = ss_pipe ss @ [r]" "\<forall>q\<in>set (pipe_sends (ss_pipe ss)). rq_bytes (ss_mem ss') q = rq_bytes (ss_mem ss) q"
    "\<And>high. sent high = req_pkgs high sid (ss_mem ss') r"
  shows "flow sid sent None ss ss'"
  using pkgs_cong [OF assms(2)] by (simp add: flow_def pkgs_def assms(1,3))

lemma flow_same:
  assumes "ss_pipe ss' = ss_pipe ss" "\<forall>q\<in>set (pipe_sends (ss_pipe ss)). rq_bytes (ss_mem ss') q = rq_bytes (ss_mem ss) q"
  shows "flow sid (\<lambda>_. []) None ss ss'"
  using pkgs_cong [OF assms(2)] by (simp add: flow_def pkgs_def assms(1))

lemma pkgs_none:
  assumes "pending_count [] (ss_pipe ss) sid = 0" shows "pkgs high sid ss = []"
proof -
  have "req_pkgs high sid (ss_mem ss) r = []" if "r \<in> set (ss_pipe ss)" for r
  proof -
    have "sid \<notin> set (map rq_id (pipe_sends (ss_pipe ss)))" using assms by (simp add: pending_count_def count_list_0_iff)
    then have "\<forall>q\<in>set (req_sends r). rq_id q \<noteq> sid" using that by auto
    then show ?thesis by (cases r) (simp_all add: req_pkgs_def req_sends_def)
  qed
  then show ?thesis by (simp add: pkgs_def)
qed

definition sent_to :: "int \<Rightarrow> bool \<Rightarrow> bytes \<Rightarrow> int \<Rightarrow> bool \<Rightarrow> bytes list" where
  "sent_to sid' high' bs sid high = (if sid' = sid \<and> high' = high then [bs] else [])"

lemma step_frame_refl:
  assumes "server_ok ss" "ss_inv [] [] ss'" "frame {} {} ss ss'" "ss_slot ss' = ss_slot ss"
  shows "step_post None ss (None, m, ss')"
proof -
  have ok: "all_quiet ss" "ev_ok ss" using assms(1) by (simp_all add: server_ok_def)
  have "slot_rel None ss ss' t" if "t < MAX_SOCKET" for t
    using that ok(1) frame_chan [OF assms(3) that] by (intro slot_rel_same) (simp_all add: assms(4) all_quiet_def)
  then have "reply_post None ss (None, m, ss')" using assms ev_ok_frame [OF assms(3) ok(2)] by (simp add: reply_post_def frame_def)
  then show ?thesis by (rule reply_step [OF assms(1)])
qed

section \<open>\<open>socket_server_send\<close>\<close>

definition send_ok :: "int \<Rightarrow> bytes \<Rightarrow> socket_server \<Rightarrow> bool" where
  "send_ok sid bs ss \<longleftrightarrow> length bs \<noteq> USEROBJECT \<and> pending_count [] (ss_pipe ss) sid < 0xffff \<and>
     \<not> (s_type (slot_of sid ss) = SOCKET_TYPE_RESERVE \<and> s_id (slot_of sid ss) = sid)"

lemma send_step:
  assumes ok: "server_ok ss" and inv: "ss_inv xs [] ss0" and fr0: "frame {} {} ss ss0" and s0: "ss_slot ss0 = ss_slot ss" and buf: "buf_ok buf bs xs ss0"
    and g: "send_ok sid bs ss"
  shows "\<exists>ret T ss'. socket_server_send sid buf ss0 = Some (ret, ss') \<and> step_post T ss (None, m, ss') \<and>
    (\<forall>t. accepts (slot_of t ss) t \<longrightarrow> flow t (sent_to sid True bs t) T ss ss')"
proof -
  let ?i = "HASH_ID sid" and ?s = "slot_of sid ss"
  have quiet: "all_quiet ss" and invs: "ss_inv [] [] ss" using ok by (simp_all add: server_ok_def)
  have lock: "\<not> s_dw_lock ?s" using quiet by (simp add: all_quiet_def quiet_def)
  show ?thesis
  proof (cases "socket_invalid ?s sid \<or> s_closing ?s")
    case True
    obtain ss' where f: "free_buffer buf ss0 = Some ss'" "ss_inv [] [] ss'" "frame {} {} ss0 ss'" "ss_slot ss' = ss_slot ss0"
      using buf_free [OF inv buf] by metis
    have fr: "frame {} {} ss ss'" using fr0 f(3) by (rule frame_trans)
    have "flow t (sent_to sid True bs t) None ss ss'" if "accepts (slot_of t ss) t" for t
    proof -
      have "t \<noteq> sid" using True that by (auto simp: accepts_def socket_invalid_def live_def)
      then have "sent_to sid True bs t = (\<lambda>_. [])" by (simp add: sent_to_def fun_eq_iff)
      then show ?thesis using flow_same [of ss' ss t] fr by (simp add: frame_def)
    qed
    moreover have "step_post None ss (None, m, ss')" using f(2,4) fr s0 by (intro step_frame_refl [OF ok]) simp_all
    ultimately show ?thesis using True f(1) by (auto simp: socket_server_send_def Let_def s0)
  next
    case valid: False
    then have s: "live ?s" "s_id ?s = sid" using g by (auto simp: send_ok_def socket_invalid_def live_def)
    show ?thesis
    proof (cases "can_direct_write ?s sid")
      case True
      obtain ss' where d: "direct_write sid buf ss0 = Some (0, ss')" "step_post (Some (?i, True, bs)) ss (None, m, ss')"
        "ss_pipe ss' = ss_pipe ss \<or> ss_pipe ss' = ss_pipe ss @ [Req_W sid]" "\<forall>q\<in>set (pipe_sends (ss_pipe ss)). rq_bytes (ss_mem ss') q = rq_bytes (ss_mem ss) q"
        using direct_write_step [OF ok inv fr0 s0 buf True] by blast
      have p0: "pkgs high sid ss = []" for high by (rule pkgs_none) (rule sending_zero(1) [OF invs True])
      have f0: "flow t (\<lambda>_. []) None ss ss'" for t
        using d(3,4) flow_same [of ss' ss t] flow_append [of ss' ss "Req_W sid" "\<lambda>_. []" t] by (auto simp: req_pkgs_def)
      have "flow t (sent_to sid True bs t) (Some (?i, True, bs)) ss ss'" if "accepts (slot_of t ss) t" for t
      proof (cases "t = sid")
        case True
        then show ?thesis using f0 [of sid] by (simp add: flow_def p0 sent_to_def taken_pkgs_def)
      next
        case False
        then have "HASH_ID t \<noteq> ?i" using that s(2) by (auto simp: accepts_def)
        then show ?thesis using f0 [of t] False by (simp add: flow_def sent_to_def taken_pkgs_def)
      qed
      then show ?thesis using True valid lock d(1,2) by (auto simp: socket_server_send_def Let_def s0)
    next
      case False
      obtain q ss' where e: "(do {
         ss \<leftarrow> inc_sending_ref ?i sid ss0;
         let (b, sz, ss) = clone_buffer buf ss;
         Some (0 :: int, send_request (Req_D \<lparr>rq_id = sid, rq_sz = sz, rq_buffer = b\<rparr>) ss)
       }) = Some (0, ss')" "step_post None ss (None, m, ss')" "ss_pipe ss' = ss_pipe ss @ [Req_D q]" "rq_id q = sid" "rq_bytes (ss_mem ss') q = bs"
        "\<forall>q\<in>set (pipe_sends (ss_pipe ss)). rq_bytes (ss_mem ss') q = rq_bytes (ss_mem ss) q"
        using enqueue_step [OF ok inv fr0 s0 buf s, where f = Req_D and m = m] g
        by (auto simp: send_ok_def req_sends_def req_creates_def tcp_request_def)
      have "flow t (sent_to sid True bs t) None ss ss'" for t
        by (rule flow_append [OF e(3,6)]) (auto simp: sent_to_def req_pkgs_def e(4,5))
      then show ?thesis using False valid e(1,2) by (auto simp: socket_server_send_def Let_def s0)
    qed
  qed
qed

lemma send_low_step:
  assumes ok: "server_ok ss" and inv: "ss_inv xs [] ss0" and fr0: "frame {} {} ss ss0" and s0: "ss_slot ss0 = ss_slot ss" and buf: "buf_ok buf bs xs ss0"
    and g: "send_ok sid bs ss"
  shows "\<exists>ret T ss'. socket_server_send_lowpriority sid buf ss0 = Some (ret, ss') \<and> step_post T ss (None, m, ss') \<and>
    (\<forall>t. accepts (slot_of t ss) t \<longrightarrow> flow t (sent_to sid False bs t) T ss ss')"
proof -
  let ?i = "HASH_ID sid" and ?s = "slot_of sid ss"
  show ?thesis
  proof (cases "socket_invalid ?s sid")
    case True
    obtain ss' where f: "free_buffer buf ss0 = Some ss'" "ss_inv [] [] ss'" "frame {} {} ss0 ss'" "ss_slot ss' = ss_slot ss0"
      using buf_free [OF inv buf] by metis
    have fr: "frame {} {} ss ss'" using fr0 f(3) by (rule frame_trans)
    have "flow t (sent_to sid False bs t) None ss ss'" if "accepts (slot_of t ss) t" for t
    proof -
      have "t \<noteq> sid" using True that by (auto simp: accepts_def socket_invalid_def live_def)
      then have "sent_to sid False bs t = (\<lambda>_. [])" by (simp add: sent_to_def fun_eq_iff)
      then show ?thesis using flow_same [of ss' ss t] fr by (simp add: frame_def)
    qed
    moreover have "step_post None ss (None, m, ss')" using f(2,4) fr s0 by (intro step_frame_refl [OF ok]) simp_all
    ultimately show ?thesis using True f(1) by (auto simp: socket_server_send_lowpriority_def Let_def s0)
  next
    case valid: False
    then have s: "live ?s" "s_id ?s = sid" using g by (auto simp: send_ok_def socket_invalid_def live_def)
    obtain q ss' where e: "(do {
       ss \<leftarrow> inc_sending_ref ?i sid ss0;
       let (b, sz, ss) = clone_buffer buf ss;
       Some (0 :: int, send_request (Req_P \<lparr>rq_id = sid, rq_sz = sz, rq_buffer = b\<rparr>) ss)
     }) = Some (0, ss')" "step_post None ss (None, m, ss')" "ss_pipe ss' = ss_pipe ss @ [Req_P q]" "rq_id q = sid" "rq_bytes (ss_mem ss') q = bs"
      "\<forall>q\<in>set (pipe_sends (ss_pipe ss)). rq_bytes (ss_mem ss') q = rq_bytes (ss_mem ss) q"
      using enqueue_step [OF ok inv fr0 s0 buf s, where f = Req_P and m = m] g
      by (auto simp: send_ok_def req_sends_def req_creates_def tcp_request_def)
    have "flow t (sent_to sid False bs t) None ss ss'" for t
      by (rule flow_append [OF e(3,6)]) (auto simp: sent_to_def req_pkgs_def e(4,5))
    then show ?thesis using valid e(1,2) by (auto simp: socket_server_send_lowpriority_def Let_def s0)
  qed
qed

section \<open>Runs of the server\<close>

text \<open>
  What the threads of a node do with the server: the socket thread takes a turn of the poll loop, other threads send
  packages in memory of their own (which the server frees) or in memory they keep, and write commands.
\<close>

datatype action =
  Poll | Send int bytes | Send_raw int bytes | Send_low int bytes | Close nat int | Shutdown nat int | Start nat int | Pause nat int
| Nodelay int | Exit | Connect nat bytes int | Listen nat | Bind nat int

definition no_message :: socket_message where
  "no_message = \<lparr>sm_id = 0, sm_opaque = 0, sm_ud = 0, sm_data = D_null\<rparr>"

abbreviation silent :: "socket_server \<Rightarrow> reply" where
  "silent ss \<equiv> (None, no_message, ss)"

fun act :: "action \<Rightarrow> socket_server \<Rightarrow> reply option" where
  "act Poll ss = map_option turn_reply (poll_step (no_message, False, ss))"
| "act (Send sid bs) ss = (let (b, ss) = mem_alloc bs ss in
     map_option (\<lambda>r. silent (snd r)) (socket_server_send sid (SOCKET_BUFFER_MEMORY b (length bs)) ss))"
| "act (Send_raw sid bs) ss = map_option (\<lambda>r. silent (snd r)) (socket_server_send sid (SOCKET_BUFFER_RAWPOINTER bs) ss)"
| "act (Send_low sid bs) ss = (let (b, ss) = mem_alloc bs ss in
     map_option (\<lambda>r. silent (snd r)) (socket_server_send_lowpriority sid (SOCKET_BUFFER_MEMORY b (length bs)) ss))"
| "act (Close opaque sid) ss = Some (silent (socket_server_close opaque sid ss))"
| "act (Shutdown opaque sid) ss = Some (silent (socket_server_shutdown opaque sid ss))"
| "act (Start opaque sid) ss = Some (silent (socket_server_start opaque sid ss))"
| "act (Pause opaque sid) ss = Some (silent (socket_server_pause opaque sid ss))"
| "act (Nodelay sid) ss = Some (silent (socket_server_nodelay sid ss))"
| "act Exit ss = Some (silent (socket_server_exit ss))"
| "act (Connect opaque addr port) ss = Some (silent (snd (socket_server_connect opaque addr port ss)))"
| "act (Listen opaque) ss = Some (silent (snd (socket_server_listen opaque ss)))"
| "act (Bind opaque fd) ss = Some (silent (snd (socket_server_bind opaque fd ss)))"

text \<open>
  The guard of an action. A package is not sent to an id whose socket has not been created yet, and not while 65535 are
  in the pipe for the socket, where the code waits; ids that are handed out are not in use by commands in the pipe; the
  events are for slots in use.
\<close>

fun act_ok :: "action \<Rightarrow> socket_server \<Rightarrow> bool" where
  "act_ok Poll ss = poll_ok ss"
| "act_ok (Send sid bs) ss = send_ok sid bs ss"
| "act_ok (Send_raw sid bs) ss = send_ok sid bs ss"
| "act_ok (Send_low sid bs) ss = send_ok sid bs ss"
| "act_ok (Connect _ _ _) ss = id_fresh ss"
| "act_ok (Listen _) ss = id_fresh ss"
| "act_ok (Bind _ _) ss = id_fresh ss"
| "act_ok _ ss = True"

fun sent :: "action \<Rightarrow> int \<Rightarrow> bool \<Rightarrow> bytes list" where
  "sent (Send sid' bs) sid high = sent_to sid' True bs sid high"
| "sent (Send_raw sid' bs) sid high = sent_to sid' True bs sid high"
| "sent (Send_low sid' bs) sid high = sent_to sid' False bs sid high"
| "sent _ sid high = []"

definition act_post :: "action \<Rightarrow> taken \<Rightarrow> socket_server \<Rightarrow> reply \<Rightarrow> bool" where
  "act_post a T ss r \<longleftrightarrow> step_post T ss r \<and> (\<forall>t. accepts (slot_of t ss) t \<longrightarrow> flow t (sent a t) T ss (snd (snd r)))"

lemma taken_req:
  assumes "accepts (slot_of t ss) t"
  shows "req_pkgs high t (ss_mem ss) req = taken_pkgs high t (take_of req ss)"
proof -
  have "rq_id q = t" if "accepts (slot_of t ss) (rq_id q)" for q
    using assms that by (auto simp: accepts_def)
  then show ?thesis using assms by (cases req) (auto simp: req_pkgs_def taken_pkgs_def take_of_def)
qed

lemma poll_act:
  assumes "server_ok ss" "poll_ok ss"
  shows "\<exists>T r. act Poll ss = Some r \<and> act_post Poll T ss r"
proof -
  obtain p where p: "poll_step (no_message, False, ss) = Some p"
    and c: "if ss_checkctrl ss \<and> ss_pipe ss \<noteq> []
     then step_post (take_of (hd (ss_pipe ss)) ss) ss (turn_reply p) \<and> ss_pipe (snd (snd (turn_reply p))) = tl (ss_pipe ss)
     else step_post None ss (turn_reply p) \<and> ss_pipe (snd (snd (turn_reply p))) = ss_pipe ss"
    using poll_step_post [OF assms, of no_message False] by blast
  obtain ev m ss' where r: "turn_reply p = (ev, m, ss')" by (cases "turn_reply p")
  have e: "sent Poll t = (\<lambda>_. [])" for t by (simp add: fun_eq_iff)
  show ?thesis
  proof (cases "ss_checkctrl ss \<and> ss_pipe ss \<noteq> []")
    case True
    then obtain req reqs where pipe: "ss_pipe ss = req # reqs" by (cases "ss_pipe ss") auto
    have post: "step_post (take_of req ss) ss (ev, m, ss')" "ss_pipe ss' = reqs" using c True pipe r by simp_all
    then have "\<forall>q\<in>set (pipe_sends reqs). rq_bytes (ss_mem ss') q = rq_bytes (ss_mem ss) q" by (auto simp: step_post_def pipe)
    note eq = pkgs_cong [OF this]
    have "flow t (\<lambda>_. []) (take_of req ss) ss ss'" if "accepts (slot_of t ss) t" for t
      using taken_req [OF that] eq by (simp add: flow_def pkgs_def pipe post(2))
    then show ?thesis using p post(1) r by (auto simp: act_post_def e intro!: exI [of _ "take_of req ss"])
  next
    case False
    have post: "step_post None ss (ev, m, ss')" "ss_pipe ss' = ss_pipe ss" using c False r by auto
    then have "flow t (\<lambda>_. []) None ss ss'" for t by (intro flow_same) (auto simp: step_post_def)
    then show ?thesis using p post(1) r by (auto simp: act_post_def e intro!: exI [of _ None])
  qed
qed

text \<open>Commands.\<close>

lemma command_act:
  assumes "server_ok ss" "act a ss = Some (silent (send_request r ss))" "req_sends r = []" "req_creates r = []" "tcp_request r" "\<And>t h. sent a t h = []"
  shows "\<exists>T r. act a ss = Some r \<and> act_post a T ss r"
proof -
  have r: "req_pkgs h t m r = []" for h t m using assms(3) by (cases r) (simp_all add: req_pkgs_def req_sends_def)
  have "flow t (sent a t) None ss (send_request r ss)" for t
    by (rule flow_append [of _ _ r]) (simp_all add: send_request_def assms(6) r)
  then show ?thesis using command_step [OF assms(1,5,3,4), of no_message] assms(2) by (auto simp: act_post_def intro!: exI [of _ None])
qed

lemma create_act:
  assumes ok: "server_ok ss" and fresh: "id_fresh ss" and os: "os_eq ss ss1" and a: "act a ss = Some (silent (case reserve_id ss1 of
      (None, ss2) \<Rightarrow> f ss2 | (Some sid, ss2) \<Rightarrow> send_request (r sid) ss2))"
    and f: "\<And>ss2. os_eq ss2 (f ss2)" and req: "\<And>sid. req_creates (r sid) = [sid]" "\<And>sid. req_sends (r sid) = []" "\<And>sid. tcp_request (r sid)"
    and nosent: "\<And>t h. sent a t h = []"
  shows "\<exists>T r. act a ss = Some r \<and> act_post a T ss r"
proof -
  obtain rid ss2 where res: "reserve_id ss1 = (rid, ss2)" by fastforce
  have pipe1: "ss_pipe ss1 = ss_pipe ss" "ss_mem ss1 = ss_mem ss" using os_eq_slot [OF os] by auto
  show ?thesis
  proof (cases rid)
    case None
    then obtain k where k: "ss2 = ss1\<lparr>ss_alloc_id := k\<rparr>" using reserve_none res by blast
    have e: "os_eq ss2 (f ss2)" by (rule f)
    have "os_eq ss ((f ss2)\<lparr>ss_alloc_id := ss_alloc_id ss\<rparr>)" using os e by (simp add: k os_eq_def core_def)
    then have "step_post None ss (None, no_message, f ss2)" by (rule no_create_step [OF ok])
    moreover have "flow t (\<lambda>_. []) None ss (f ss2)" for t using os_eq_slot [OF e] pipe1 by (intro flow_same) (simp_all add: k)
    moreover have "sent a t = (\<lambda>_. [])" for t using nosent by (simp add: fun_eq_iff)
    ultimately show ?thesis using a None res by (auto simp: act_post_def intro!: exI [of _ None])
  next
    case (Some sid)
    have r: "reserve_id ss1 = (Some sid, ss2)" using res Some by simp
    have "step_post None ss (None, no_message, send_request (r sid) ss2)" by (rule create_step [OF ok fresh os r req])
    moreover obtain k where "ss2 = upd_slot (HASH_ID sid) (reserved_socket sid) (ss1\<lparr>ss_alloc_id := k\<rparr>)"
      using r reserve_loop_cases [of MAX_SOCKET ss1 "Some sid" ss2] by (auto simp: reserve_id_def)
    then have "ss_pipe ss2 = ss_pipe ss" "ss_mem ss2 = ss_mem ss" using pipe1 by simp_all
    moreover have "req_pkgs h t m (r sid) = []" for h t m using req(2) [of sid] by (cases "r sid") (simp_all add: req_pkgs_def req_sends_def)
    ultimately have "flow t (sent a t) None ss (send_request (r sid) ss2)" for t
      by (intro flow_append [of _ _ "r sid"]) (simp_all add: send_request_def nosent)
    then show ?thesis using a r \<open>step_post _ _ _\<close> by (auto simp: act_post_def intro!: exI [of _ None])
  qed
qed

lemma do_bind_os: "do_bind ss = (r, ss') \<Longrightarrow> os_eq ss ss'"
proof -
  assume b: "do_bind ss = (r, ss')"
  obtain g s1 where g: "next_answer ss = (g, s1)" by fastforce
  obtain f s2 where f: "next_answer s1 = (f, s2)" by fastforce
  let ?k = "klog (K_setsockopt (a_ret f) 2 1) s2"
  obtain o1 s3 where o1: "next_answer ?k = (o1, s3)" by fastforce
  obtain c s4 where c: "next_answer s3 = (c, s4)" by fastforce
  have e: "os_eq ss s1" "os_eq s1 s2" "os_eq s2 ?k" "os_eq ?k s3" "os_eq s3 s4" using g f o1 c by (auto intro: os_eq_next os_eq_klog)
  then have e': "os_eq ss s2" "os_eq ss s3" "os_eq ss s4" using os_eq_trans by blast+
  have k: "os_eq ss (klog (K_close fd) s3)" "os_eq ss (klog (K_close fd) s4)" for fd
    using e' by (auto intro: os_eq_trans os_eq_klog)
  show ?thesis using b e(1) e' k by (auto simp: do_bind_def Let_def g f o1 c split: if_splits)
qed

lemma do_listen_os: "do_listen ss = (r, ss') \<Longrightarrow> os_eq ss ss'"
proof -
  assume l: "do_listen ss = (r, ss')"
  obtain b s1 where b: "do_bind ss = (b, s1)" by fastforce
  obtain a s2 where a: "next_answer s1 = (a, s2)" by fastforce
  have e: "os_eq ss s1" "os_eq ss s2" using do_bind_os [OF b] os_eq_next [OF a] os_eq_trans by blast+
  have k: "os_eq ss (klog (K_close fd) s2)" for fd using e(2) by (rule os_eq_trans) (simp add: os_eq_klog)
  show ?thesis using l e k by (auto simp: do_listen_def Let_def b a split: option.splits if_splits)
qed

lemma buf_memory:
  assumes "server_ok ss" "mem_alloc bs ss = (b, ss0)" "send_ok sid bs ss"
  shows "ss_inv [b] [] ss0" "frame {} {} ss ss0" "ss_slot ss0 = ss_slot ss" "buf_ok (SOCKET_BUFFER_MEMORY b (length bs)) bs [b] ss0"
  using alloc_spec [OF _ assms(2), of "[]" "[]"] assms(1,3) by (simp_all add: server_ok_def buf_ok_def send_ok_def)

lemma no_create_act:
  assumes ok: "server_ok ss" and a: "act a ss = Some (silent ss')" and os: "os_eq ss ss'" and nosent: "\<And>t h. sent a t h = []"
  shows "\<exists>T r. act a ss = Some r \<and> act_post a T ss r"
proof -
  have "step_post None ss (None, no_message, ss')" using ok os_reply [OF os] by (intro reply_step) (simp_all add: server_ok_def)
  moreover have "flow t (\<lambda>_. []) None ss ss'" for t using os_eq_slot [OF os] by (intro flow_same) simp_all
  moreover have "sent a t = (\<lambda>_. [])" for t using nosent by (simp add: fun_eq_iff)
  ultimately show ?thesis using a by (auto simp: act_post_def intro!: exI [of _ None])
qed

text \<open>Every action has an outcome, and it keeps the invariant.\<close>

lemma act_step:
  assumes ok: "server_ok ss" and g: "act_ok a ss"
  shows "\<exists>T r. act a ss = Some r \<and> act_post a T ss r"
proof -
  note cmds = req_sends_def req_creates_def tcp_request_def
  show ?thesis
  proof (cases a)
    case Poll
    then show ?thesis using poll_act [OF ok] g by simp
  next
    case (Send sid bs)
    obtain b ss0 where m: "mem_alloc bs ss = (b, ss0)" by fastforce
    have g: "send_ok sid bs ss" using g by (simp add: Send)
    obtain ret T ss' where p: "socket_server_send sid (SOCKET_BUFFER_MEMORY b (length bs)) ss0 = Some (ret, ss')" "step_post T ss (None, no_message, ss')"
      "\<forall>t. accepts (slot_of t ss) t \<longrightarrow> flow t (sent_to sid True bs t) T ss ss'"
      using send_step [OF ok buf_memory [OF ok m g] g] by blast
    have "sent a t = sent_to sid True bs t" for t by (simp add: fun_eq_iff Send)
    then show ?thesis using p m by (auto simp: act_post_def Send intro!: exI [of _ T])
  next
    case (Send_raw sid bs)
    have g: "send_ok sid bs ss" using g by (simp add: Send_raw)
    have i: "ss_inv [] [] ss" "buf_ok (SOCKET_BUFFER_RAWPOINTER bs) bs [] ss" using ok g by (simp_all add: server_ok_def buf_ok_def send_ok_def)
    obtain ret T ss' where p: "socket_server_send sid (SOCKET_BUFFER_RAWPOINTER bs) ss = Some (ret, ss')" "step_post T ss (None, no_message, ss')"
      "\<forall>t. accepts (slot_of t ss) t \<longrightarrow> flow t (sent_to sid True bs t) T ss ss'"
      using send_step [OF ok i(1) frame_refl refl i(2) g] by blast
    have "sent a t = sent_to sid True bs t" for t by (simp add: fun_eq_iff Send_raw)
    then show ?thesis using p by (auto simp: act_post_def Send_raw intro!: exI [of _ T])
  next
    case (Send_low sid bs)
    obtain b ss0 where m: "mem_alloc bs ss = (b, ss0)" by fastforce
    have g: "send_ok sid bs ss" using g by (simp add: Send_low)
    obtain ret T ss' where p: "socket_server_send_lowpriority sid (SOCKET_BUFFER_MEMORY b (length bs)) ss0 = Some (ret, ss')" "step_post T ss (None, no_message, ss')"
      "\<forall>t. accepts (slot_of t ss) t \<longrightarrow> flow t (sent_to sid False bs t) T ss ss'"
      using send_low_step [OF ok buf_memory [OF ok m g] g] by blast
    have "sent a t = sent_to sid False bs t" for t by (simp add: fun_eq_iff Send_low)
    then show ?thesis using p m by (auto simp: act_post_def Send_low intro!: exI [of _ T])
  next
    case (Connect opaque addr port)
    show ?thesis
    proof (cases "length addr + 24 \<ge> 256")
      case True
      then show ?thesis by (intro no_create_act [OF ok, of _ ss]) (simp_all add: Connect socket_server_connect_def open_request_def)
    next
      case False
      then show ?thesis using g
        by (intro create_act [OF ok _ os_eq_refl, of _ "\<lambda>ss. ss" "\<lambda>sid. Req_O sid port opaque addr"])
          (simp_all add: Connect socket_server_connect_def open_request_def req_creates_def req_sends_def tcp_request_def split: prod.splits option.splits)
    qed
  next
    case (Listen opaque)
    obtain l ss1 where l: "do_listen ss = (l, ss1)" by fastforce
    note os = do_listen_os [OF l]
    show ?thesis
    proof (cases l)
      case None
      then show ?thesis using os l by (intro no_create_act [OF ok, of _ ss1]) (simp_all add: Listen socket_server_listen_def)
    next
      case (Some fd)
      then show ?thesis using g l
        by (intro create_act [OF ok _ os, of _ "\<lambda>ss. klog (K_close fd) ss" "\<lambda>sid. Req_L sid fd opaque"])
          (simp_all add: Listen socket_server_listen_def req_creates_def req_sends_def tcp_request_def os_eq_klog split: prod.splits option.splits)
    qed
  next
    case (Bind opaque fd)
    then show ?thesis using g
      by (intro create_act [OF ok _ os_eq_refl, of _ "\<lambda>ss. ss" "\<lambda>sid. Req_B sid fd opaque"])
        (simp_all add: socket_server_bind_def req_creates_def req_sends_def tcp_request_def split: prod.splits option.splits)
  next
    case (Close opaque sid)
    show ?thesis by (rule command_act [OF ok, of _ "Req_K sid False opaque"]) (simp_all add: Close socket_server_close_def cmds)
  next
    case (Shutdown opaque sid)
    show ?thesis by (rule command_act [OF ok, of _ "Req_K sid True opaque"]) (simp_all add: Shutdown socket_server_shutdown_def cmds)
  next
    case (Start opaque sid)
    show ?thesis by (rule command_act [OF ok, of _ "Req_R sid opaque"]) (simp_all add: Start socket_server_start_def cmds)
  next
    case (Pause opaque sid)
    show ?thesis by (rule command_act [OF ok, of _ "Req_S sid opaque"]) (simp_all add: Pause socket_server_pause_def cmds)
  next
    case (Nodelay sid)
    show ?thesis by (rule command_act [OF ok, of _ "Req_T sid 1 1"]) (simp_all add: Nodelay socket_server_nodelay_def cmds)
  next
    case Exit
    show ?thesis by (rule command_act [OF ok, of _ "Req_X"]) (simp_all add: Exit socket_server_exit_def cmds)
  qed
qed

end
