(* ===== verification/Socket_Stream.thy ===== *)
theory Socket_Stream
  imports Socket_Run
begin

text \<open>
  Runs of the server from its creation, as an inductive relation, and the properties of runs: no assertion fails and no
  buffer is freed twice or lost, a connection carries the packages in order, and a socket is reported closed once.
\<close>

section \<open>Runs from the creation of the server\<close>

text \<open>A run: the actions in order, with the reply of each.\<close>

inductive server_run :: "socket_server \<Rightarrow> (action \<times> reply) list \<Rightarrow> socket_server \<Rightarrow> bool" where
  run_nil: "server_run ss [] ss"
| run_step: "server_run ss0 tr ss \<Longrightarrow> act_ok a ss \<Longrightarrow> act a ss = Some (ev, m, ss') \<Longrightarrow> server_run ss0 (tr @ [(a, ev, m, ss')]) ss'"

lemma act_post_run:
  assumes "server_ok ss" "act_ok a ss" "act a ss = Some r"
  obtains T where "act_post a T ss r"
  using act_step [OF assms(1,2)] assms(3) by auto

lemma run_ok: "server_run ss0 tr ss \<Longrightarrow> server_ok ss0 \<Longrightarrow> server_ok ss"
proof (induction rule: server_run.induct)
  case (run_step ss0 tr ss a ev m ss')
  then obtain T where "act_post a T ss (ev, m, ss')" using act_post_run by blast
  then show ?case by (simp add: act_post_def step_post_def)
qed simp

text \<open>The server as it is created.\<close>

lemma zero_slot_inv: "slot_inv [] [] Map.empty i zero_socket"
  unfolding slot_inv_def slot_ok_def sending_ok_def pending_count_def zero_socket_def
  by (simp add: wb_queue_def dw_list_def live_def PROTOCOL_TCP_def ID_TAG16_def)

lemma create_ok: "server_ok (socket_server_create time fd tape)"
proof -
  let ?ss = "socket_server_create time fd tape"
  have own: "slot_own zero_socket = []" by (simp add: zero_socket_def wb_queue_def dw_list_def)
  have "concat (map (\<lambda>i. slot_own (ss_slot ?ss i)) [0..<MAX_SOCKET]) = []" unfolding concat_eq_Nil_conv by (simp add: socket_server_create_def own)
  then have "owned [] ?ss = []" by (simp add: owned_def socket_server_create_def)
  then have "ss_inv [] [] ?ss" using zero_slot_inv by (simp add: ss_inv_def socket_server_create_def)
  moreover have "quiet zero_socket" by (simp add: quiet_def zero_socket_def list_uncomplete_def)
  moreover have "s_type zero_socket \<noteq> SOCKET_TYPE_RESERVE" by (simp add: zero_socket_def)
  ultimately show ?thesis by (simp add: server_ok_def all_quiet_def ev_ok_def reserve_ok_def socket_server_create_def)
qed


text \<open>A socket that was closed is not reported again.\<close>

definition closed_id :: "int \<Rightarrow> socket_server \<Rightarrow> bool" where
  "closed_id sid ss \<longleftrightarrow> (s_id (slot_of sid ss) = sid \<longrightarrow> closed_type (s_type (slot_of sid ss)))"

lemma used_slot_hash: "server_ok ss \<Longrightarrow> i < MAX_SOCKET \<Longrightarrow> s_type (ss_slot ss i) \<noteq> SOCKET_TYPE_INVALID \<Longrightarrow> HASH_ID (s_id (ss_slot ss i)) = i"
  using ss_inv_slotD [of "[]" "[]" ss i] by (simp add: server_ok_def slot_inv_def)

lemma close_reported:
  assumes "server_ok ss" "step_post T ss (Some SOCKET_CLOSE, m, ss')"
  shows "closed_id (sm_id m) ss'" "\<not> closed_id (sm_id m) ss"
proof -
  obtain i where i: "i < MAX_SOCKET" "sm_id m = s_id (ss_slot ss i)" "\<not> closed_type (s_type (ss_slot ss i))"
    "closed_type (s_type (ss_slot ss' i))" "s_id (ss_slot ss' i) = s_id (ss_slot ss i)" using assms(2) by (auto simp: step_post_def)
  then have "HASH_ID (sm_id m) = i" using used_slot_hash [OF assms(1) i(1)] by (auto simp: closed_type_def)
  then show "closed_id (sm_id m) ss'" "\<not> closed_id (sm_id m) ss" using i by (simp_all add: closed_id_def)
qed

lemma closed_id_step:
  assumes "step_post T ss (ev, m, ss')" "closed_id sid ss" "sid \<notin> new_ids ss"
  shows "closed_id sid ss'"
proof -
  have "slot_step T ss ss' (HASH_ID sid)" using assms(1) by (simp add: step_post_def)
  then show ?thesis using assms(2,3) unfolding slot_step_def closed_id_def by metis
qed

lemma closed_id_run:
  assumes "server_run ss0 tr ss" "server_ok ss0" "closed_id sid ss0" "sid \<notin> new_ids ss0" "\<forall>(a, ev, m, ss')\<in>set tr. sid \<notin> new_ids ss'"
  shows "closed_id sid ss \<and> sid \<notin> new_ids ss"
  using assms
proof (induction rule: server_run.induct)
  case (run_step ss0 tr ss a ev m ss')
  have ok: "server_ok ss" using run_ok [OF run_step.hyps(1) run_step.prems(1)] .
  obtain T where "act_post a T ss (ev, m, ss')" using act_post_run [OF ok run_step.hyps(2,3)] .
  then have "step_post T ss (ev, m, ss')" by (simp add: act_post_def)
  then show ?case using run_step closed_id_step by auto
qed simp

text \<open>
  C3. When \<open>SOCKET_CLOSE\<close> was reported for a socket it is not reported for it again, whatever commands and events for
  it are still on their way, until its id is given to a new socket.
\<close>

theorem close_reported_once:
  assumes "server_run (socket_server_create time fd tape) tr ss0"
    and "act_ok a ss0" "act a ss0 = Some (Some SOCKET_CLOSE, m, ss1)"
    and "server_run ss1 tr' ss2" "sm_id m \<notin> new_ids ss1" "\<forall>(a, ev, m', ss')\<in>set tr'. sm_id m \<notin> new_ids ss'"
    and "act_ok a' ss2" "act a' ss2 = Some (ev, m', ss3)"
  shows "\<not> (ev = Some SOCKET_CLOSE \<and> sm_id m' = sm_id m)"
proof -
  have ok0: "server_ok ss0" using run_ok [OF assms(1) create_ok] .
  obtain T where T: "step_post T ss0 (Some SOCKET_CLOSE, m, ss1)" using act_post_run [OF ok0 assms(2,3)] by (auto simp: act_post_def)
  then have ok1: "server_ok ss1" by (simp add: step_post_def)
  have ok2: "server_ok ss2" using run_ok [OF assms(4) ok1] .
  obtain T' where T': "step_post T' ss2 (ev, m', ss3)" using act_post_run [OF ok2 assms(7,8)] by (auto simp: act_post_def)
  have "closed_id (sm_id m) ss2" using closed_id_run [OF assms(4) ok1 close_reported(1) [OF ok0 T] assms(5,6)] by simp
  then show ?thesis using close_reported(2) [OF ok2, of T' m' ss3] T' by auto
qed

section \<open>The packages of one connection\<close>

lemma shuffles_append_left: "zs \<in> shuffles xs ys \<Longrightarrow> zs @ ws \<in> shuffles (xs @ ws) ys"
proof (induction xs ys arbitrary: zs rule: shuffles.induct)
  case (1 ys)
  then show ?case by (induction ys arbitrary: zs) (auto simp: Cons_in_shuffles_iff)
qed (auto simp: shuffles.simps)

lemma shuffles_append_right: "zs \<in> shuffles xs ys \<Longrightarrow> zs @ ws \<in> shuffles xs (ys @ ws)"
  using shuffles_append_left shuffles_commutes by blast

text \<open>
  The channel of a socket after the packages \<open>hs\<close> of high and \<open>ls\<close> of low priority were taken: the packages stand in an
  order that keeps the order of either priority, those of the low list last; the bytes of the first ones are written.
\<close>

definition stream :: "bytes \<Rightarrow> bytes list \<Rightarrow> bytes list \<Rightarrow> chan \<Rightarrow> bool" where
  "stream base hs ls c = (case c of (o1, v, n) \<Rightarrow> \<exists>ds p low ls0. o1 = base @ concat ds @ begun v \<and> ds @ map snd v = p @ low
     \<and> length low = n \<and> ls = ls0 @ low \<and> p \<in> shuffles hs ls0)"

lemma streamI:
  assumes "o1 = base @ concat ds @ begun v" "ds @ map snd v = p @ low" "length low = n" "ls = ls0 @ low" "p \<in> shuffles hs ls0"
  shows "stream base hs ls (o1, v, n)"
  using assms by (auto simp: stream_def)

lemma stream_start: "stream o1 [] [] (o1, [], 0)"
  by (simp add: stream_def begun_def)

lemma stream_write:
  assumes "stream base hs ls c" "chan_write c c'"
  shows "stream base hs ls c'"
proof -
  obtain o1 v n o2 v' n' where c: "c = (o1, v, n)" "c' = (o2, v', n')" by (metis prod_cases3)
  obtain ds p low ls0 where s: "o1 = base @ concat ds @ begun v" "ds @ map snd v = p @ low" "length low = n" "ls = ls0 @ low" "p \<in> shuffles hs ls0"
    using assms(1) by (auto simp: stream_def c)
  obtain w es where w: "o2 = o1 @ w" "map snd v = es @ map snd v'" "begun v @ w = concat es @ begun v'" "n' \<le> n"
    using assms(2) by (auto simp: chan_write_def advance_def c)
  let ?k = "n - n'"
  have "o2 = base @ concat (ds @ es) @ begun v'" using s(1) w(1,3) by simp
  moreover have "(ds @ es) @ map snd v' = (p @ take ?k low) @ drop ?k low" using s(2) w(2) by simp
  moreover have "length (drop ?k low) = n'" using s(3) w(4) by simp
  moreover have "ls = (ls0 @ take ?k low) @ drop ?k low" using s(4) by simp
  ultimately show ?thesis using shuffles_append_right [OF s(5)] unfolding stream_def c by blast
qed

lemma stream_take:
  assumes "stream base hs ls c" "chan_take high p c c'"
  shows "if high then stream base (hs @ [p]) ls c' else stream base hs (ls @ [p]) c'"
proof -
  obtain o1 v n o2 v' n' where c: "c = (o1, v, n)" "c' = (o2, v', n')" by (metis prod_cases3)
  obtain ds q low ls0 where s: "o1 = base @ concat ds @ begun v" "ds @ map snd v = q @ low" "length low = n" "ls = ls0 @ low" "q \<in> shuffles hs ls0"
    using assms(1) by (auto simp: stream_def c)
  obtain v1 v2 where w: "o2 = o1" "v = v1 @ v2" "v' = v1 @ (0, p) # v2" "v1 = [] \<longrightarrow> begun v2 = []"
    "n' = n \<and> length v2 = n \<and> (high \<or> v2 = []) \<or> n' = Suc n \<and> v2 = [] \<and> \<not> high"
    using assms(2) by (auto simp: chan_take_def c)
  have b: "begun v' = begun v" using w(2-4) by (cases v1) (auto simp: begun_def)
  show ?thesis
  proof (cases "n' = n \<and> length v2 = n")
    case True
    then have "(ds @ map snd v1) @ map snd v2 = q @ low" "length (map snd v2) = length low" using s(2,3) w(2) by simp_all
    then have "q = ds @ map snd v1" "low = map snd v2" using append_eq_append_conv by blast+
    then have order: "ds @ map snd v' = (q @ [p]) @ low" by (simp add: w(3))
    have o: "o2 = base @ concat ds @ begun v'" "length low = n'" using s(1,3) b w(1) True by simp_all
    show ?thesis
    proof (cases high)
      case h: True
      have "stream base (hs @ [p]) ls (o2, v', n')" by (rule streamI [OF o(1) order o(2) s(4) shuffles_append_left [OF s(5)]])
      then show ?thesis by (simp add: h c)
    next
      case h: False
      then have "low = []" using w(5) s(3) \<open>low = _\<close> True by auto
      then have "ls @ [p] = (ls0 @ [p]) @ low" using s(4) by simp
      then have "stream base hs (ls @ [p]) (o2, v', n')" by (rule streamI [OF o(1) order o(2) _ shuffles_append_right [OF s(5)]])
      then show ?thesis by (simp add: h c)
    qed
  next
    case False
    then have f: "n' = Suc n" "v2 = []" "\<not> high" using w(5) by auto
    then have "stream base hs (ls @ [p]) (o2, v', n')"
      using s b w(1-3) by (intro streamI [of o2 base ds v' q "low @ [p]" n' _ ls0]) simp_all
    then show ?thesis by (simp add: f(3) c)
  qed
qed

text \<open>
  A connection that is served: the socket \<open>sid\<close> takes packages before every action and is open after it, and no two
  open sockets share a descriptor. \<open>hs\<close> and \<open>ls\<close> are the packages that were sent.
\<close>

inductive serves :: "int \<Rightarrow> socket_server \<Rightarrow> bytes list \<Rightarrow> bytes list \<Rightarrow> socket_server \<Rightarrow> bool" where
  serves_nil: "serves sid ss [] [] ss"
| serves_step: "serves sid ss0 hs ls ss \<Longrightarrow> act_ok a ss \<Longrightarrow> fds_distinct ss \<Longrightarrow> accepts (slot_of sid ss) sid \<Longrightarrow>
    act a ss = Some (ev, m, ss') \<Longrightarrow> live (slot_of sid ss') \<Longrightarrow>
    serves sid ss0 (hs @ sent a sid True) (ls @ sent a sid False) ss'"

definition served :: "bytes \<Rightarrow> int \<Rightarrow> bytes list \<Rightarrow> bytes list \<Rightarrow> socket_server \<Rightarrow> bool" where
  "served base sid hs ls ss \<longleftrightarrow> (\<exists>ht lt. stream base ht lt (chan_of (HASH_ID sid) ss) \<and> hs = ht @ pkgs True sid ss \<and> ls = lt @ pkgs False sid ss)"

lemma served_step:
  assumes "served base sid hs ls ss" "act_post a T ss (ev, m, ss')" "fds_distinct ss" "accepts (slot_of sid ss) sid" "live (slot_of sid ss')"
  shows "served base sid (hs @ sent a sid True) (ls @ sent a sid False) ss' \<and> s_fd (slot_of sid ss') = s_fd (slot_of sid ss)"
proof -
  let ?i = "HASH_ID sid"
  obtain ht lt where s: "stream base ht lt (chan_of ?i ss)" "hs = ht @ pkgs True sid ss" "ls = lt @ pkgs False sid ss"
    using assms(1) by (auto simp: served_def)
  have live: "live (slot_of sid ss)" using assms(4) by (simp add: accepts_def)
  have "slot_step T ss ss' ?i" using assms(2) by (simp add: act_post_def step_post_def)
  then have fd: "s_fd (slot_of sid ss') = s_fd (slot_of sid ss)" and rel: "chan_rel T ?i (chan_of ?i ss) (chan_of ?i ss')"
    using live assms(3,5) by (simp_all add: slot_step_def)
  have flow: "pkgs h sid ss @ sent a sid h = taken_pkgs h sid T @ pkgs h sid ss'" for h
    using assms(2,4) by (simp add: act_post_def flow_def)
  have "stream base (ht @ taken_pkgs True sid T) (lt @ taken_pkgs False sid T) (chan_of ?i ss')"
  proof (cases "\<exists>h p. T = Some (?i, h, p)")
    case True
    then obtain h p c1 where T: "T = Some (?i, h, p)" "chan_take h p (chan_of ?i ss) c1" "chan_write c1 (chan_of ?i ss')"
      using rel by (auto simp: chan_rel_def)
    show ?thesis using stream_write [OF _ T(3)] stream_take [OF s(1) T(2)] by (cases h) (simp_all add: T(1) taken_pkgs_def)
  next
    case False
    then have "chan_write (chan_of ?i ss) (chan_of ?i ss')" "taken_pkgs h sid T = []" for h
      using rel by (auto simp: chan_rel_def taken_pkgs_def split: option.splits if_splits)
    then show ?thesis using stream_write [OF s(1)] by simp
  qed
  then show ?thesis using s(2,3) flow fd unfolding served_def by (metis append.assoc)
qed

lemma serves_served:
  assumes "serves sid ss0 hs ls ss" "server_ok ss0" "served base sid [] [] ss0"
  shows "server_ok ss \<and> served base sid hs ls ss \<and> s_fd (slot_of sid ss) = s_fd (slot_of sid ss0)"
  using assms
proof (induction rule: serves.induct)
  case (serves_step sid ss0 hs ls ss a ev m ss')
  have ih: "server_ok ss" "served base sid hs ls ss" "s_fd (slot_of sid ss) = s_fd (slot_of sid ss0)" using serves_step by auto
  obtain T where T: "act_post a T ss (ev, m, ss')" using act_post_run [OF ih(1) serves_step.hyps(2,5)] .
  then have "server_ok ss'" by (simp add: act_post_def step_post_def)
  then show ?case using served_step [OF ih(2) T serves_step.hyps(3,4,6)] ih(3) by simp
qed simp

lemma served_out:
  assumes "served base sid hs ls ss"
  shows "\<exists>p\<in>shuffles hs ls. prefix (out (s_fd (slot_of sid ss)) ss) (base @ concat p) \<and>
    (wb_queue (slot_of sid ss) = [] \<and> pending_count [] (ss_pipe ss) sid = 0 \<longrightarrow> out (s_fd (slot_of sid ss)) ss = base @ concat p)"
proof -
  let ?v = "view (HASH_ID sid) ss"
  obtain ht lt where s: "stream base ht lt (chan_of (HASH_ID sid) ss)" "hs = ht @ pkgs True sid ss" "ls = lt @ pkgs False sid ss"
    using assms by (auto simp: served_def)
  then obtain ds p low ls0 where c: "out (s_fd (slot_of sid ss)) ss = base @ concat ds @ begun ?v" "ds @ map snd ?v = p @ low" "lt = ls0 @ low" "p \<in> shuffles ht ls0"
    by (auto simp: stream_def chan_of_def)
  let ?p = "(p @ low) @ pkgs True sid ss @ pkgs False sid ss"
  have "?p \<in> shuffles hs ls"
    using shuffles_append_right [OF shuffles_append_left [OF shuffles_append_right [OF c(4), of low], of "pkgs True sid ss"], of "pkgs False sid ss"]
    by (simp add: s(2,3) c(3))
  moreover have "prefix (begun ?v) (concat (map snd ?v))"
    by (cases ?v) (auto simp: begun_def intro!: prefix_prefix take_is_prefix)
  then have "prefix (base @ concat ds @ begun ?v) (base @ concat (p @ low) @ concat (pkgs True sid ss @ pkgs False sid ss))"
    unfolding c(2) [symmetric] by (auto intro: prefix_prefix)
  moreover have "base @ concat ds @ begun ?v = base @ concat ?p" if "wb_queue (slot_of sid ss) = []" "pending_count [] (ss_pipe ss) sid = 0"
  proof -
    have "?v = []" using that(1) by (simp add: view_def)
    then show ?thesis using pkgs_none [OF that(2)] c(2) by (simp add: begun_def)
  qed
  ultimately show ?thesis unfolding c(1) by (metis concat_append)
qed

text \<open>
  C1. A connection carries the packages sent to it: the bytes written to its descriptor are at all times the beginning of
  the packages, one after the other and whole, in an order that keeps the order of the packages of high and of low
  priority, and they are all of the packages when nothing waits. It holds for packages that are written by the thread that
  sends them, queued in the pipe or in the lists of the socket, and for writes that take part of a package.
\<close>

theorem connection_stream:
  assumes "server_run (socket_server_create time fd tape) tr ss0" "serves sid ss0 hs ls ss"
    and "wb_queue (slot_of sid ss0) = []" "pending_count [] (ss_pipe ss0) sid = 0"
  shows "\<exists>p\<in>shuffles hs ls. prefix (out (s_fd (slot_of sid ss)) ss) (out (s_fd (slot_of sid ss0)) ss0 @ concat p) \<and>
    (wb_queue (slot_of sid ss) = [] \<and> pending_count [] (ss_pipe ss) sid = 0 \<longrightarrow>
       out (s_fd (slot_of sid ss)) ss = out (s_fd (slot_of sid ss0)) ss0 @ concat p)"
proof -
  have ok: "server_ok ss0" by (rule run_ok [OF assms(1) create_ok])
  have "chan_of (HASH_ID sid) ss0 = (out (s_fd (slot_of sid ss0)) ss0, [], 0)" using assms(3) by (simp add: chan_of_def view_def wb_queue_def)
  then have "served (out (s_fd (slot_of sid ss0)) ss0) sid [] [] ss0"
    using stream_start pkgs_none [OF assms(4)] by (auto simp: served_def)
  then show ?thesis using serves_served [OF assms(2) ok] served_out by blast
qed

section \<open>A server with one socket\<close>

text \<open>Runs on a server in which only the slot 1 is in use, computed.\<close>

lemma reserve_id_first:
  assumes "next_id ss = (sid, ss1)" "s_type (slot_of sid ss1) = SOCKET_TYPE_INVALID"
  shows "reserve_id ss = (Some sid, upd_slot (HASH_ID sid) (reserved_socket sid) ss1)"
proof -
  obtain n where n: "MAX_SOCKET = Suc n" by (cases MAX_SOCKET) (simp_all add: MAX_SOCKET_def)
  show ?thesis unfolding reserve_id_def n using assms by simp
qed

definition one_socket :: "socket \<Rightarrow> request list \<Rightarrow> (nat \<rightharpoonup> bytes) \<Rightarrow> nat \<Rightarrow> os_answer list \<Rightarrow> kcall list \<Rightarrow> socket_server" where
  "one_socket s p m b t l = \<lparr>ss_time = 0, ss_reserve_fd = - 1, ss_checkctrl = True, ss_alloc_id = 1, ss_event_index = 0, ss_ev = [],
     ss_slot = (\<lambda>_. zero_socket)(1 := s), ss_pipe = p, ss_mem = m, ss_brk = b, ss_tape = t, ss_log = l\<rparr>"

definition os_gives :: "int \<Rightarrow> event list \<Rightarrow> os_answer" where
  "os_gives r es = \<lparr>a_ret = r, a_errno = 0, a_data = [], a_addr = SA_v4 [] [], a_events = es\<rparr>"

definition bound_socket :: "bool \<Rightarrow> write_buffer list \<Rightarrow> int \<Rightarrow> u64 \<Rightarrow> socket" where
  "bound_socket w hs n k = init_socket 1 5 PROTOCOL_TCP 7 zero_socket\<lparr>s_type := SOCKET_TYPE_BIND, s_sending := k, s_writing := w, s_high := hs, s_wb_size := n\<rparr>"

text \<open>The slot 1 as a socket that was bound, with \<open>n\<close> bytes waiting, above; the steps of the runs, below.\<close>

lemma hash1: "HASH_ID 1 = Suc 0" by (simp add: HASH_ID_def MAX_SOCKET_def)

lemma tag1: "ID_TAG16 1 = 0" by (simp add: ID_TAG16_def MAX_SOCKET_def)

lemmas slot_defs = one_socket_def bound_socket_def reserved_socket_def init_socket_def zero_socket_def os_gives_def hash1

lemma act_bind: "act (Bind 7 5) (socket_server_create 0 (-1) t) = Some (silent (one_socket (reserved_socket 1 zero_socket) [Req_B 1 5 7] Map.empty 1 t []))"
proof -
  have "next_id (socket_server_create 0 (-1) t) = (1, one_socket zero_socket [] Map.empty 1 t [])"
    by (simp add: next_id_eq socket_server_create_def one_socket_def fun_eq_iff)
  from reserve_id_first [OF this] show ?thesis
    by (simp add: socket_server_bind_def send_request_def slot_defs upd_slot_def)
qed

lemmas one_socket_ops = poll_step_def ctrl_cmd_def do_request_def bind_socket_def new_fd_def poll_result_def clear_closed_event_def
  sp_add_def next_answer_def enable_read_def enable_write_def sp_enable_def klog_def set_type_def turn_reply_def check_wb_list_def upd_slot_def

lemma poll_bind: "\<exists>ev m. act Poll (one_socket (reserved_socket 1 zero_socket) [Req_B 1 5 7] Map.empty 1 (os_gives 0 [] # t) []) = 
   Some (ev, m, one_socket (bound_socket False [] 0 (push_bit 16 (ID_TAG16 1))) [] Map.empty 1 t [K_add 5 1, K_nonblocking 5])"
  by (simp add: one_socket_ops slot_defs tag1)

lemma act_send: "act (Send 1 [1, 2, 3]) (one_socket (bound_socket False [] 0 0) [] Map.empty 1 t l) = Some (silent 
  (one_socket (bound_socket False [] 0 1) [Req_D \<lparr>rq_id = 1, rq_sz = 3, rq_buffer = 1\<rparr>] [1 \<mapsto> [1, 2, 3]] 2 t l))"
  by (simp add: one_socket_ops slot_defs mem_alloc_def socket_server_send_def Let_def socket_invalid_def can_direct_write_def nomore_sending_data_def
    inc_sending_ref_def clone_buffer_def tag1 send_request_def)

lemma poll_send: "act Poll (one_socket (bound_socket False [] 0 1) [Req_D \<lparr>rq_id = 1, rq_sz = 3, rq_buffer = 1\<rparr>] [1 \<mapsto> [1, 2, 3]] 2 (os_gives 0 [] # t) l) =
  Some (silent (one_socket (bound_socket True [\<lparr>wb_buffer = 1, wb_ptr = 0, wb_sz = 3, wb_userobject = False, wb_object = sizeof_write_buffer, wb_udp_address = []\<rparr>] 3 0) [] [1 \<mapsto> [1, 2, 3]] 2 t (l @ [K_mod 5 True True])))"
  by (simp add: one_socket_ops slot_defs send_socket_def dec_sending_ref_def send_object_init_def USEROBJECT_def send_buffer_empty_def append_sendbuffer_def new_write_buffer_def
    append_node_def upd_wb_list_def send_warning_def WARNING_SIZE_def tag1 Let_def)
definition node :: "nat \<Rightarrow> nat \<Rightarrow> write_buffer" where
  "node p n = \<lparr>wb_buffer = 1, wb_ptr = p, wb_sz = n, wb_userobject = False, wb_object = sizeof_write_buffer, wb_udp_address = []\<rparr>"

definition writable :: event where
  "writable = \<lparr>e_s = Some 1, e_read = False, e_write = True, e_error = False, e_eof = False\<rparr>"

lemma poll_write: "act Poll (one_socket (bound_socket True [node 0 3] 3 0) [] [1 \<mapsto> [1, 2, 3]] 2 [os_gives 0 [writable], os_gives 2 []] l) =
  Some (None, no_message, (one_socket ((bound_socket True [node 2 1] 1 0)\<lparr>s_write := 2\<rparr>) [] [1 \<mapsto> [1, 2, 3]] 2 [] (l @ [K_write 5 [1, 2]]))\<lparr>ss_event_index := 1, ss_ev := [writable]\<rparr>)"
  by (simp add: one_socket_ops slot_defs node_def writable_def next_event_def poll_event_def dispatch_event_def send_buffer_def take_dw_def send_buffer_lists_def send_list_def
   send_list_tcp_def repeat_step.simps send_tcp_step_def wb_list_of_def mem_read_def load_n_def sys_write_def stat_write_def upd_wb_list_def list_uncomplete_def MAX_EVENT_def Let_def numeral_2_eq_2)

lemma act_close: "act (Close 7 1) (one_socket s p m b t l) = Some (silent (one_socket s (p @ [Req_K 1 False 7]) m b t l))"
  by (simp add: socket_server_close_def send_request_def one_socket_def)

lemma poll_close: "act Poll (one_socket (bound_socket False [] 0 0) [Req_K 1 False 7] Map.empty 1 [] l) =
  Some (Some SOCKET_CLOSE, \<lparr>sm_id = 1, sm_opaque = 7, sm_ud = 0, sm_data = D_null\<rparr>, one_socket ((bound_socket False [] 0 0)\<lparr>s_type := SOCKET_TYPE_INVALID\<rparr>) [] Map.empty 1 [] (l @ [K_del 5]))"
  by (simp add: one_socket_ops slot_defs close_socket_def force_close_def free_dw_def free_wb_list_def socket_invalid_def nomore_sending_data_def send_buffer_empty_def halfclose_read_def
    Let_def sp_del_def message_of_def)

lemma poll_close_again: "act Poll (one_socket ((bound_socket False [] 0 0)\<lparr>s_type := SOCKET_TYPE_INVALID\<rparr>) [Req_K 1 False 7] Map.empty 1 [] l) =
  Some (silent (one_socket ((bound_socket False [] 0 0)\<lparr>s_type := SOCKET_TYPE_INVALID\<rparr>) [] Map.empty 1 [] l))"
  by (simp add: one_socket_ops slot_defs close_socket_def socket_invalid_def Let_def)



text \<open>The guards in these states.\<close>

lemma new_ids_one_socket: "new_ids (one_socket s p m b t l) = {2}"
proof -
  have "next_id (one_socket s p m b t l) = (2, (one_socket s p m b t l)\<lparr>ss_alloc_id := 2\<rparr>)" by (simp add: next_id_eq one_socket_def)
  from reserve_id_first [OF this] show ?thesis by (simp add: new_ids_def one_socket_def HASH_ID_def MAX_SOCKET_def zero_socket_def)
qed

lemma one_socket_fds: "fds_distinct (one_socket s p m b t l)"
  by (simp add: fds_distinct_def one_socket_def live_def zero_socket_def)

lemma poll_ok_pipe: "\<forall>r\<in>set p. 2 \<notin> set (req_ids r) \<Longrightarrow> p \<noteq> [] \<Longrightarrow> poll_ok (one_socket s p m b t l)"
  by (simp add: poll_ok_def id_fresh_def new_ids_one_socket next_events_def) (simp add: one_socket_def)

lemma poll_ok_event:
  "s_type s \<noteq> SOCKET_TYPE_RESERVE \<Longrightarrow> poll_ok (one_socket s [] m b [os_gives 0 [writable], os_gives 2 []] l)"
  by (simp add: poll_ok_def id_fresh_def new_ids_one_socket next_events_def)
    (simp add: one_socket_def next_answer_def os_gives_def writable_def MAX_EVENT_def MAX_SOCKET_def)

lemma one_socket_slot: "slot_of 1 (one_socket s p m b t l) = s"
  by (simp add: one_socket_def hash1)

lemma one_socket_accepts: "accepts (bound_socket w hs n k) 1" "live (bound_socket w hs n k)" "s_fd (bound_socket w hs n k) = 5" "s_type (bound_socket w hs n k) = SOCKET_TYPE_BIND"
  "s_id (bound_socket w hs n k) = 1" "\<not> s_closing (bound_socket w hs n k)"
  by (simp_all add: accepts_def live_def bound_socket_def init_socket_def zero_socket_def)

text \<open>The socket is created.\<close>

lemma run_bound: "\<exists>tr. server_run (socket_server_create 0 (-1) (os_gives 0 [] # t)) tr (one_socket (bound_socket False [] 0 0) [] Map.empty 1 t [K_add 5 1, K_nonblocking 5])"
proof -
  let ?s0 = "socket_server_create 0 (-1) (os_gives 0 [] # t)"
  have "server_run ?s0 ([] @ [(Bind 7 5, silent (one_socket (reserved_socket 1 zero_socket) [Req_B 1 5 7] Map.empty 1 (os_gives 0 [] # t) []))])
    (one_socket (reserved_socket 1 zero_socket) [Req_B 1 5 7] Map.empty 1 (os_gives 0 [] # t) [])"
    by (rule run_step [OF run_nil _ act_bind]) (simp add: id_fresh_def socket_server_create_def)
  from run_step [OF this, of Poll] show ?thesis using poll_bind [of t] poll_ok_pipe [of "[Req_B 1 5 7]"] by (auto simp: req_ids_def tag1)
qed


lemma serves_one_socket:
  "serves 1 (one_socket (bound_socket False [] 0 0) [] Map.empty 1 [os_gives 0 [], os_gives 0 [writable], os_gives 2 []] l) [[1, 2, 3]] []
     ((one_socket ((bound_socket True [node 2 1] 1 0)\<lparr>s_write := 2\<rparr>) [] [1 \<mapsto> [1, 2, 3]] 2 [] (l @ [K_mod 5 True True, K_write 5 [1, 2]]))\<lparr>ss_event_index := 1, ss_ev := [writable]\<rparr>)"
proof -
  let ?t = "[os_gives 0 [writable], os_gives 2 []]" and ?d = "Req_D \<lparr>rq_id = 1, rq_sz = 3, rq_buffer = 1\<rparr>"
  let ?s0 = "one_socket (bound_socket False [] 0 0) [] Map.empty 1 (os_gives 0 [] # ?t) l"
  have 1: "serves 1 ?s0 ([] @ sent (Send 1 [1, 2, 3]) 1 True) ([] @ sent (Send 1 [1, 2, 3]) 1 False)
    (one_socket (bound_socket False [] 0 1) [?d] [1 \<mapsto> [1, 2, 3]] 2 (os_gives 0 [] # ?t) l)"
    by (rule serves_step [OF serves_nil _ one_socket_fds _ act_send])
      (simp_all add: send_ok_def one_socket_slot one_socket_accepts pending_count_def USEROBJECT_def, simp add: one_socket_def)
  have 2: "serves 1 ?s0 (([] @ sent (Send 1 [1, 2, 3]) 1 True) @ sent Poll 1 True) (([] @ sent (Send 1 [1, 2, 3]) 1 False) @ sent Poll 1 False)
    (one_socket (bound_socket True [node 0 3] 3 0) [] [1 \<mapsto> [1, 2, 3]] 2 ?t (l @ [K_mod 5 True True]))"
    by (rule serves_step [OF 1 _ one_socket_fds _ poll_send [folded node_def]]) (auto simp: one_socket_slot one_socket_accepts req_ids_def intro!: poll_ok_pipe)
  show ?thesis using serves_step [OF 2 _ one_socket_fds _ poll_write]
    by (simp add: one_socket_slot one_socket_accepts poll_ok_event sent_to_def) (simp add: one_socket_def hash1 live_def bound_socket_def)
qed

theorem connection_stream_witness:
  "\<exists>ss0 ss. serves 1 ss0 [[1, 2, 3]] [] ss \<and> out 5 ss0 = [] \<and> out 5 ss = [1, 2] \<and>
    (\<exists>p\<in>shuffles [[1, 2, 3]] []. prefix (out (s_fd (slot_of 1 ss)) ss) (out (s_fd (slot_of 1 ss0)) ss0 @ concat p))"
proof -
  let ?t = "[os_gives 0 [], os_gives 0 [writable], os_gives 2 []]" and ?l = "[K_add 5 1, K_nonblocking 5]"
  obtain tr where "server_run (socket_server_create 0 (-1) (os_gives 0 [] # ?t)) tr (one_socket (bound_socket False [] 0 0) [] Map.empty 1 ?t ?l)"
    using run_bound by blast
  from connection_stream [OF this serves_one_socket] serves_one_socket [of ?l] show ?thesis
    by (fastforce simp: one_socket_slot pending_count_def one_socket_def hash1 bound_socket_def init_socket_def zero_socket_def wb_queue_def dw_list_def)
qed

theorem close_reported_once_witness:
  "\<exists>ss1 m ss2 ss3 ev m' ss4. act Poll ss1 = Some (Some SOCKET_CLOSE, m, ss2) \<and> act (Close 7 1) ss2 = Some (silent ss3) \<and>
     act Poll ss3 = Some (ev, m', ss4) \<and> \<not> (ev = Some SOCKET_CLOSE \<and> sm_id m' = sm_id m)"
proof -
  let ?l = "[K_add 5 1, K_nonblocking 5]"
  obtain tr where r: "server_run (socket_server_create 0 (-1) [os_gives 0 []]) tr (one_socket (bound_socket False [] 0 0) [] Map.empty 1 [] ?l)"
    using run_bound by blast
  let ?c = "bound_socket False [] 0 0\<lparr>s_type := SOCKET_TYPE_INVALID\<rparr>" and ?m = "\<lparr>sm_id = 1, sm_opaque = 7, sm_ud = 0, sm_data = D_null\<rparr>"
  let ?tr = "[(Close 7 1, silent (one_socket ?c [Req_K 1 False 7] Map.empty 1 [] (?l @ [K_del 5])))]"
  have "server_run (socket_server_create 0 (-1) [os_gives 0 []]) (tr @ [(Close 7 1, silent (one_socket (bound_socket False [] 0 0) ([] @ [Req_K 1 False 7]) Map.empty 1 [] ?l))])
    (one_socket (bound_socket False [] 0 0) ([] @ [Req_K 1 False 7]) Map.empty 1 [] ?l)"
    by (rule run_step [OF r _ act_close]) simp
  note 1 = this [unfolded append_Nil]
  have g: "act_ok Poll (one_socket s [Req_K 1 False 7] Map.empty 1 [] l)" for s l by (simp add: poll_ok_pipe req_ids_def)
  have 2: "server_run (one_socket ?c [] Map.empty 1 [] (?l @ [K_del 5])) ([] @ ?tr) (one_socket ?c [Req_K 1 False 7] Map.empty 1 [] (?l @ [K_del 5]))"
    using run_step [OF run_nil _ act_close, of ?c "[]"] by simp
  have "\<not> (None = Some SOCKET_CLOSE \<and> sm_id no_message = sm_id ?m)"
    by (rule close_reported_once [OF 1 g poll_close 2 _ _ g poll_close_again]) (simp_all add: new_ids_one_socket)
  then show ?thesis using poll_close [of ?l] poll_close_again [of "?l @ [K_del 5]"] act_close [of ?c "[]" Map.empty 1 "[]" "?l @ [K_del 5]", unfolded append_Nil]
    by blast
qed

section \<open>A package for a socket that is not there yet\<close>


section \<open>Datagrams that have to wait\<close>

text \<open>A datagram is sent at once when nothing waits before it and \<open>sendto\<close> takes it, or it is dropped for its address.\<close>

definition datagram_done :: "request_send \<Rightarrow> bytes option \<Rightarrow> socket_server \<Rightarrow> bool" where
  "datagram_done q addr ss \<longleftrightarrow> (let s = slot_of (rq_id q) ss in send_buffer_empty s \<and>
     (case udp_socket_address s (case addr of None \<Rightarrow> s_udp_address s | Some a \<Rightarrow> a) of
        None \<Rightarrow> True
      | Some sa \<Rightarrow> (case mem_read (rq_buffer q) 0 (rq_sz q) ss of
            None \<Rightarrow> False
          | Some bs \<Rightarrow> fst (sys_sendto (s_fd s) bs sa ss) = Inr (rq_sz q))))"

lemma append_sendbuffer_udp_overflows: "append_sendbuffer_udp i high q addr ss = None"
  by (simp add: append_sendbuffer_udp_def new_write_buffer_def send_object_init_def UDP_ADDRESS_SIZE_def)

text \<open>
  C39. A datagram that is not sent at once is written outside its \<open>write_buffer\<close>: the node is allocated without the
  room for the address that \<open>append_sendbuffer_udp\<close> copies into it.
\<close>

theorem waiting_datagram_overflows:
  assumes "accepts (slot_of (rq_id q) ss) (rq_id q)" "s_protocol (slot_of (rq_id q) ss) \<noteq> PROTOCOL_TCP" "\<not> datagram_done q addr ss"
  shows "send_socket q high addr m ss = None"
proof (cases "send_buffer_empty (slot_of (rq_id q) ss)")
  case True
  then show ?thesis using assms
    by (auto simp: send_socket_def Let_def append_sendbuffer_udp_overflows accepts_def live_def datagram_done_def send_object_init_def
      split: option.splits prod.splits)
next
  case False
  then show ?thesis using assms(1,2)
    by (auto simp: send_socket_def Let_def append_sendbuffer_udp_overflows accepts_def live_def send_object_init_def)
qed

theorem waiting_datagram_overflows_witness:
  "send_socket \<lparr>rq_id = 1, rq_sz = 1, rq_buffer = 1\<rparr> True None no_message
     (one_socket ((bound_socket False [] 0 0)\<lparr>s_protocol := PROTOCOL_UDP, s_udp_address := [PROTOCOL_UDP, 0, 9, 1, 2, 3, 4]\<rparr>) [] [1 \<mapsto> [7]] 2 [] []) = None"
proof -
  let ?s = "bound_socket False [] 0 0\<lparr>s_protocol := PROTOCOL_UDP, s_udp_address := [PROTOCOL_UDP, 0, 9, 1, 2, 3, 4]\<rparr>" and ?q = "\<lparr>rq_id = 1, rq_sz = 1, rq_buffer = 1\<rparr>"
  have "\<not> datagram_done ?q None (one_socket ?s [] [1 \<mapsto> [7]] 2 [] [])"
    by (simp add: datagram_done_def one_socket_slot udp_socket_address_def mem_read_def load_n_def)
      (simp add: one_socket_def sys_sendto_def next_answer_def no_answer_def)
  then show ?thesis using waiting_datagram_overflows [where q = ?q and ss = "one_socket ?s [] [1 \<mapsto> [7]] 2 [] []" and addr = None and high = True and m = no_message]
    by (simp add: one_socket_slot accepts_def live_def one_socket_accepts PROTOCOL_UDP_def PROTOCOL_TCP_def)
qed

end
